(* ===== verification/Prelude.thy ===== *)
theory Prelude
  imports Main "HOL-Library.Word"
begin

text \<open>
  Shared vocabulary of the development: the machine integers of the kernel, byte memories, the
  little-endian layout of integers in memory, rotations, and the generic facts on words, lists and
  loops that the component theories use. Nothing here models one particular component.

  Conventions used everywhere:
  \<^item> \<open>uintN_t\<close> is a word of that width, so \<open>+\<close>, \<open>-\<close> and \<open>*\<close> wrap as they do in the code;
  \<^item> a byte array is a \<open>u8 list\<close> where its length is known to the code, and a \<open>mem\<close> (a function from
    indices to bytes) where the code keeps a large pool and addresses it by offset;
  \<^item> a C string argument is the list of its characters before the terminating NUL, and \<open>cstr_at\<close>
    reads it the way \<open>s[i]\<close> does, NUL included;
  \<^item> an access the code would make out of bounds is the value \<open>None\<close>.
\<close>

unbundle bit_operations_syntax

section \<open>Machine integers\<close>

type_synonym u8 = "8 word"
type_synonym u16 = "16 word"
type_synonym u32 = "32 word"
type_synonym u64 = "64 word"

named_theorems layout_simps \<open>little-endian layout of integers in memory\<close>
named_theorems mem_simps \<open>reads of a memory after writes\<close>

lemma unat_u8_lt: "unat (x :: u8) < 256"
  using unsigned_less [of x, where 'a = nat] by simp

lemma unat_u16_lt: "unat (x :: u16) < 65536"
  using unsigned_less [of x, where 'a = nat] by simp

lemma unat_u32_lt: "unat (x :: u32) < 4294967296"
  using unsigned_less [of x, where 'a = nat] by simp

lemma unat_u64_lt: "unat (x :: u64) < 18446744073709551616"
  using unsigned_less [of x, where 'a = nat] by simp

text \<open>The bitwise operations, without the rules that turn word numerals into integers.\<close>

lemmas bit_ops = bit_and_iff bit_or_iff bit_xor_iff bit_push_bit_iff bit_drop_bit_eq
  bit_take_bit_iff bit_unsigned_iff bit_mask_iff

lemma xor_cancel_left [simp]: "x XOR (x XOR y) = (y :: 'a::len word)"
  by (simp add: xor.assoc [symmetric])

lemma xor_cancel_right [simp]: "(y XOR x) XOR x = (y :: 'a::len word)"
  by (simp add: xor.assoc)

text \<open>A word below \<open>2 ^ k\<close> has no bit from \<open>k\<close> on.\<close>

lemma high_bits_clear:
  assumes "unat (x :: 'a::len word) < 2 ^ k" "k \<le> n"
  shows "\<not> bit x n"
proof -
  have "(2::nat) ^ k \<le> 2 ^ n" using assms(2) by (rule power_increasing) simp
  then have "unat x < 2 ^ n" using assms(1) by (rule less_le_trans [rotated])
  then have "unat x div 2 ^ n = 0" by (rule div_less)
  then have "\<not> bit (unat x) n" by (simp add: bit_iff_odd)
  then show ?thesis by (auto simp: bit_unsigned_iff dest: bit_imp_le_length)
qed

section \<open>Rotations as the code writes them\<close>

text \<open>\<open>(x << n) | (x >> (64 - n))\<close> on \<open>uint64_t\<close>.\<close>

definition rot64 :: "nat \<Rightarrow> u64 \<Rightarrow> u64" where
  "rot64 n x = push_bit n x OR drop_bit (64 - n) x"

lemma rot64_word_rotl:
  assumes "0 < n" "n < 64"
  shows "rot64 n x = word_rotl n x"
proof (rule bit_word_eqI)
  fix i assume i: "i < LENGTH(64)"
  show "bit (rot64 n x) i = bit (word_rotl n x) i"
  proof (cases "i < n")
    case True
    then have "(i + (64 - n)) mod 64 = 64 - n + i" using assms by simp
    with True show ?thesis using assms i
      by (simp add: rot64_def bit_word_rotl_iff bit_push_bit_iff bit_or_iff bit_drop_bit_eq)
  next
    case False
    then have "i + (64 - n) = (i - n) + 64" using assms by simp
    then have "(i + (64 - n)) mod 64 = (i - n) mod 64" by (metis mod_add_self2)
    then have "(i + (64 - n)) mod 64 = i - n" using i by simp
    moreover have "\<not> bit x (64 - n + i)"
      using False bit_imp_le_length [of x "64 - n + i"] by auto
    ultimately show ?thesis using False assms i
      by (simp add: rot64_def bit_word_rotl_iff bit_push_bit_iff bit_or_iff bit_drop_bit_eq)
  qed
qed

lemma word_rotr_rot64: "0 < n \<Longrightarrow> n < 64 \<Longrightarrow> word_rotr n (rot64 n x) = x"
  by (simp add: rot64_word_rotl)

section \<open>Little-endian layout\<close>

text \<open>The bytes \<open>memcpy\<close> moves when the source is an integer: \<open>to_le n\<close> gives the first \<open>n\<close> of
  them, \<open>of_le\<close> is the integer a byte sequence stands for.\<close>

fun to_le :: "nat \<Rightarrow> 'a::len word \<Rightarrow> u8 list" where
  "to_le 0 w = []"
| "to_le (Suc n) w = ucast w # to_le n (drop_bit 8 w)"

fun of_le :: "u8 list \<Rightarrow> 'a::len word" where
  "of_le [] = 0"
| "of_le (b # bs) = ucast b OR push_bit 8 (of_le bs)"

lemma length_to_le [simp]: "length (to_le n w) = n"
  by (induction n arbitrary: w) auto

lemma nth_to_le [layout_simps]: "i < n \<Longrightarrow> to_le n w ! i = ucast (drop_bit (8 * i) w)"
  by (induction n arbitrary: w i)
    (auto simp: nth_Cons drop_bit_drop_bit add.commute split: nat.split)

lemma of_le_to_le: "of_le (to_le n w) = take_bit (8 * n) (w :: 'a::len word)"
proof (induction n arbitrary: w)
  case 0
  show ?case by simp
next
  case (Suc n)
  show ?case
  proof (rule bit_word_eqI)
    fix i assume "i < LENGTH('a)"
    then show "bit (of_le (to_le (Suc n) w) :: 'a word) i = bit (take_bit (8 * Suc n) w) i"
      by (auto simp: Suc bit_simps)
  qed
qed

lemma of_le_to_le_u64 [simp]: "of_le (to_le 8 w) = (w :: u64)"
  by (simp add: of_le_to_le take_bit_word_eq_self)

lemma of_le_to_le_u32 [simp]: "of_le (to_le 4 w) = (w :: u32)"
  by (simp add: of_le_to_le take_bit_word_eq_self)

lemma of_le_to_le_u16 [simp]: "of_le (to_le 2 w) = (w :: u16)"
  by (simp add: of_le_to_le take_bit_word_eq_self)

lemma bit_of_le_iff:
  "bit (of_le bs :: 'a::len word) i \<longleftrightarrow>
     i < LENGTH('a) \<and> i div 8 < length bs \<and> bit (bs ! (i div 8)) (i mod 8)"
proof (induction bs arbitrary: i)
  case Nil
  then show ?case by simp
next
  case (Cons b bs)
  show ?case
  proof (cases "i < 8")
    case True
    then show ?thesis by (auto simp: bit_simps)
  next
    case False
    then have "i div 8 = Suc ((i - 8) div 8)" "i mod 8 = (i - 8) mod 8" 
      by (simp_all add: le_div_geq le_mod_geq)
    with False show ?thesis
      by (auto simp: bit_simps Cons dest: bit_imp_le_length)
  qed
qed

lemma to_le_of_le:
  assumes "length bs = n" "8 * n \<le> LENGTH('a)"
  shows "to_le n (of_le bs :: 'a::len word) = bs"
proof (rule nth_equalityI)
  show "length (to_le n (of_le bs :: 'a word)) = length bs" using assms by simp
next
  fix i assume "i < length (to_le n (of_le bs :: 'a word))"
  then have i: "i < n" by simp
  show "to_le n (of_le bs :: 'a word) ! i = bs ! i"
  proof (rule bit_word_eqI)
    fix k assume "k < LENGTH(8)"
    then have k: "k < 8" by simp
    then have "(8 * i + k) div 8 = i" "(8 * i + k) mod 8 = k" by simp_all
    moreover have "8 * i + k < LENGTH('a)" using i k assms(2) by simp
    ultimately show "bit (to_le n (of_le bs :: 'a word) ! i) k = bit (bs ! i) k"
      using i k assms(1) by (simp add: nth_to_le bit_simps bit_of_le_iff)
  qed
qed

section \<open>Byte memories\<close>

type_synonym mem = "nat \<Rightarrow> u8"

definition mem_read :: "mem \<Rightarrow> nat \<Rightarrow> nat \<Rightarrow> u8 list" where
  "mem_read m a n = map (\<lambda>i. m (a + i)) [0..<n]"

definition mem_write :: "mem \<Rightarrow> nat \<Rightarrow> u8 list \<Rightarrow> mem" where
  "mem_write m a bs = (\<lambda>i. if a \<le> i \<and> i < a + length bs then bs ! (i - a) else m i)"

lemma length_mem_read [simp]: "length (mem_read m a n) = n"
  by (simp add: mem_read_def)

lemma nth_mem_read [simp]: "i < n \<Longrightarrow> mem_read m a n ! i = m (a + i)"
  by (simp add: mem_read_def)

lemma mem_read_write_same [mem_simps]: "mem_read (mem_write m a bs) a (length bs) = bs"
  by (rule nth_equalityI) (auto simp: mem_write_def)

lemma mem_read_write_sub [mem_simps]:
  "off + n \<le> length bs \<Longrightarrow>
     mem_read (mem_write m a bs) (a + off) n = take n (drop off bs)"
  by (rule nth_equalityI) (auto simp: mem_write_def)

lemma mem_read_write_disjoint [mem_simps]:
  "b + n \<le> a \<or> a + length bs \<le> b \<Longrightarrow> mem_read (mem_write m a bs) b n = mem_read m b n"
  by (rule nth_equalityI) (auto simp: mem_write_def)

lemma mem_write_Nil [simp]: "mem_write m a [] = m"
  by (rule ext) (auto simp: mem_write_def)

lemma mem_write_snoc: "mem_write m a (bs @ [b]) = (mem_write m a bs)(a + length bs := b)"
  by (rule ext) (auto simp: mem_write_def nth_append)

lemma mem_write_append:
  "mem_write m a (bs @ cs) = mem_write (mem_write m a bs) (a + length bs) cs"
  by (rule ext) (auto simp: mem_write_def nth_append)

lemma mem_read_append: "mem_read m a (k + n) = mem_read m a k @ mem_read m (a + k) n"
  by (rule nth_equalityI) (auto simp: nth_append)

section \<open>C strings\<close>

type_synonym cstr = "u8 list"

definition cstr_at :: "cstr \<Rightarrow> nat \<Rightarrow> u8" where
  "cstr_at s i = (if i < length s then s ! i else 0)"

definition cstr_ok :: "cstr \<Rightarrow> bool" where
  "cstr_ok s \<longleftrightarrow> 0 \<notin> set s"

lemma cstr_at_zero_iff: "cstr_ok s \<Longrightarrow> cstr_at s i = 0 \<longleftrightarrow> length s \<le> i"
  by (auto simp: cstr_at_def cstr_ok_def) (metis nth_mem)

text \<open>A string literal of the source as its bytes.\<close>

definition lit :: "string \<Rightarrow> cstr" where
  "lit s = map (\<lambda>c. word_of_nat (of_char c)) s"

end
