(* ===== verification/Value128.thy ===== *)
theory Value128
  imports Prelude
begin

text \<open>
  The 128-bit atom of \<open>src/vdev/topology.hpp\<close> and the constants of its header. An atom carries a
  10-bit route in the top bits of its high word; \<open>pack_route\<close> replaces the route and clears the two
  bits under it. In memory the high word comes first (it is the first field of the struct).
\<close>

unbundle bit_operations_syntax

definition LENS_COUNT :: nat where "LENS_COUNT = 1024"
definition LENS_MASK :: u16 where "LENS_MASK = 0x3FF"
definition HALT_ROUTE :: u16 where "HALT_ROUTE = 0x3FF"
definition ERROR_ROUTE :: u16 where "ERROR_ROUTE = 0x3FE"
definition FREE_ROUTE :: u16 where "FREE_ROUTE = 0x3FD"
definition PHI_HI :: u64 where "PHI_HI = 0x9E3779B97F4A7C15"
definition PHI_LO :: u64 where "PHI_LO = 0x517CC1B727220A95"

record value128 =
  v_hi :: u64
  v_lo :: u64

record seed =
  s_hi :: u64
  s_lo :: u64

abbreviation val128 :: "u64 \<Rightarrow> u64 \<Rightarrow> value128" where
  "val128 h l \<equiv> \<lparr>v_hi = h, v_lo = l\<rparr>"

definition route :: "value128 \<Rightarrow> u16" where
  "route v = ucast (drop_bit 54 (v_hi v)) AND LENS_MASK"

definition pack_route :: "value128 \<Rightarrow> u16 \<Rightarrow> value128" where
  "pack_route v r =
    (let h = v_hi v AND 0x000FFFFFFFFFFFFF
     in v\<lparr>v_hi := h OR push_bit 54 (ucast (r AND LENS_MASK))\<rparr>)"

text \<open>The object representation: 16 bytes, high word first, each word little-endian.\<close>

definition atom_bytes :: "value128 \<Rightarrow> u8 list" where
  "atom_bytes v = to_le 8 (v_hi v) @ to_le 8 (v_lo v)"

definition atom_of_bytes :: "u8 list \<Rightarrow> value128" where
  "atom_of_bytes bs = val128 (of_le (take 8 bs)) (of_le (take 8 (drop 8 bs)))"

text \<open>\<open>get_payload\<close> and \<open>set_payload\<close> copy \<open>len\<close> bytes from or over the object; more than its 16 bytes
  is out of bounds.\<close>

definition get_payload :: "value128 \<Rightarrow> nat \<Rightarrow> u8 list option" where
  "get_payload v len = (if len \<le> 16 then Some (take len (atom_bytes v)) else None)"

definition set_payload :: "value128 \<Rightarrow> u8 list \<Rightarrow> value128 option" where
  "set_payload v inp =
    (if length inp \<le> 16 then Some (atom_of_bytes (inp @ drop (length inp) (atom_bytes v)))
     else None)"

lemma val128_eta [simp]: "val128 (v_hi v) (v_lo v) = v"
  by simp

lemma length_atom_bytes [simp]: "length (atom_bytes v) = 16"
  by (simp add: atom_bytes_def)

lemma atom_of_bytes_atom_bytes [simp]: "atom_of_bytes (atom_bytes v) = v"
  by (simp add: atom_of_bytes_def atom_bytes_def)

lemma atom_bytes_atom_of_bytes:
  assumes "length bs = 16"
  shows "atom_bytes (atom_of_bytes bs) = bs"
proof -
  have "take 8 (drop 8 bs) = drop 8 bs" using assms by simp
  then show ?thesis using assms by (simp add: atom_of_bytes_def atom_bytes_def to_le_of_le)
qed

lemma bit_mask52: "bit (0x000FFFFFFFFFFFFF :: u64) i \<longleftrightarrow> i < 52"
proof -
  have eq: "(0x000FFFFFFFFFFFFF :: u64) = mask 52" by (simp add: mask_eq_exp_minus_1)
  show ?thesis unfolding eq by (auto simp: bit_mask_iff)
qed

lemma bit_lens_mask: "bit LENS_MASK i \<longleftrightarrow> i < 10"
proof -
  have eq: "LENS_MASK = mask 10" by (simp add: LENS_MASK_def mask_eq_exp_minus_1)
  show ?thesis unfolding eq by (auto simp: bit_mask_iff)
qed

lemma bit_pack_route:
  "bit (v_hi (pack_route v r)) i \<longleftrightarrow>
     (i < 52 \<and> bit (v_hi v) i) \<or> (54 \<le> i \<and> i < 64 \<and> bit r (i - 54))"
  using bit_imp_le_length [of "v_hi v" i] bit_imp_le_length [of r "i - 54"]
  by (auto simp: pack_route_def Let_def bit_ops bit_mask52 bit_lens_mask
      simp del: bit_numeral_word_iff)

lemma v_lo_pack_route [simp]: "v_lo (pack_route v r) = v_lo v"
  by (simp add: pack_route_def Let_def)

lemma bit_route: "bit (route v) i \<longleftrightarrow> i < 10 \<and> bit (v_hi v) (54 + i)"
  by (auto simp: route_def bit_simps bit_lens_mask dest: bit_imp_le_length)

lemma route_pack_route: "route (pack_route v r) = r AND LENS_MASK"
  by (rule bit_word_eqI) (auto simp: bit_route bit_pack_route bit_simps bit_lens_mask)

lemma route_less: "route v \<le> LENS_MASK"
  unfolding route_def by (rule word_and_le1)

lemma unat_route_less: "unat (route v) < 1024"
  using route_less [of v] by (simp add: word_le_nat_alt LENS_MASK_def)

end
