(* ===== verification/PhysMem.thy ===== *)
theory PhysMem
  imports Prelude
begin

text \<open>
  \<open>src/mm\<close>: the physical memory arena behind every \<open>new\<close> of the kernel, and the byte routines
  \<open>kmemcpy\<close>, \<open>kmemset\<close>, \<open>kstrlen\<close>. The arena is a bump allocator: \<open>current_address\<close> only moves
  forward, every block starts on a 16 KiB boundary and nothing is ever freed. The locale \<open>arena\<close>
  is the contract its clients rely on (AHCI, VMX, the graphics back buffer, the manifold pool).
\<close>

unbundle bit_operations_syntax

section \<open>The arena\<close>

record phys_mem =
  current_address :: u64
  max_address :: u64

definition PhysicalMemory :: "u64 \<Rightarrow> u64 \<Rightarrow> phys_mem" where
  "PhysicalMemory start len = \<lparr>current_address = start, max_address = start + len\<rparr>"

text \<open>The null pointer is the address 0. A failing call has already moved \<open>current_address\<close> to the
  next boundary, as the code has.\<close>

definition allocate :: "phys_mem \<Rightarrow> u64 \<Rightarrow> u64 \<times> phys_mem" where
  "allocate p sz =
    (let cur = (if current_address p mod 16384 \<noteq> 0
                then current_address p + (16384 - current_address p mod 16384)
                else current_address p)
     in if max_address p \<le> cur + sz then (0, p\<lparr>current_address := cur\<rparr>)
        else (cur, p\<lparr>current_address := cur + sz\<rparr>))"

text \<open>\<open>operator new\<close> and \<open>operator new[]\<close> forward to the global arena; \<open>operator delete\<close> keeps it.\<close>

definition operator_new :: "phys_mem \<Rightarrow> u64 \<Rightarrow> u64 \<times> phys_mem" where
  "operator_new g_pmm sz = allocate g_pmm sz"

definition operator_delete :: "phys_mem \<Rightarrow> u64 \<Rightarrow> phys_mem" where
  "operator_delete g_pmm ptr = g_pmm"

definition align16k :: "nat \<Rightarrow> nat" where
  "align16k c = (if c mod 16384 = 0 then c else c + (16384 - c mod 16384))"

text \<open>Arenas and requests whose arithmetic cannot wrap: everything below \<open>2^62\<close>. The kernel's own
  arena ends at \<open>0x42000000\<close>.\<close>

definition arena_ok :: "phys_mem \<Rightarrow> bool" where
  "arena_ok p \<longleftrightarrow> unat (max_address p) \<le> 2 ^ 62 \<and>
     align16k (unat (current_address p)) < unat (max_address p) + 16384"

definition request_ok :: "u64 \<Rightarrow> bool" where
  "request_ok n \<longleftrightarrow> unat n \<le> 2 ^ 62"

lemma align16k_dvd: "16384 dvd align16k c"
proof -
  define q r where "q = c div 16384" and "r = c mod 16384"
  then have "c = 16384 * q + r" and "r < 16384" by simp_all
  then have "c + (16384 - r) = 16384 * (q + 1)" by simp
  then have "16384 dvd (c + (16384 - c mod 16384))" unfolding r_def by (metis dvd_triv_left)
  then show ?thesis by (auto simp: align16k_def dvd_eq_mod_eq_0)
qed

lemma align16k_bounds: "c \<le> align16k c" "align16k c < c + 16384"
  by (auto simp: align16k_def)

lemma align16k_idem [simp]: "align16k (align16k c) = align16k c"
  using align16k_dvd [of c] by (simp add: align16k_def [of "align16k c"])

lemma unat_align:
  assumes "unat (c :: u64) \<le> 2 ^ 63"
  shows "unat (if c mod 16384 \<noteq> 0 then c + (16384 - c mod 16384) else c) = align16k (unat c)"
proof -
  have m: "unat (c mod 16384) = unat c mod 16384" by (simp add: unat_mod)
  have lt: "unat c mod 16384 < 16384" by simp
  have le: "c mod 16384 \<le> 16384" using m lt by (simp add: word_le_nat_alt)
  have s: "unat (16384 - c mod 16384) = 16384 - unat c mod 16384"
    using le m by (simp add: unat_sub)
  have "unat (c + (16384 - c mod 16384)) = unat c + (16384 - unat c mod 16384)"
    using s assms by (subst unat_add_lem [THEN iffD1]) simp_all
  moreover have "c mod 16384 = 0 \<longleftrightarrow> unat c mod 16384 = 0"
    using m by (metis unat_eq_0)
  ultimately show ?thesis by (simp add: align16k_def)
qed

text \<open>What one call does, over the naturals.\<close>

lemma allocate_nat:
  assumes "arena_ok p" "request_ok n"
  shows "if unat (max_address p) \<le> align16k (unat (current_address p)) + unat n
         then fst (allocate p n) = 0 \<and>
              unat (current_address (snd (allocate p n))) = align16k (unat (current_address p))
         else unat (fst (allocate p n)) = align16k (unat (current_address p)) \<and>
              unat (current_address (snd (allocate p n))) =
                align16k (unat (current_address p)) + unat n"
proof -
  let ?c = "current_address p"
  let ?a = "if ?c mod 16384 \<noteq> 0 then ?c + (16384 - ?c mod 16384) else ?c"
  have n: "unat n \<le> 2 ^ 62" and lim: "align16k (unat ?c) < 2 ^ 62 + 16384"
    using assms by (simp_all add: arena_ok_def request_ok_def)
  have c: "unat ?c \<le> 2 ^ 63"
    using lim align16k_bounds(1) [of "unat ?c"] by simp
  have a: "unat ?a = align16k (unat ?c)" using unat_align [OF c] .
  have s: "unat (?a + n) = align16k (unat ?c) + unat n"
    using a n lim by (subst unat_add_lem [THEN iffD1]) simp_all
  show ?thesis
    unfolding allocate_def Let_def using a s by (simp add: word_le_nat_alt)
qed

lemma max_address_allocate [simp]: "max_address (snd (allocate p n)) = max_address p"
  by (simp add: allocate_def Let_def)

section \<open>The contract of an arena, and what its clients get\<close>

fun alloc_seq :: "('p \<Rightarrow> u64 \<Rightarrow> u64 \<times> 'p) \<Rightarrow> 'p \<Rightarrow> u64 list \<Rightarrow> (u64 \<times> u64) list \<times> 'p" where
  "alloc_seq alloc p [] = ([], p)"
| "alloc_seq alloc p (n # ns) =
     (let (a, p') = alloc p n; (rs, q) = alloc_seq alloc p' ns in ((a, n) # rs, q))"

definition block_bytes :: "u64 \<times> u64 \<Rightarrow> nat set" where
  "block_bytes b = {unat (fst b) ..< unat (fst b) + unat (snd b)}"

locale arena =
  fixes alloc :: "'p \<Rightarrow> u64 \<Rightarrow> u64 \<times> 'p"
    and next_free :: "'p \<Rightarrow> nat"
    and limit :: "'p \<Rightarrow> nat"
    and inv :: "'p \<Rightarrow> bool"
    and ok :: "u64 \<Rightarrow> bool"
  assumes inv_alloc: "inv p \<Longrightarrow> ok n \<Longrightarrow> inv (snd (alloc p n))"
    and limit_alloc: "limit (snd (alloc p n)) = limit p"
    and next_free_mono: "inv p \<Longrightarrow> ok n \<Longrightarrow> next_free p \<le> next_free (snd (alloc p n))"
    and alloc_block: "inv p \<Longrightarrow> ok n \<Longrightarrow> fst (alloc p n) \<noteq> 0 \<Longrightarrow>
          next_free p \<le> unat (fst (alloc p n)) \<and>
          unat (fst (alloc p n)) + unat n \<le> next_free (snd (alloc p n)) \<and>
          unat (fst (alloc p n)) + unat n < limit p"
    and alloc_aligned: "inv p \<Longrightarrow> ok n \<Longrightarrow> 16384 dvd unat (fst (alloc p n))"
begin

lemma alloc_seq_inv: "inv p \<Longrightarrow> list_all ok ns \<Longrightarrow> inv (snd (alloc_seq alloc p ns))"
  by (induction ns arbitrary: p) (auto simp: split_def Let_def inv_alloc)

lemma alloc_seq_limit: "limit (snd (alloc_seq alloc p ns)) = limit p"
  by (induction ns arbitrary: p) (auto simp: split_def Let_def limit_alloc)

lemma alloc_seq_above:
  assumes "inv p" "list_all ok ns" "b \<in> set (fst (alloc_seq alloc p ns))" "fst b \<noteq> 0"
  shows "next_free p \<le> unat (fst b) \<and> unat (fst b) + unat (snd b) < limit p \<and>
         16384 dvd unat (fst b)"
  using assms
proof (induction ns arbitrary: p)
  case Nil
  then show ?case by simp
next
  case (Cons n ns)
  from Cons.prems have inv': "inv (snd (alloc p n))" and ok: "ok n" by (auto intro: inv_alloc)
  from Cons.prems(3) consider "b = (fst (alloc p n), n)"
    | "b \<in> set (fst (alloc_seq alloc (snd (alloc p n)) ns))"
    by (auto simp: split_def Let_def)
  then show ?case
  proof cases
    case 1
    with Cons.prems(1,4) ok alloc_block alloc_aligned show ?thesis by auto
  next
    case 2
    from Cons.IH [OF inv' _ 2 Cons.prems(4)] Cons.prems(2)
    show ?thesis using next_free_mono [OF Cons.prems(1) ok] by (simp add: limit_alloc)
  qed
qed

text \<open>The blocks a sequence of calls returned do not overlap, whatever calls failed in between.\<close>

lemma alloc_seq_disjoint:
  assumes "inv p" "list_all ok ns" "bs = fst (alloc_seq alloc p ns)"
    and "i < j" "j < length bs" "fst (bs ! i) \<noteq> 0" "fst (bs ! j) \<noteq> 0"
  shows "block_bytes (bs ! i) \<inter> block_bytes (bs ! j) = {}"
  using assms
proof (induction ns arbitrary: p bs i j)
  case Nil
  then show ?case by simp
next
  case (Cons n ns)
  let ?p = "snd (alloc p n)" and ?rs = "fst (alloc_seq alloc (snd (alloc p n)) ns)"
  have bs: "bs = (fst (alloc p n), n) # ?rs"
    using Cons.prems(3) by (simp add: split_def Let_def)
  have inv': "inv ?p" and okn: "ok n" and oks: "list_all ok ns"
    using Cons.prems(1,2) by (auto intro: inv_alloc)
  obtain j' where j: "j = Suc j'" using Cons.prems(4) by (cases j) auto
  show ?case
  proof (cases i)
    case 0
    have mem: "bs ! j \<in> set ?rs" using bs j Cons.prems(5) by simp
    have "next_free ?p \<le> unat (fst (bs ! j))"
      using alloc_seq_above [OF inv' oks mem Cons.prems(7)] by simp
    moreover have "unat (fst (bs ! i)) + unat (snd (bs ! i)) \<le> next_free ?p"
      using alloc_block [OF Cons.prems(1) okn] Cons.prems(6) bs 0 by simp
    ultimately show ?thesis by (auto simp: block_bytes_def)
  next
    case (Suc i')
    show ?thesis
      using Cons.IH [OF inv' oks refl, of i' j'] Cons.prems(4-7) bs j Suc by simp
  qed
qed

end

interpretation pmm: arena allocate "\<lambda>p. unat (current_address p)"
  "\<lambda>p. unat (max_address p)" arena_ok request_ok
proof unfold_locales
  fix p :: phys_mem and n :: u64
  assume p: "arena_ok p" and n: "request_ok n"
  note f = allocate_nat [OF p n] align16k_bounds [of "unat (current_address p)"]
  show "arena_ok (snd (allocate p n))"
    using f p align16k_bounds(2) [of "unat (current_address (snd (allocate p n)))"]
    by (auto simp: arena_ok_def split: if_splits)
  show "unat (current_address p) \<le> unat (current_address (snd (allocate p n)))"
    using f by (auto split: if_splits)
  show "16384 dvd unat (fst (allocate p n))"
    using f align16k_dvd [of "unat (current_address p)"] by (auto split: if_splits)
  assume "fst (allocate p n) \<noteq> 0"
  then show "unat (current_address p) \<le> unat (fst (allocate p n)) \<and>
        unat (fst (allocate p n)) + unat n \<le> unat (current_address (snd (allocate p n))) \<and>
        unat (fst (allocate p n)) + unat n < unat (max_address p)"
    using f by (auto split: if_splits)
qed simp_all

section \<open>Byte routines\<close>

text \<open>The copy and fill loops, one iteration at a time: \<open>kmemcpy_loop m d s n\<close> is the memory after the
  iterations \<open>i = 0, \<dots>, n - 1\<close> of \<open>d[i] = s[i]\<close>.\<close>

fun kmemcpy_loop :: "mem \<Rightarrow> nat \<Rightarrow> nat \<Rightarrow> nat \<Rightarrow> mem" where
  "kmemcpy_loop m d s 0 = m"
| "kmemcpy_loop m d s (Suc i) =
     (let m' = kmemcpy_loop m d s i in m'(d + i := m' (s + i)))"

definition kmemcpy :: "mem \<Rightarrow> nat \<Rightarrow> nat \<Rightarrow> nat \<Rightarrow> mem" where
  "kmemcpy m dest src n = kmemcpy_loop m dest src n"

fun kmemset_loop :: "mem \<Rightarrow> nat \<Rightarrow> u8 \<Rightarrow> nat \<Rightarrow> mem" where
  "kmemset_loop m p c 0 = m"
| "kmemset_loop m p c (Suc i) = (kmemset_loop m p c i)(p + i := c)"

text \<open>The fill value is an \<open>int\<close> cut to \<open>uint8_t\<close>.\<close>

definition kmemset :: "mem \<Rightarrow> nat \<Rightarrow> u32 \<Rightarrow> nat \<Rightarrow> mem" where
  "kmemset m s c n = kmemset_loop m s (ucast c) n"

text \<open>\<open>while (s[len]) len++;\<close> does not return when no NUL follows.\<close>

partial_function (option) kstrlen_from :: "mem \<Rightarrow> nat \<Rightarrow> nat \<Rightarrow> nat option" where
  "kstrlen_from m s len = (if m (s + len) \<noteq> 0 then kstrlen_from m s (len + 1) else Some len)"

definition kstrlen :: "mem \<Rightarrow> nat \<Rightarrow> nat option" where
  "kstrlen m s = kstrlen_from m s 0"

lemma kmemcpy_loop_outside: "i < d \<or> d + n \<le> i \<Longrightarrow> kmemcpy_loop m d s n i = m i"
  by (induction n) (auto simp: Let_def)

text \<open>Copying forward reads each source byte before it is overwritten as long as the destination
  does not start inside the rest of the source.\<close>

lemma kmemcpy_forward:
  assumes "d \<le> s \<or> s + n \<le> d"
  shows "kmemcpy m d s n = mem_write m d (mem_read m s n)"
  unfolding kmemcpy_def using assms
proof (induction n)
  case 0
  show ?case by (simp add: mem_read_def)
next
  case (Suc n)
  have src: "kmemcpy_loop m d s n (s + n) = m (s + n)"
    using Suc.prems by (intro kmemcpy_loop_outside) auto
  have "mem_read m s (Suc n) = mem_read m s n @ [m (s + n)]"
    by (simp add: mem_read_def)
  moreover have "kmemcpy_loop m d s n = mem_write m d (mem_read m s n)"
    using Suc.IH Suc.prems by auto
  ultimately show ?case using src by (simp add: Let_def mem_write_snoc)
qed

text \<open>When the destination starts \<open>k\<close> bytes inside the source the first \<open>k\<close> bytes repeat: the
  routine is \<open>memcpy\<close>, not \<open>memmove\<close>.\<close>

lemma kmemcpy_overlap_repeats:
  assumes "0 < k" "i < n"
  shows "kmemcpy m (s + k) s n (s + k + i) = m (s + i mod k)"
  unfolding kmemcpy_def using assms(2)
proof (induction n arbitrary: i)
  case 0
  then show ?case by simp
next
  case (Suc n)
  show ?case
  proof (cases "i < n")
    case True
    then show ?thesis using Suc.IH [OF True] by (simp add: Let_def)
  next
    case False
    then have i: "i = n" using Suc.prems by simp
    show ?thesis
    proof (cases "n < k")
      case True
      then have "kmemcpy_loop m (s + k) s n (s + n) = m (s + n)"
        by (intro kmemcpy_loop_outside) simp
      with i True show ?thesis by (simp add: Let_def)
    next
      case False
      then have "n - k < n" "s + n = s + k + (n - k)" using assms(1) Suc.prems i by auto
      then have "kmemcpy_loop m (s + k) s n (s + n) = m (s + (n - k) mod k)"
        using Suc.IH [of "n - k"] by simp
      with i False show ?thesis by (simp add: Let_def le_mod_geq)
    qed
  qed
qed

lemma kmemset_eq: "kmemset m s c n = mem_write m s (replicate n (ucast c))"
  unfolding kmemset_def
  by (induction n) (simp_all add: mem_write_snoc replicate_append_same [symmetric])

lemma kstrlen_from_found:
  "\<lbrakk>\<forall>i<n. len \<le> i \<longrightarrow> m (s + i) \<noteq> 0; m (s + n) = 0; len \<le> n\<rbrakk> \<Longrightarrow> kstrlen_from m s len = Some n"
proof (induction "n - len" arbitrary: len)
  case 0
  then show ?case by (simp add: kstrlen_from.simps)
next
  case (Suc k)
  then have "m (s + len) \<noteq> 0" "k = n - (len + 1)" "len + 1 \<le> n" by auto
  then show ?case using Suc by (simp add: kstrlen_from.simps [of m s len])
qed

lemma kstrlen_from_Some:
  assumes "kstrlen_from m s len = Some n"
  shows "len \<le> n \<and> m (s + n) = 0 \<and> (\<forall>i<n. len \<le> i \<longrightarrow> m (s + i) \<noteq> 0)"
proof (rule kstrlen_from.raw_induct
    [where P = "\<lambda>m s len n. len \<le> n \<and> m (s + n) = 0 \<and> (\<forall>i<n. len \<le> i \<longrightarrow> m (s + i) \<noteq> 0)",
      OF _ assms])
  fix f and m :: mem and s len n
  assume IH: "\<And>m s len n. f m s len = Some n \<Longrightarrow>
      len \<le> n \<and> m (s + n) = 0 \<and> (\<forall>i<n. len \<le> i \<longrightarrow> m (s + i) \<noteq> 0)"
    and eq: "(if m (s + len) \<noteq> 0 then f m s (len + 1) else Some len) = Some n"
  show "len \<le> n \<and> m (s + n) = 0 \<and> (\<forall>i<n. len \<le> i \<longrightarrow> m (s + i) \<noteq> 0)"
  proof (cases "m (s + len) \<noteq> 0")
    case True
    then have "len + 1 \<le> n \<and> m (s + n) = 0 \<and> (\<forall>i<n. len + 1 \<le> i \<longrightarrow> m (s + i) \<noteq> 0)"
      using IH eq by simp
    with True show ?thesis by (metis Suc_eq_plus1 Suc_leD not_less_eq_eq order_antisym)
  next
    case False
    with eq show ?thesis by auto
  qed
qed

lemma kstrlen_iff:
  "kstrlen m s = Some n \<longleftrightarrow> m (s + n) = 0 \<and> (\<forall>i<n. m (s + i) \<noteq> 0)"
  unfolding kstrlen_def using kstrlen_from_Some [of m s 0 n] kstrlen_from_found [of n 0 m s]
  by auto

section \<open>Properties\<close>

text \<open>C16: blocks handed out by one run of the arena for requests of at most \<open>2 ^ 62\<close> bytes never overlap, each
  starts on a 16 KiB boundary and ends before the arena does; requests of that size that failed in between
  change nothing of this.\<close>

theorem allocate_blocks_disjoint:
  assumes "arena_ok p" "list_all request_ok ns" "bs = fst (alloc_seq allocate p ns)"
    and "i < j" "j < length bs" "fst (bs ! i) \<noteq> 0" "fst (bs ! j) \<noteq> 0"
  shows "block_bytes (bs ! i) \<inter> block_bytes (bs ! j) = {} \<and>
         16384 dvd unat (fst (bs ! i)) \<and>
         unat (fst (bs ! i)) + unat (snd (bs ! i)) < unat (max_address p)"
proof -
  have "bs ! i \<in> set (fst (alloc_seq allocate p ns))" using assms(3-5) by simp
  then show ?thesis
    using pmm.alloc_seq_disjoint [OF assms] pmm.alloc_seq_above [OF assms(1,2) _ assms(6)]
    by blast
qed

lemma allocate_blocks_disjoint_witness:
  "let bs = fst (alloc_seq allocate (PhysicalMemory 0x2000000 0x40000000) [4096, 4096])
   in block_bytes (bs ! 0) \<inter> block_bytes (bs ! 1) = {}"
proof -
  let ?p = "PhysicalMemory 0x2000000 0x40000000"
  have bs: "fst (alloc_seq allocate ?p [4096, 4096]) = [(0x2000000, 4096), (0x2004000, 4096)]"
    by (simp add: PhysicalMemory_def allocate_def Let_def)
  have ok: "arena_ok ?p" "list_all request_ok [4096, 4096]"
    by (simp_all add: PhysicalMemory_def arena_ok_def align16k_def request_ok_def)
  show ?thesis
    unfolding Let_def
    using allocate_blocks_disjoint [OF ok refl, of 0 1] bs by simp
qed

text \<open>The arena's end check is on the wrapped sum, so a request close to \<open>2^64\<close> succeeds on the
  kernel's own arena and moves the allocation pointer back below the arena's start.\<close>

theorem allocate_wraps:
  "let p = PhysicalMemory 0x2000000 0x40000000; (a, q) = allocate p (- 16384)
   in a = 0x2000000 \<and> current_address q = 0x1FFC000"
  by (simp add: PhysicalMemory_def allocate_def Let_def)

text \<open>\<open>kmemcpy\<close> copies the source when the destination does not start inside the rest of it;
  started \<open>k\<close> bytes inside, it repeats the first \<open>k\<close> source bytes; outside the destination nothing
  changes.\<close>

theorem kmemcpy_copies_or_repeats:
  shows "(d \<le> s \<or> s + n \<le> d \<longrightarrow> kmemcpy m d s n = mem_write m d (mem_read m s n)) \<and>
    (0 < k \<and> i < n \<longrightarrow> kmemcpy m (s + k) s n (s + k + i) = m (s + i mod k)) \<and>
    (j < d \<or> d + n \<le> j \<longrightarrow> kmemcpy m d s n j = m j)"
  using kmemcpy_forward kmemcpy_overlap_repeats kmemcpy_loop_outside
  by (auto simp: kmemcpy_def)

lemma kmemcpy_copies_or_repeats_witness:
  "kmemcpy (\<lambda>i. word_of_nat i) 11 10 3 13 = 10"
  using kmemcpy_copies_or_repeats [of 11 10 3 "\<lambda>i. word_of_nat i" 1 2 0] by simp

end
