(* ===== verification/Manifold.thy ===== *)
theory Manifold
  imports Value128 PhysMem
begin

text \<open>
  \<open>SubstrateManifold\<close> of \<open>src/vdev/topology.hpp\<close>: a cache of 1024 blocks of 1024 atoms, looked up
  by linear search over the block map and replaced in the order of allocation. The pool is one
  array of \<open>1024 * 16384\<close> bytes, so a copy that runs past the end of its block runs into the next
  slot; past the end of the pool it is out of bounds (\<open>None\<close>). Memory the constructor does not
  initialise (the pool, the block map) is a parameter of the initial state.
\<close>

unbundle bit_operations_syntax

section \<open>State and operations\<close>

datatype block_state = EMPTY | RESIDENT | DIRTY

definition CACHE_POOL_SIZE :: nat where "CACHE_POOL_SIZE = 1024"
definition BLOCK_BYTES :: nat where "BLOCK_BYTES = 16384"
definition POOL_BYTES :: nat where "POOL_BYTES = 1024 * 16384"

record manifold =
  cache_pool_base :: u64
  cache_pool :: mem
  cache_state :: "nat \<Rightarrow> block_state"
  vblock_map :: "nat \<Rightarrow> u64"
  vblock_counter :: u32

text \<open>The constructor does not check the allocation. A null pool would be the first 16 MiB of memory, which the page
  tables map and the kernel itself is in; the model keeps the pool apart from all other memory, which is right
  when the allocation succeeds. For the kernel's own manifold that is shown with \<open>boot_reaches_menu\<close> of theory \<open>Kernel\<close>: its pool
  lies in the arena and overlaps nothing.\<close>

definition SubstrateManifold :: "phys_mem \<Rightarrow> mem \<Rightarrow> (nat \<Rightarrow> u64) \<Rightarrow> manifold \<times> phys_mem" where
  "SubstrateManifold g_pmm pool0 map0 =
    (let (base, g_pmm') = allocate g_pmm (word_of_nat POOL_BYTES)
     in (\<lparr>cache_pool_base = base, cache_pool = pool0, cache_state = (\<lambda>_. EMPTY),
          vblock_map = map0, vblock_counter = 0\<rparr>, g_pmm'))"

text \<open>The search loop of \<open>get_physical_block\<close>; the sentinel \<open>0xFFFFFFFF\<close> is \<open>None\<close>.\<close>

definition find_slot :: "manifold \<Rightarrow> u64 \<Rightarrow> nat option" where
  "find_slot s vb = List.find (\<lambda>i. cache_state s i \<noteq> EMPTY \<and> vblock_map s i = vb) [0..<CACHE_POOL_SIZE]"

definition victim_slot :: "manifold \<Rightarrow> nat" where
  "victim_slot s = unat (vblock_counter s) mod CACHE_POOL_SIZE"

definition get_physical_block :: "manifold \<Rightarrow> u64 \<Rightarrow> bool \<Rightarrow> nat option \<times> manifold" where
  "get_physical_block s vb create =
    (case find_slot s vb of
       Some i \<Rightarrow> (Some i, s)
     | None \<Rightarrow>
         if \<not> create then (None, s)
         else let victim = victim_slot s
              in (Some victim,
                  s\<lparr>vblock_map := (vblock_map s)(victim := vb),
                    cache_state := (cache_state s)(victim := RESIDENT),
                    vblock_counter := vblock_counter s + 1\<rparr>))"

definition vblock_of :: "u64 \<Rightarrow> u64" where
  "vblock_of vaddr = vaddr div (1024 * 16)"

definition entry_of :: "u64 \<Rightarrow> nat" where
  "entry_of vaddr = unat ((vaddr div 16) mod 1024)"

definition pool_offset :: "nat \<Rightarrow> nat \<Rightarrow> nat" where
  "pool_offset p e = p * BLOCK_BYTES + e * 16"

definition pool_entry :: "manifold \<Rightarrow> nat \<Rightarrow> nat \<Rightarrow> value128" where
  "pool_entry s p e = atom_of_bytes (mem_read (cache_pool s) (pool_offset p e) 16)"

definition holographic_fetch :: "manifold \<Rightarrow> u64 \<Rightarrow> value128" where
  "holographic_fetch s vaddr =
    (case fst (get_physical_block s (vblock_of vaddr) False) of
       None \<Rightarrow> val128 0 0
     | Some p \<Rightarrow> pool_entry s p (entry_of vaddr))"

definition materialize_range :: "manifold \<Rightarrow> u64 \<Rightarrow> u8 list \<Rightarrow> manifold option" where
  "materialize_range s vaddr data =
    (case get_physical_block s (vblock_of vaddr) True of
       (None, _) \<Rightarrow> None
     | (Some p, s') \<Rightarrow>
         let off = pool_offset p (entry_of vaddr)
         in if off + length data \<le> POOL_BYTES
            then Some (s'\<lparr>cache_pool := mem_write (cache_pool s') off data\<rparr>) else None)"

definition get_used_blocks :: "manifold \<Rightarrow> u64" where
  "get_used_blocks s = ucast (vblock_counter s)"

definition total_l2_blocks :: "manifold \<Rightarrow> u64" where
  "total_l2_blocks s = ucast (vblock_counter s)"

definition get_l2_count :: "manifold \<Rightarrow> u16 \<Rightarrow> u64" where
  "get_l2_count s slot = ucast (vblock_counter s)"

text \<open>\<open>read_slot\<close> gives the bytes it copied (their number is its result).\<close>

definition read_slot :: "manifold \<Rightarrow> u16 \<Rightarrow> nat \<Rightarrow> u8 list" where
  "read_slot s slot max_len =
    (let p = unat slot mod CACHE_POOL_SIZE
     in if cache_state s p = EMPTY then []
        else mem_read (cache_pool s) (pool_offset p 0) (if max_len < 16 then max_len else 16))"

definition write_slot :: "manifold \<Rightarrow> u16 \<Rightarrow> u8 list \<Rightarrow> nat \<times> manifold" where
  "write_slot s slot data =
    (let p = unat slot mod CACHE_POOL_SIZE;
         to_write = (if length data < 16 then length data else 16)
     in (to_write,
         s\<lparr>cache_state := (cache_state s)(p := RESIDENT),
           cache_pool := mem_write (cache_pool s) (pool_offset p 0) (take to_write data)\<rparr>))"

definition clear_slot :: "manifold \<Rightarrow> u16 \<Rightarrow> manifold" where
  "clear_slot s slot =
    (let p = unat slot mod CACHE_POOL_SIZE in s\<lparr>cache_state := (cache_state s)(p := EMPTY)\<rparr>)"

definition is_block_resident :: "manifold \<Rightarrow> u32 \<Rightarrow> bool" where
  "is_block_resident s block_idx =
    (if CACHE_POOL_SIZE \<le> unat block_idx then False
     else cache_state s (unat block_idx) = RESIDENT)"

text \<open>Operations of the class with an empty body.\<close>

definition manual_init :: "manifold \<Rightarrow> u32 \<Rightarrow> manifold" where
  "manual_init s ram_mb = s"

definition manifold_initialize :: "manifold \<Rightarrow> seed \<Rightarrow> manifold" where
  "manifold_initialize s sd = s"

definition manifold_save_image :: "manifold \<Rightarrow> cstr \<Rightarrow> bool" where
  "manifold_save_image s path = True"

definition manifold_load_image :: "manifold \<Rightarrow> cstr \<Rightarrow> seed \<Rightarrow> bool \<times> manifold" where
  "manifold_load_image s path sd = (True, s)"

definition pump_dma_queue :: "manifold \<Rightarrow> manifold" where
  "pump_dma_queue s = s"

section \<open>Lookup\<close>

lemma find_upt_Some_iff:
  "List.find P [0..<n] = Some i \<longleftrightarrow> i < n \<and> P i \<and> (\<forall>j<i. \<not> P j)"
  by (auto simp: find_Some_iff)

lemma find_upt_None_iff: "List.find P [0..<n] = None \<longleftrightarrow> (\<forall>i<n. \<not> P i)"
  by (auto simp: find_None_iff)

lemma find_slot_Some_iff:
  "find_slot s vb = Some i \<longleftrightarrow>
     i < 1024 \<and> cache_state s i \<noteq> EMPTY \<and> vblock_map s i = vb \<and>
     (\<forall>j<i. cache_state s j = EMPTY \<or> vblock_map s j \<noteq> vb)"
  by (auto simp: find_slot_def CACHE_POOL_SIZE_def find_upt_Some_iff)

lemma find_slot_None_iff:
  "find_slot s vb = None \<longleftrightarrow> (\<forall>i<1024. cache_state s i = EMPTY \<or> vblock_map s i \<noteq> vb)"
  by (auto simp: find_slot_def CACHE_POOL_SIZE_def find_upt_None_iff)

lemma find_slot_less: "find_slot s vb = Some i \<Longrightarrow> i < 1024"
  by (simp add: find_slot_Some_iff)

lemma victim_slot_less: "victim_slot s < 1024"
  by (simp add: victim_slot_def CACHE_POOL_SIZE_def)

lemma find_slot_cache_pool [simp]: "find_slot (s\<lparr>cache_pool := c\<rparr>) vb = find_slot s vb"
  by (simp add: find_slot_def)

lemma get_physical_block_lookup: "get_physical_block s vb False = (find_slot s vb, s)"
  by (simp add: get_physical_block_def split: option.split)

lemma fetch_find_slot:
  "holographic_fetch s vaddr =
     (case find_slot s (vblock_of vaddr) of None \<Rightarrow> val128 0 0
      | Some p \<Rightarrow> pool_entry s p (entry_of vaddr))"
  by (simp add: holographic_fetch_def get_physical_block_lookup)

text \<open>The slot a block has after \<open>get_physical_block(vb, true)\<close>, and the state it leaves.\<close>

definition claim_slot :: "manifold \<Rightarrow> u64 \<Rightarrow> nat" where
  "claim_slot s vb = (case find_slot s vb of Some i \<Rightarrow> i | None \<Rightarrow> victim_slot s)"

definition claim :: "manifold \<Rightarrow> u64 \<Rightarrow> manifold" where
  "claim s vb = snd (get_physical_block s vb True)"

lemma get_physical_block_create: "get_physical_block s vb True = (Some (claim_slot s vb), claim s vb)"
  by (simp add: get_physical_block_def claim_slot_def claim_def Let_def split: option.split)

lemma claim_slot_hit: "find_slot s vb = Some p \<Longrightarrow> claim_slot s vb = p"
  by (simp add: claim_slot_def)

lemma claim_slot_miss: "find_slot s vb = None \<Longrightarrow> claim_slot s vb = victim_slot s"
  by (simp add: claim_slot_def)

lemma claim_slot_less: "claim_slot s vb < 1024"
  by (auto simp: claim_slot_def victim_slot_less dest: find_slot_less split: option.split)

lemma claim_hit: "find_slot s vb = Some p \<Longrightarrow> claim s vb = s"
  by (simp add: claim_def get_physical_block_def)

lemma claim_miss:
  "find_slot s vb = None \<Longrightarrow> claim s vb =
     s\<lparr>vblock_map := (vblock_map s)(victim_slot s := vb),
       cache_state := (cache_state s)(victim_slot s := RESIDENT),
       vblock_counter := vblock_counter s + 1\<rparr>"
  by (simp add: claim_def get_physical_block_def Let_def)

lemma cache_pool_claim [simp]: "cache_pool (claim s vb) = cache_pool s"
  by (cases "find_slot s vb") (simp_all add: claim_hit claim_miss)

lemma find_slot_claim: "find_slot (claim s vb) vb = Some (claim_slot s vb)"
proof (cases "find_slot s vb")
  case None
  then show ?thesis
    using victim_slot_less [of s]
    by (auto simp: claim_slot_miss claim_miss find_slot_Some_iff find_slot_None_iff)
next
  case (Some p)
  then show ?thesis by (simp add: claim_slot_hit claim_hit)
qed

text \<open>Another block keeps its slot unless it was in the slot just reused.\<close>

lemma find_slot_claim_other:
  assumes "find_slot s wb = Some q" "wb \<noteq> vb" "find_slot s vb = None \<longrightarrow> q \<noteq> victim_slot s"
  shows "find_slot (claim s vb) wb = Some q"
proof (cases "find_slot s vb")
  case None
  with assms show ?thesis by (auto simp: claim_miss find_slot_Some_iff)
next
  case (Some p)
  with assms show ?thesis by (simp add: claim_hit)
qed

section \<open>Addresses\<close>

lemma entry_of_less: "entry_of vaddr < 1024"
proof -
  have "unat ((vaddr div 16) mod 1024) = unat (vaddr div 16) mod 1024"
    by (simp add: unat_mod)
  then show ?thesis by (simp add: entry_of_def)
qed

lemma vblock_of_unat: "unat (vblock_of a) = unat a div 16384"
  by (simp add: vblock_of_def unat_div)

lemma entry_of_unat: "entry_of a = unat a div 16 mod 1024"
  by (simp add: entry_of_def unat_div unat_mod)

text \<open>The index of an atom is its block and its place in the block.\<close>

lemma div16_div1024: "(x :: nat) div 16 div 1024 = x div 16384"
  by (simp add: div_mult2_eq [symmetric])

lemma atom_index: "unat a div 16 = unat (vblock_of a) * 1024 + entry_of a"
  unfolding vblock_of_unat entry_of_unat div16_div1024 [symmetric] by (simp only: div_mult_mod_eq)

lemma same_atom_iff:
  "vblock_of a = vblock_of b \<and> entry_of a = entry_of b \<longleftrightarrow> unat a div 16 = unat b div 16"
proof
  assume "vblock_of a = vblock_of b \<and> entry_of a = entry_of b"
  then show "unat a div 16 = unat b div 16" by (simp add: atom_index)
next
  assume h: "unat a div 16 = unat b div 16"
  then have "unat (vblock_of a) = unat (vblock_of b)"
    unfolding vblock_of_unat div16_div1024 [symmetric] by simp
  with h show "vblock_of a = vblock_of b \<and> entry_of a = entry_of b"
    by (simp add: word_unat_eq_iff entry_of_unat)
qed

lemma pool_offset_bounds:
  assumes "p < 1024" "e < 1024" "e * 16 + n \<le> BLOCK_BYTES"
  shows "pool_offset p e + n \<le> POOL_BYTES"
  using assms by (simp add: pool_offset_def POOL_BYTES_def BLOCK_BYTES_def)

lemma pool_offset_disjoint:
  assumes "(p, e) \<noteq> (q, f)" "e < 1024" "f < 1024"
  shows "pool_offset p e + 16 \<le> pool_offset q f \<or> pool_offset q f + 16 \<le> pool_offset p e"
proof (cases "p = q")
  case True
  with assms show ?thesis by (auto simp: pool_offset_def)
next
  case False
  then have "p + 1 \<le> q \<or> q + 1 \<le> p" by auto
  then have "(p + 1) * 16384 \<le> q * 16384 \<or> (q + 1) * 16384 \<le> p * 16384"
    by (metis mult_le_mono1)
  with assms show ?thesis by (auto simp: pool_offset_def BLOCK_BYTES_def)
qed

section \<open>Materialising a range\<close>

text \<open>A range stays in its block when it ends before the block does.\<close>

definition in_block :: "u64 \<Rightarrow> u8 list \<Rightarrow> bool" where
  "in_block vaddr data \<longleftrightarrow> entry_of vaddr * 16 + length data \<le> BLOCK_BYTES"

lemma materialize_eq:
  "materialize_range s vaddr data =
     (let off = pool_offset (claim_slot s (vblock_of vaddr)) (entry_of vaddr)
      in if off + length data \<le> POOL_BYTES
         then Some ((claim s (vblock_of vaddr))\<lparr>cache_pool := mem_write (cache_pool s) off data\<rparr>)
         else None)"
  by (simp add: materialize_range_def get_physical_block_create Let_def)

lemma materialize_in_block:
  assumes "in_block vaddr data"
  shows "materialize_range s vaddr data =
    Some ((claim s (vblock_of vaddr))\<lparr>cache_pool :=
      mem_write (cache_pool s) (pool_offset (claim_slot s (vblock_of vaddr)) (entry_of vaddr)) data\<rparr>)"
  using pool_offset_bounds [OF claim_slot_less entry_of_less] assms
  by (simp add: materialize_eq in_block_def Let_def)

lemma in_block_atom: "in_block vaddr (atom_bytes v)"
  using entry_of_less [of vaddr] by (simp add: in_block_def BLOCK_BYTES_def)

text \<open>The bytes written are read back, atom by atom.\<close>

lemma fetch_materialized:
  assumes "in_block vaddr data" "materialize_range s vaddr data = Some s'"
    and "vblock_of b = vblock_of vaddr" "entry_of b = entry_of vaddr + k" "16 * k + 16 \<le> length data"
  shows "holographic_fetch s' b = atom_of_bytes (take 16 (drop (16 * k) data))"
proof -
  let ?p = "claim_slot s (vblock_of vaddr)"
  have s': "s' = (claim s (vblock_of vaddr))\<lparr>cache_pool :=
      mem_write (cache_pool s) (pool_offset ?p (entry_of vaddr)) data\<rparr>"
    using assms(1,2) by (simp add: materialize_in_block)
  have "find_slot s' (vblock_of b) = Some ?p"
    unfolding s' using assms(3) by (simp add: find_slot_claim)
  moreover have "pool_offset ?p (entry_of b) = pool_offset ?p (entry_of vaddr) + 16 * k"
    using assms(4) by (simp add: pool_offset_def)
  ultimately show ?thesis
    using assms(5) by (simp add: fetch_find_slot pool_entry_def s' mem_read_write_sub)
qed

text \<open>Whatever else was readable stays as it was, unless its block was the one evicted.\<close>

lemma fetch_materialize_other:
  assumes "in_block vaddr data" "materialize_range s vaddr data = Some s'"
    and "find_slot s (vblock_of b) = Some q"
    and "vblock_of b \<noteq> vblock_of vaddr"
    and "find_slot s (vblock_of vaddr) = None \<longrightarrow> q \<noteq> victim_slot s"
  shows "holographic_fetch s' b = holographic_fetch s b"
proof -
  let ?p = "claim_slot s (vblock_of vaddr)" and ?e = "entry_of vaddr"
  have s': "s' = (claim s (vblock_of vaddr))\<lparr>cache_pool :=
      mem_write (cache_pool s) (pool_offset ?p ?e) data\<rparr>"
    using assms(1,2) by (simp add: materialize_in_block)
  have q: "find_slot s' (vblock_of b) = Some q"
    unfolding s' using find_slot_claim_other [OF assms(3,4,5)] by simp
  have "q \<noteq> ?p"
  proof (cases "find_slot s (vblock_of vaddr)")
    case None
    then show ?thesis using assms(5) by (simp add: claim_slot_miss)
  next
    case (Some p)
    then show ?thesis
      using assms(3,4) by (auto simp: claim_slot_hit find_slot_Some_iff)
  qed
  then consider "q < ?p" | "?p < q" by linarith
  then have "pool_offset q (entry_of b) + 16 \<le> pool_offset ?p ?e \<or>
      pool_offset ?p ?e + length data \<le> pool_offset q (entry_of b)"
  proof cases
    case 1
    then have "(q + 1) * 16384 \<le> ?p * 16384" by (metis Suc_eq_plus1 Suc_leI mult_le_mono1)
    then show ?thesis
      using entry_of_less [of b] by (simp add: pool_offset_def BLOCK_BYTES_def)
  next
    case 2
    then have "(?p + 1) * 16384 \<le> q * 16384" by (metis Suc_eq_plus1 Suc_leI mult_le_mono1)
    then show ?thesis
      using assms(1) by (simp add: pool_offset_def BLOCK_BYTES_def in_block_def)
  qed
  then show ?thesis
    using q assms(3)
    by (simp add: fetch_find_slot pool_entry_def s' mem_read_write_disjoint)
qed

text \<open>The same for the other atoms of the block itself, when it was already in the cache.\<close>

lemma fetch_materialize_same_block:
  assumes "in_block vaddr data" "materialize_range s vaddr data = Some s'"
    and "find_slot s (vblock_of b) = Some q" "vblock_of b = vblock_of vaddr"
    and "entry_of b < entry_of vaddr \<or> entry_of vaddr * 16 + length data \<le> entry_of b * 16"
  shows "holographic_fetch s' b = holographic_fetch s b"
proof -
  let ?e = "entry_of vaddr"
  have slot: "claim_slot s (vblock_of vaddr) = q" using assms(3,4) by (simp add: claim_slot_hit)
  have s': "s' = s\<lparr>cache_pool := mem_write (cache_pool s) (pool_offset q ?e) data\<rparr>"
    using assms by (simp add: materialize_in_block slot claim_hit)
  have "pool_offset q (entry_of b) + 16 \<le> pool_offset q ?e \<or>
      pool_offset q ?e + length data \<le> pool_offset q (entry_of b)"
    using assms(5) by (auto simp: pool_offset_def)
  then show ?thesis
    using assms(3) by (simp add: fetch_find_slot pool_entry_def s' mem_read_write_disjoint)
qed

section \<open>The slot interface\<close>

lemma read_slot_write_slot:
  "read_slot (snd (write_slot s slot data)) slot 16 =
     take (fst (write_slot s slot data)) data @
     drop (fst (write_slot s slot data))
       (mem_read (cache_pool s) (pool_offset (unat slot mod 1024) 0) 16)"
  by (rule nth_equalityI)
    (auto simp: read_slot_def write_slot_def Let_def CACHE_POOL_SIZE_def mem_write_def nth_append)

section \<open>Properties\<close>

text \<open>A block that was not in the cache takes over its slot without clearing it: right after the
  write that brought it in, every atom outside the written range still reads as the evicted block's.\<close>

theorem fetch_unwritten_leaks_evicted:
  assumes "in_block a data" "materialize_range s a data = Some s'"
    and "find_slot s (vblock_of a) = None" "vblock_of b = vblock_of a"
    and "entry_of b < entry_of a \<or> entry_of a * 16 + length data \<le> entry_of b * 16"
  shows "holographic_fetch s' b = pool_entry s (victim_slot s) (entry_of b)"
proof -
  let ?v = "victim_slot s"
  have s': "s' = (claim s (vblock_of a))\<lparr>cache_pool :=
      mem_write (cache_pool s) (pool_offset ?v (entry_of a)) data\<rparr>"
    using assms(1-3) by (simp add: materialize_in_block claim_slot_miss)
  have "find_slot s' (vblock_of b) = Some ?v"
    unfolding s' using find_slot_claim [of s "vblock_of a"] assms(3,4) by (simp add: claim_slot_miss)
  moreover have "pool_offset ?v (entry_of b) + 16 \<le> pool_offset ?v (entry_of a) \<or>
      pool_offset ?v (entry_of a) + length data \<le> pool_offset ?v (entry_of b)"
    using assms(5) by (auto simp: pool_offset_def)
  ultimately show ?thesis
    by (simp add: fetch_find_slot pool_entry_def s' mem_read_write_disjoint)
qed

lemma fetch_unwritten_leaks_evicted_witness:
  "let s = fst (SubstrateManifold (PhysicalMemory 0x2000000 0x40000000) (\<lambda>_. 0xAA) (\<lambda>_. 0));
       s' = the (materialize_range s 0x10 (atom_bytes (val128 1 2)))
   in holographic_fetch s' 0 = val128 0xAAAAAAAAAAAAAAAA 0xAAAAAAAAAAAAAAAA"
proof -
  let ?s = "fst (SubstrateManifold (PhysicalMemory 0x2000000 0x40000000) (\<lambda>_. 0xAA) (\<lambda>_. 0))"
  have s: "cache_state ?s = (\<lambda>_. EMPTY)" "vblock_counter ?s = 0" "cache_pool ?s = (\<lambda>_. 0xAA)"
    by (simp_all add: SubstrateManifold_def split_def Let_def)
  have none: "find_slot ?s vb = None" for vb
    using s by (simp add: find_slot_None_iff)
  have e: "entry_of 0 = 0" "entry_of 0x10 = 1" "vblock_of 0 = vblock_of 0x10"
    by (simp_all add: entry_of_unat vblock_of_def)
  obtain s' where s': "materialize_range ?s 0x10 (atom_bytes (val128 1 2)) = Some s'"
    using materialize_in_block [OF in_block_atom] by blast
  have "holographic_fetch s' 0 = pool_entry ?s (victim_slot ?s) (entry_of 0)"
    by (rule fetch_unwritten_leaks_evicted [OF in_block_atom s' none e(3)]) (simp add: e)
  moreover have "mem_read (cache_pool ?s) k 16 = replicate 16 0xAA" for k
    by (rule nth_equalityI) (simp_all add: s)
  moreover have "atom_of_bytes (replicate 16 0xAA) = val128 0xAAAAAAAAAAAAAAAA 0xAAAAAAAAAAAAAAAA"
    by code_simp
  ultimately show ?thesis
    unfolding Let_def s' by (simp add: pool_entry_def)
qed

end
