(* ===== verification/ManifoldFifo.thy ===== *)
theory ManifoldFifo
  imports Manifold
begin

text \<open>
  What the block cache promises. The abstract cache is a queue of at most 1024 block numbers, newest
  first: a materialised block that is not in the queue enters at the front and pushes the oldest one
  out. \<open>fifo_rel\<close> ties the slots, the block map and the wrapping 32-bit counter to that queue, and
  every \<open>materialize_range\<close> simulates one \<open>fifo_touch\<close>. On top of it stands the memory contract:
  while no more than 1024 different blocks are touched, a fetch returns the last value written.
\<close>

unbundle bit_operations_syntax

section \<open>The queue of resident blocks\<close>

definition fifo_touch :: "u64 list \<Rightarrow> u64 \<Rightarrow> u64 list" where
  "fifo_touch q vb = (if vb \<in> set q then q else take 1024 (vb # q))"

text \<open>The slot of the \<open>j\<close>-th newest block.\<close>

definition fifo_slot :: "u32 \<Rightarrow> nat \<Rightarrow> nat" where
  "fifo_slot c j = (unat c + 1023 - j) mod 1024"

definition fifo_rel :: "manifold \<Rightarrow> u64 list \<Rightarrow> bool" where
  "fifo_rel s q \<longleftrightarrow> length q \<le> 1024 \<and> distinct q \<and>
     (length q < 1024 \<longrightarrow> unat (vblock_counter s) = length q) \<and>
     (\<forall>i<1024. cache_state s i \<noteq> EMPTY \<longleftrightarrow> (\<exists>j<length q. i = fifo_slot (vblock_counter s) j)) \<and>
     (\<forall>j<length q. vblock_map s (fifo_slot (vblock_counter s) j) = q ! j)"

lemma fifo_slot_less: "fifo_slot c j < 1024"
  by (simp add: fifo_slot_def)

lemma mod_1024_diff_inj:
  assumes eq: "((n :: nat) + 1023 - j) mod 1024 = (n + 1023 - k) mod 1024" and "j < 1024" "k < 1024"
  shows "j = k"
proof -
  have "x = y" if "(n + 1023 - x) mod 1024 = (n + 1023 - y) mod 1024" "x \<le> y" "y < 1024" for x y
  proof -
    have "n + 1023 - y \<le> n + 1023 - x" using that by simp
    then have "1024 dvd (n + 1023 - x) - (n + 1023 - y)" using that(1) by (simp add: mod_eq_dvd_iff_nat)
    moreover have "(n + 1023 - x) - (n + 1023 - y) = y - x" using that by simp
    ultimately show ?thesis using that by (auto dest: dvd_imp_le)
  qed
  from this [of j k] this [of k j] show ?thesis using assms by (metis nat_le_linear)
qed

lemma fifo_slot_inj: "fifo_slot c j = fifo_slot c k \<Longrightarrow> j < 1024 \<Longrightarrow> k < 1024 \<Longrightarrow> j = k"
  unfolding fifo_slot_def by (rule mod_1024_diff_inj)

lemma unat_Suc_mod: "unat ((c :: u32) + 1) mod 1024 = (unat c + 1) mod 1024"
proof -
  have "unat (c + 1) = (unat c + 1) mod 2 ^ 32" by (simp add: unat_word_ariths)
  then show ?thesis by (simp add: mod_mod_cancel)
qed

lemma mod_shift: "(a :: nat) mod 1024 = b mod 1024 \<Longrightarrow> (a + k) mod 1024 = (b + k) mod 1024"
  by (metis mod_add_left_eq)

lemma fifo_slot_Suc:
  assumes "j < 1024"
  shows "fifo_slot (c + 1) j = (unat c + 1024 - j) mod 1024"
proof -
  have "(unat (c + 1) + (1023 - j)) mod 1024 = (unat c + 1 + (1023 - j)) mod 1024"
    by (rule mod_shift [OF unat_Suc_mod])
  moreover have "unat (c + 1) + (1023 - j) = unat (c + 1) + 1023 - j"
    "unat c + 1 + (1023 - j) = unat c + 1024 - j" using assms by simp_all
  ultimately show ?thesis by (simp only: fifo_slot_def)
qed

lemma fifo_slot_Suc_0: "fifo_slot (c + 1) 0 = unat c mod 1024"
  by (simp add: fifo_slot_Suc)

lemma fifo_slot_Suc_Suc: "j < 1023 \<Longrightarrow> fifo_slot (c + 1) (Suc j) = fifo_slot c j"
  by (simp add: fifo_slot_Suc) (simp add: fifo_slot_def add.commute)

lemma fifo_find_slot:
  assumes "fifo_rel s q"
  shows "find_slot s vb = Some p \<longleftrightarrow>
    (\<exists>j<length q. p = fifo_slot (vblock_counter s) j \<and> q ! j = vb)"
proof
  assume "find_slot s vb = Some p"
  then have "p < 1024" "cache_state s p \<noteq> EMPTY" "vblock_map s p = vb"
    by (simp_all add: find_slot_Some_iff)
  then show "\<exists>j<length q. p = fifo_slot (vblock_counter s) j \<and> q ! j = vb"
    using assms by (auto simp: fifo_rel_def)
next
  assume "\<exists>j<length q. p = fifo_slot (vblock_counter s) j \<and> q ! j = vb"
  then obtain j where j: "j < length q" "p = fifo_slot (vblock_counter s) j" "q ! j = vb" by auto
  have "cache_state s i = EMPTY \<or> vblock_map s i \<noteq> vb" if "i < p" for i
  proof (rule ccontr)
    assume "\<not> ?thesis"
    moreover have "i < 1024" using that j fifo_slot_less by (metis less_trans)
    ultimately obtain k where "k < length q" "i = fifo_slot (vblock_counter s) k" "q ! k = vb"
      using assms by (auto simp: fifo_rel_def)
    then show False using j assms that by (auto simp: fifo_rel_def nth_eq_iff_index_eq)
  qed
  then show "find_slot s vb = Some p"
    using assms j fifo_slot_less by (auto simp: find_slot_Some_iff fifo_rel_def)
qed

lemma fifo_find_slot_None: "fifo_rel s q \<Longrightarrow> find_slot s vb = None \<longleftrightarrow> vb \<notin> set q"
  using fifo_find_slot [of s q vb]
  by (cases "find_slot s vb") (auto simp: in_set_conv_nth)

lemma fifo_rel_cache_pool [simp]: "fifo_rel (s\<lparr>cache_pool := m\<rparr>) q = fifo_rel s q"
  by (simp add: fifo_rel_def)

text \<open>Claiming a missing block: it takes the front, everything shifts by one, the oldest leaves when
  the queue was full.\<close>

text \<open>A new block at the front of the queue: the slots of the others are those they had, one place further.\<close>

lemma fifo_slot_wraps: "fifo_slot c 1023 = fifo_slot (c + 1) 0"
  by (simp only: fifo_slot_Suc_0) (simp add: fifo_slot_def)

lemma fifo_slots_shift:
  assumes "length q \<le> 1024" "i \<noteq> fifo_slot (c + 1) 0"
  shows "(\<exists>j < length (take 1024 (vb # q)). i = fifo_slot (c + 1) j) \<longleftrightarrow> (\<exists>j < length q. i = fifo_slot c j)"
proof
  assume "\<exists>j < length (take 1024 (vb # q)). i = fifo_slot (c + 1) j"
  then obtain j where j: "j < length (take 1024 (vb # q))" "i = fifo_slot (c + 1) j" by auto
  with assms(2) obtain k where "j = Suc k" by (cases j) auto
  with j show "\<exists>j < length q. i = fifo_slot c j" by (intro exI [of _ k]) (simp add: fifo_slot_Suc_Suc)
next
  assume "\<exists>j < length q. i = fifo_slot c j"
  then obtain j where j: "j < length q" "i = fifo_slot c j" by auto
  have "j \<noteq> 1023" using assms(2) fifo_slot_wraps j(2) by auto
  then have "j < 1023" using j(1) assms(1) by simp
  then show "\<exists>j < length (take 1024 (vb # q)). i = fifo_slot (c + 1) j"
    using j by (intro exI [of _ "Suc j"]) (simp add: fifo_slot_Suc_Suc)
qed

lemma fifo_rel_claim_miss:
  assumes rel: "fifo_rel s q" and miss: "vb \<notin> set q"
  shows "fifo_rel (claim s vb) (take 1024 (vb # q))"
proof -
  let ?c = "vblock_counter s" and ?q = "take 1024 (vb # q)"
  let ?v = "victim_slot s"
  have "find_slot s vb = None" using fifo_find_slot_None [OF rel] miss by simp
  note cl = claim_miss [OF this]
  have v: "?v = fifo_slot (?c + 1) 0" by (simp add: victim_slot_def CACHE_POOL_SIZE_def fifo_slot_Suc_0)
  have len: "length q \<le> 1024" and dist: "distinct q" using rel by (simp_all add: fifo_rel_def)
  have counter: "length ?q < 1024 \<longrightarrow> unat (?c + 1) = length ?q"
  proof
    assume "length ?q < 1024"
    then have "length q < 1023" by simp
    then have "unat ?c = length q" using rel by (simp add: fifo_rel_def)
    then show "unat (?c + 1) = length ?q"
      using \<open>length q < 1023\<close> by (simp add: unat_word_ariths)
  qed
  have states: "(if i = ?v then RESIDENT else cache_state s i) \<noteq> EMPTY \<longleftrightarrow>
      (\<exists>j<length ?q. i = fifo_slot (?c + 1) j)" if i: "i < 1024" for i
  proof (cases "i = ?v")
    case True
    then show ?thesis using v by (auto intro!: exI [of _ 0])
  next
    case False
    then show ?thesis using rel i fifo_slots_shift [OF len, of i ?c vb] v by (simp add: fifo_rel_def)
  qed
  have maps: "(if fifo_slot (?c + 1) j = ?v then vb else vblock_map s (fifo_slot (?c + 1) j)) = ?q ! j"
    if j: "j < length ?q" for j
  proof (cases j)
    case 0
    then show ?thesis using v by simp
  next
    case (Suc k)
    then have k: "k < length q" "k < 1023" using j by simp_all
    have "fifo_slot (?c + 1) (Suc k) \<noteq> ?v" using fifo_slot_inj [of "?c + 1" 0 "Suc k"] k(2) v by auto
    then show ?thesis using Suc k rel by (simp add: fifo_slot_Suc_Suc fifo_rel_def)
  qed
  have "distinct ?q" using dist miss by (metis distinct.simps(2) distinct_take)
  then show ?thesis
    using counter states maps by (simp add: fifo_rel_def cl)
qed

lemma fifo_rel_claim:
  assumes "fifo_rel s q"
  shows "fifo_rel (claim s vb) (fifo_touch q vb)"
proof (cases "vb \<in> set q")
  case True
  then obtain p where "find_slot s vb = Some p"
    using fifo_find_slot_None [OF assms] by (cases "find_slot s vb") auto
  with True show ?thesis using assms by (simp add: claim_hit fifo_touch_def)
next
  case False
  then show ?thesis using fifo_rel_claim_miss [OF assms] by (simp add: fifo_touch_def)
qed

lemma fifo_rel_materialize:
  assumes "fifo_rel s q" "materialize_range s a data = Some s'"
  shows "fifo_rel s' (fifo_touch q (vblock_of a))"
proof -
  obtain m where "s' = (claim s (vblock_of a))\<lparr>cache_pool := m\<rparr>"
    using assms(2) by (auto simp: materialize_eq Let_def split: if_splits)
  then show ?thesis using fifo_rel_claim [OF assms(1)] by simp
qed

lemma fifo_rel_fresh: "fifo_rel (fst (SubstrateManifold g pool0 map0)) []"
  by (simp add: fifo_rel_def SubstrateManifold_def split_def Let_def)

lemma length_fifo_touch: "length q \<le> 1024 \<Longrightarrow> length (fifo_touch q vb) \<le> 1024"
  by (simp add: fifo_touch_def)

section \<open>The memory contract\<close>

text \<open>Atoms by index; a write of whole atoms stores them from the index of its address on.\<close>

type_synonym atom_store = "nat \<rightharpoonup> value128"

definition store_write :: "atom_store \<Rightarrow> u64 \<Rightarrow> u8 list \<Rightarrow> atom_store" where
  "store_write m a data = (\<lambda>i.
     if unat a div 16 \<le> i \<and> i < unat a div 16 + length data div 16
     then Some (atom_of_bytes (take 16 (drop (16 * (i - unat a div 16)) data))) else m i)"

fun store_after :: "atom_store \<Rightarrow> (u64 \<times> u8 list) list \<Rightarrow> atom_store" where
  "store_after m [] = m"
| "store_after m ((a, data) # ops) = store_after (store_write m a data) ops"

fun materialize_all :: "manifold \<Rightarrow> (u64 \<times> u8 list) list \<Rightarrow> manifold option" where
  "materialize_all s [] = Some s"
| "materialize_all s ((a, data) # ops) =
     (case materialize_range s a data of None \<Rightarrow> None | Some s' \<Rightarrow> materialize_all s' ops)"

definition write_ok :: "u64 \<times> u8 list \<Rightarrow> bool" where
  "write_ok op \<longleftrightarrow> in_block (fst op) (snd op) \<and> 16 dvd length (snd op)"

definition holds_store :: "manifold \<Rightarrow> u64 list \<Rightarrow> atom_store \<Rightarrow> bool" where
  "holds_store s q m \<longleftrightarrow> fifo_rel s q \<and>
     (\<forall>(b :: u64) v. m (unat b div 16) = Some v \<longrightarrow> vblock_of b \<in> set q \<and> holographic_fetch s b = v)"

lemma holds_store_empty:
  "holds_store (fst (SubstrateManifold g pool0 map0)) [] Map.empty"
  by (simp add: holds_store_def fifo_rel_fresh)

lemma set_fifo_touch: "length q < 1024 \<or> vb \<in> set q \<Longrightarrow> set (fifo_touch q vb) = insert vb (set q)"
  by (auto simp: fifo_touch_def)

lemma victim_free:
  assumes "fifo_rel s q" "length q < 1024" "find_slot s vb = Some p"
  shows "p \<noteq> victim_slot s"
proof
  assume p: "p = victim_slot s"
  let ?c = "vblock_counter s"
  obtain j where j: "j < length q" "p = fifo_slot ?c j" using assms by (auto simp: fifo_find_slot)
  have "unat ?c = length q" using assms(1,2) by (simp add: fifo_rel_def)
  moreover have "victim_slot s = fifo_slot ?c 1023"
    by (simp add: fifo_slot_def victim_slot_def CACHE_POOL_SIZE_def)
  ultimately have "j = 1023" using fifo_slot_inj [of ?c j 1023] j p assms(2) by simp
  with j assms(2) show False by simp
qed

text \<open>An atom inside a written range lies in the range's block.\<close>

lemma in_range_same_block:
  assumes "in_block a data" "unat a div 16 \<le> unat b div 16"
    "unat b div 16 < unat a div 16 + length data div 16"
  shows "vblock_of b = vblock_of a \<and> entry_of b = entry_of a + (unat b div 16 - unat a div 16)"
proof -
  define r where "r = entry_of a + (unat b div 16 - unat a div 16)"
  have "r < 1024" using assms by (simp add: in_block_def BLOCK_BYTES_def r_def)
  moreover have eq: "unat b div 16 = unat (vblock_of a) * 1024 + r"
    using assms(2) by (simp add: atom_index r_def)
  ultimately have "unat b div 16 div 1024 = unat (vblock_of a)" "unat b div 16 mod 1024 = r"
    by simp_all
  then show ?thesis
    by (simp add: div16_div1024 vblock_of_unat [symmetric] entry_of_unat [symmetric]
        word_unat_eq_iff r_def)
qed

lemma fetch_untouched:
  assumes h: "holds_store s q m" and ok: "write_ok (a, data)"
    and s': "materialize_range s a data = Some s'"
    and room: "length q < 1024 \<or> vblock_of a \<in> set q"
    and mb: "m (unat b div 16) = Some v"
    and out: "\<not> (unat a div 16 \<le> unat b div 16 \<and> unat b div 16 < unat a div 16 + length data div 16)"
  shows "holographic_fetch s' b = v"
proof -
  have rel: "fifo_rel s q" and f: "holographic_fetch s b = v" and bq: "vblock_of b \<in> set q"
    using h mb by (auto simp: holds_store_def)
  have ib: "in_block a data" and dv: "16 dvd length data" using ok by (simp_all add: write_ok_def)
  obtain n where n: "length data = 16 * n" using dv by (elim dvdE)
  obtain p where p: "find_slot s (vblock_of b) = Some p"
    using bq fifo_find_slot_None [OF rel] by (cases "find_slot s (vblock_of b)") auto
  show ?thesis
  proof (cases "vblock_of b = vblock_of a")
    case True
    then have "entry_of b < entry_of a \<or> entry_of a * 16 + length data \<le> entry_of b * 16"
      using out n by (simp add: atom_index) linarith
    then show ?thesis using fetch_materialize_same_block [OF ib s' p True] f by simp
  next
    case other: False
    have "p \<noteq> victim_slot s" if "find_slot s (vblock_of a) = None"
      using victim_free [OF rel _ p] room that fifo_find_slot_None [OF rel] by auto
    then show ?thesis using fetch_materialize_other [OF ib s' p other] f by simp
  qed
qed

lemma fetch_stored:
  assumes ok: "write_ok (a, data)" and s': "materialize_range s a data = Some s'"
    and inside: "unat a div 16 \<le> unat b div 16" "unat b div 16 < unat a div 16 + length data div 16"
  shows "holographic_fetch s' b = atom_of_bytes (take 16 (drop (16 * (unat b div 16 - unat a div 16)) data))"
proof -
  let ?k = "unat b div 16 - unat a div 16"
  have ib: "in_block a data" and dv: "16 dvd length data" using ok by (simp_all add: write_ok_def)
  obtain n where n: "length data = 16 * n" using dv by (elim dvdE)
  then have "Suc ?k \<le> n" using inside by (simp add: less_diff_conv2 Suc_le_eq)
  then have "16 * Suc ?k \<le> 16 * n" by (rule mult_le_mono2)
  then have len: "16 * ?k + 16 \<le> length data" using n by simp
  have blk: "vblock_of b = vblock_of a" "entry_of b = entry_of a + ?k"
    using in_range_same_block [OF ib] inside by blast+
  show ?thesis by (rule fetch_materialized [OF ib s' blk len])
qed

lemma holds_store_step:
  assumes h: "holds_store s q m" and ok: "write_ok (a, data)"
    and s': "materialize_range s a data = Some s'"
    and room: "length q < 1024 \<or> vblock_of a \<in> set q"
  shows "holds_store s' (fifo_touch q (vblock_of a)) (store_write m a data)"
  unfolding holds_store_def
proof (intro conjI allI impI)
  have rel: "fifo_rel s q" using h by (simp add: holds_store_def)
  show "fifo_rel s' (fifo_touch q (vblock_of a))" by (rule fifo_rel_materialize [OF rel s'])
  fix b :: u64 and v
  assume v: "store_write m a data (unat b div 16) = Some v"
  show "vblock_of b \<in> set (fifo_touch q (vblock_of a))"
  proof (cases "vblock_of b = vblock_of a")
    case True
    then show ?thesis using room by (simp add: set_fifo_touch)
  next
    case False
    have ib: "in_block a data" using ok by (simp add: write_ok_def)
    have "m (unat b div 16) = Some v"
      using False v in_range_same_block [OF ib, of b] unfolding store_write_def by argo
    then show ?thesis using h room by (simp add: set_fifo_touch holds_store_def)
  qed
  show "holographic_fetch s' b = v"
  proof (cases "unat a div 16 \<le> unat b div 16 \<and> unat b div 16 < unat a div 16 + length data div 16")
    case True
    then show ?thesis using fetch_stored [OF ok s'] v by (simp add: store_write_def)
  next
    case False
    then have "m (unat b div 16) = Some v" using v unfolding store_write_def by argo
    then show ?thesis by (rule fetch_untouched [OF h ok s' room _ False])
  qed
qed

lemma materialize_all_store:
  assumes "holds_store s q m" "list_all write_ok ops"
    and "card (set q \<union> (vblock_of \<circ> fst) ` set ops) \<le> 1024"
  shows "\<exists>s' q'. materialize_all s ops = Some s' \<and> holds_store s' q' (store_after m ops) \<and>
    set q' = set q \<union> (vblock_of \<circ> fst) ` set ops"
  using assms
proof (induction ops arbitrary: s q m)
  case Nil
  then show ?case by auto
next
  case (Cons op ops)
  obtain a data where op: "op = (a, data)" by fastforce
  have ok: "write_ok (a, data)" and oks: "list_all write_ok ops" using Cons.prems(2) op by auto
  obtain s1 where s1: "materialize_range s a data = Some s1"
    using ok materialize_in_block by (auto simp: write_ok_def)
  have d: "distinct q" "length q \<le> 1024" using Cons.prems(1)
    by (auto simp: holds_store_def fifo_rel_def)
  have room: "length q < 1024 \<or> vblock_of a \<in> set q"
  proof (rule ccontr)
    assume c: "\<not> ?thesis"
    then have "card (insert (vblock_of a) (set q)) = 1025"
      using d by (simp add: distinct_card)
    moreover have "card (insert (vblock_of a) (set q)) \<le> card (set q \<union> (vblock_of \<circ> fst) ` set (op # ops))"
      using op by (intro card_mono) auto
    ultimately show False using Cons.prems(3) by simp
  qed
  note st = holds_store_step [OF Cons.prems(1) ok s1 room]
  have eq: "set (fifo_touch q (vblock_of a)) \<union> (vblock_of \<circ> fst) ` set ops =
      set q \<union> (vblock_of \<circ> fst) ` set (op # ops)"
    using room op by (auto simp: set_fifo_touch)
  show ?case
    using Cons.IH [OF st oks] Cons.prems(3) eq op s1 by auto
qed

section \<open>Properties\<close>

text \<open>C2: the block cache is a first-in first-out queue of at most 1024 blocks: whatever the wrapping
  counter holds, materialising a range simulates touching its block in the queue, and a block can be
  looked up exactly when it is in the queue.\<close>

theorem cache_refines_fifo:
  assumes "fifo_rel s q" "materialize_range s a data = Some s'"
  shows "fifo_rel s' (fifo_touch q (vblock_of a)) \<and>
    (find_slot s' vb = None \<longleftrightarrow> vb \<notin> set (fifo_touch q (vblock_of a)))"
  using fifo_rel_materialize [OF assms] fifo_find_slot_None by blast

lemma cache_refines_fifo_witness:
  "\<exists>s'. fifo_rel s' [0]"
proof -
  let ?s = "fst (SubstrateManifold (PhysicalMemory 0x2000000 0x40000000) (\<lambda>_. 0) (\<lambda>_. 0))"
  have "in_block 16 (atom_bytes (val128 1 2))" by (rule in_block_atom)
  then obtain s' where s': "materialize_range ?s 16 (atom_bytes (val128 1 2)) = Some s'"
    using materialize_in_block by blast
  have "fifo_rel s' (fifo_touch [] (vblock_of 16))"
    using cache_refines_fifo [OF fifo_rel_fresh s'] by simp
  then show ?thesis by (auto simp: fifo_touch_def vblock_of_def)
qed

text \<open>C1: memory contract of the manifold: from the constructor on, as long as every write lies inside one block
  and is a whole number of 16-byte atoms, and the writes touch no more than 1024 different blocks, none of
  them fails and a fetch of any written address returns the last atom written there.\<close>

theorem manifold_is_memory:
  assumes "list_all write_ok ops" "card ((vblock_of \<circ> fst) ` set ops) \<le> 1024"
    and "store_after Map.empty ops (unat b div 16) = Some v"
  shows "\<exists>s. materialize_all (fst (SubstrateManifold g pool0 map0)) ops = Some s \<and>
    holographic_fetch s b = v"
  using materialize_all_store [OF holds_store_empty assms(1), of g pool0 map0] assms(2,3)
  by (auto simp: holds_store_def)

lemma manifold_is_memory_witness:
  "\<exists>s. materialize_all (fst (SubstrateManifold (PhysicalMemory 0x2000000 0x40000000) (\<lambda>_. 7) (\<lambda>_. 3)))
      [(0x8000, atom_bytes (val128 5 6)), (0x10, atom_bytes (val128 1 2)), (0x8000, atom_bytes (val128 8 9))]
      = Some s \<and> holographic_fetch s 0x8000 = val128 8 9"
proof (rule manifold_is_memory)
  let ?ops = "[(0x8000, atom_bytes (val128 5 6)), (0x10, atom_bytes (val128 1 2)), (0x8000, atom_bytes (val128 8 9))]
    :: (u64 \<times> u8 list) list"
  show "list_all write_ok ?ops" by (simp add: write_ok_def in_block_atom)
  show "card ((vblock_of \<circ> fst) ` set ?ops) \<le> 1024"
    using card_image_le [of "set ?ops" "vblock_of \<circ> fst"] by (simp add: card_insert_if)
  show "store_after Map.empty ?ops (unat (0x8000 :: u64) div 16) = Some (val128 8 9)"
    by (simp add: store_write_def)
qed

text \<open>A range longer than the rest of its block is not split: its tail overwrites the atoms of
  whatever block sits in the next slot of the pool.\<close>

theorem materialize_overruns_into_next_slot:
  assumes "materialize_range s a data = Some s'"
    and "find_slot s' (vblock_of b) = Some (Suc (claim_slot s (vblock_of a)))"
    and "BLOCK_BYTES + entry_of b * 16 + 16 \<le> entry_of a * 16 + length data"
  shows "holographic_fetch s' b =
    atom_of_bytes (take 16 (drop (BLOCK_BYTES - entry_of a * 16 + entry_of b * 16) data))"
proof -
  let ?p = "claim_slot s (vblock_of a)"
  define off where "off = BLOCK_BYTES - entry_of a * 16 + entry_of b * 16"
  have s': "s' = (claim s (vblock_of a))\<lparr>cache_pool :=
      mem_write (cache_pool s) (pool_offset ?p (entry_of a)) data\<rparr>"
    using assms(1) by (simp add: materialize_eq Let_def split: if_splits)
  have "pool_offset (Suc ?p) (entry_of b) = pool_offset ?p (entry_of a) + off"
    using entry_of_less [of a] by (simp add: pool_offset_def BLOCK_BYTES_def off_def)
  moreover have "off + 16 \<le> length data"
    using assms(3) entry_of_less [of a] by (simp add: BLOCK_BYTES_def off_def)
  ultimately have "holographic_fetch s' b = atom_of_bytes (take 16 (drop off data))"
    using assms(2) by (simp add: fetch_find_slot pool_entry_def s' mem_read_write_sub)
  then show ?thesis by (simp add: off_def)
qed

lemma materialize_overruns_into_next_slot_witness:
  "\<exists>s s'. materialize_range s 0x17FF0 (atom_bytes (val128 1 2) @ atom_bytes (val128 3 4)) = Some s' \<and>
     holographic_fetch s' 0x24000 = val128 3 4"
proof -
  let ?s = "fst (SubstrateManifold (PhysicalMemory 0x2000000 0x40000000) (\<lambda>_. 0) (\<lambda>_. 0))"
  let ?v = "atom_bytes (val128 8 9)" and ?d = "atom_bytes (val128 1 2) @ atom_bytes (val128 3 4)"
  have blk: "vblock_of 0x14000 = 5" "vblock_of 0x24000 = 9" "vblock_of 0x17FF0 = 5"
    "entry_of 0x17FF0 = 1023" "entry_of 0x24000 = 0"
    by (simp_all add: vblock_of_def entry_of_unat)
  obtain s1 where s1: "materialize_range ?s 0x14000 ?v = Some s1"
    using materialize_in_block [OF in_block_atom] by blast
  obtain s2 where s2: "materialize_range s1 0x24000 ?v = Some s2"
    using materialize_in_block [OF in_block_atom] by blast
  have r2: "fifo_rel s2 [9, 5]"
    using fifo_rel_materialize [OF fifo_rel_materialize [OF fifo_rel_fresh s1] s2]
    by (simp add: blk fifo_touch_def)
  then have c2: "vblock_counter s2 = 2" by (simp add: fifo_rel_def word_unat_eq_iff)
  have f5: "find_slot s2 5 = Some 0" "find_slot s2 9 = Some 1"
    unfolding fifo_find_slot [OF r2] c2
    by (auto simp: fifo_slot_def intro: exI [of _ 0] exI [of _ "Suc 0"])
  have "claim_slot s2 (vblock_of 0x17FF0) = 0" using f5 by (simp add: claim_slot_hit blk)
  then obtain s' where s': "materialize_range s2 0x17FF0 ?d = Some s'"
    by (simp add: materialize_eq Let_def blk pool_offset_def POOL_BYTES_def)
  have "find_slot s' (vblock_of 0x24000) = Some (Suc (claim_slot s2 (vblock_of 0x17FF0)))"
    using f5 s' by (auto simp: materialize_eq Let_def claim_hit claim_slot_hit blk split: if_splits)
  from materialize_overruns_into_next_slot [OF s' this]
  have "holographic_fetch s' 0x24000 = val128 3 4"
    by (simp add: blk BLOCK_BYTES_def)
  with s' show ?thesis by blast
qed

end
