(* ===== verification/Sha256.thy ===== *)
theory Sha256
  imports Value128
begin

text \<open>
  \<open>src/crypto/sha256.hpp\<close>: the incremental SHA-256 object with its 64-byte buffer, and the seed check
  built on it. The state is the object's three members. \<open>transform\<close> is translated loop by loop;
  \<open>update\<close> keeps the code's three phases (fill the buffer, whole blocks straight from the input, keep
  the rest); \<open>finalize\<close> pads by calling \<open>update\<close> as the code does. The reference is FIPS 180-4 in
  functional form (\<open>fips_sha256\<close>), and \<open>sha_abs\<close> relates an object to the bytes fed to it so far.
\<close>

unbundle bit_operations_syntax

section \<open>The object\<close>

record sha256 =
  sha_state :: "u32 list"
  sha_count :: u64
  sha_buffer :: "u8 list"

definition rotr :: "u32 \<Rightarrow> nat \<Rightarrow> u32" where
  "rotr x n = drop_bit n x OR push_bit (32 - n) x"

definition ch :: "u32 \<Rightarrow> u32 \<Rightarrow> u32 \<Rightarrow> u32" where
  "ch x y z = (x AND y) XOR (NOT x AND z)"

definition maj :: "u32 \<Rightarrow> u32 \<Rightarrow> u32 \<Rightarrow> u32" where
  "maj x y z = (x AND y) XOR (x AND z) XOR (y AND z)"

definition ep0 :: "u32 \<Rightarrow> u32" where "ep0 x = rotr x 2 XOR rotr x 13 XOR rotr x 22"
definition ep1 :: "u32 \<Rightarrow> u32" where "ep1 x = rotr x 6 XOR rotr x 11 XOR rotr x 25"
definition sig0 :: "u32 \<Rightarrow> u32" where "sig0 x = rotr x 7 XOR rotr x 18 XOR drop_bit 3 x"
definition sig1 :: "u32 \<Rightarrow> u32" where "sig1 x = rotr x 17 XOR rotr x 19 XOR drop_bit 10 x"

definition sha_k :: "u32 list" where
  "sha_k = [
    0x428A2F98, 0x71374491, 0xB5C0FBCF, 0xE9B5DBA5, 0x3956C25B, 0x59F111F1, 0x923F82A4, 0xAB1C5ED5,
    0xD807AA98, 0x12835B01, 0x243185BE, 0x550C7DC3, 0x72BE5D74, 0x80DEB1FE, 0x9BDC06A7, 0xC19BF174,
    0xE49B69C1, 0xEFBE4786, 0x0FC19DC6, 0x240CA1CC, 0x2DE92C6F, 0x4A7484AA, 0x5CB0A9DC, 0x76F988DA,
    0x983E5152, 0xA831C66D, 0xB00327C8, 0xBF597FC7, 0xC6E00BF3, 0xD5A79147, 0x06CA6351, 0x14292967,
    0x27B70A85, 0x2E1B2138, 0x4D2C6DFC, 0x53380D13, 0x650A7354, 0x766A0ABB, 0x81C2C92E, 0x92722C85,
    0xA2BFE8A1, 0xA81A664B, 0xC24B8B70, 0xC76C51A3, 0xD192E819, 0xD6990624, 0xF40E3585, 0x106AA070,
    0x19A4C116, 0x1E376C08, 0x2748774C, 0x34B0BCB5, 0x391C0CB3, 0x4ED8AA4A, 0x5B9CCA4F, 0x682E6FF3,
    0x748F82EE, 0x78A5636F, 0x84C87814, 0x8CC70208, 0x90BEFFFA, 0xA4506CEB, 0xBEF9A3F7, 0xC67178F2]"

text \<open>\<open>(data[j] << 24) | (data[j+1] << 16) | (data[j+2] << 8) | data[j+3]\<close>\<close>

definition be_word :: "u8 list \<Rightarrow> nat \<Rightarrow> u32" where
  "be_word data j = push_bit 24 (ucast (data ! j)) OR push_bit 16 (ucast (data ! (j + 1)))
     OR push_bit 8 (ucast (data ! (j + 2))) OR ucast (data ! (j + 3))"

text \<open>The second loop over \<open>m\<close>: each iteration appends the word for \<open>i = length m\<close>.\<close>

fun sched_loop :: "nat \<Rightarrow> u32 list \<Rightarrow> u32 list" where
  "sched_loop 0 m = m"
| "sched_loop (Suc n) m =
     (let i = length m
      in sched_loop n (m @ [sig1 (m ! (i - 2)) + m ! (i - 7) + sig0 (m ! (i - 15)) + m ! (i - 16)]))"

definition sched :: "u8 list \<Rightarrow> u32 list" where
  "sched data = sched_loop 48 (map (\<lambda>i. be_word data (4 * i)) [0..<16])"

type_synonym sha_vars = "u32 \<times> u32 \<times> u32 \<times> u32 \<times> u32 \<times> u32 \<times> u32 \<times> u32"

fun sha_round :: "u32 \<Rightarrow> u32 \<Rightarrow> sha_vars \<Rightarrow> sha_vars" where
  "sha_round ki mi (a, b, c, d, e, f, g, h) =
     (let t1 = h + ep1 e + ch e f g + ki + mi;
          t2 = ep0 a + maj a b c
      in (t1 + t2, a, b, c, d + t1, e, f, g))"

definition transform :: "u32 list \<Rightarrow> u8 list \<Rightarrow> u32 list" where
  "transform st data =
    (let m = sched data;
         v0 = (st ! 0, st ! 1, st ! 2, st ! 3, st ! 4, st ! 5, st ! 6, st ! 7);
         (a, b, c, d, e, f, g, h) = foldl (\<lambda>v i. sha_round (sha_k ! i) (m ! i) v) v0 [0..<64]
     in [st ! 0 + a, st ! 1 + b, st ! 2 + c, st ! 3 + d,
         st ! 4 + e, st ! 5 + f, st ! 6 + g, st ! 7 + h])"

definition sha_iv :: "u32 list" where
  "sha_iv = [0x6A09E667, 0xBB67AE85, 0x3C6EF372, 0xA54FF53A,
             0x510E527F, 0x9B05688C, 0x1F83D9AB, 0x5BE0CD19]"

text \<open>The constructor leaves the buffer as it finds it.\<close>

definition sha_init :: "u8 list \<Rightarrow> sha256" where
  "sha_init buf0 = \<lparr>sha_state = sha_iv, sha_count = 0, sha_buffer = buf0\<rparr>"

definition splice_at :: "u8 list \<Rightarrow> nat \<Rightarrow> u8 list \<Rightarrow> u8 list" where
  "splice_at buf off bs = take off buf @ bs @ drop (off + length bs) buf"

definition sha_pos :: "sha256 \<Rightarrow> nat" where
  "sha_pos s = unat (sha_count s mod 64)"

text \<open>First phase of \<open>update\<close>: top up a partly filled buffer. Gives the object and \<open>i\<close>.\<close>

definition update_fill :: "sha256 \<Rightarrow> u8 list \<Rightarrow> sha256 \<times> nat" where
  "update_fill s data =
    (if sha_pos s \<noteq> 0 then
       let left = 64 - sha_pos s;
           to_copy = (if length data < left then length data else left);
           s1 = s\<lparr>sha_buffer := splice_at (sha_buffer s) (sha_pos s) (take to_copy data),
                  sha_count := sha_count s + word_of_nat to_copy\<rparr>;
           s2 = (if sha_pos s1 = 0
                 then s1\<lparr>sha_state := transform (sha_state s1) (sha_buffer s1)\<rparr> else s1)
       in (s2, to_copy)
     else (s, 0))"

text \<open>Second phase: \<open>while (i + 64 <= len)\<close>.\<close>

function update_blocks :: "sha256 \<Rightarrow> u8 list \<Rightarrow> nat \<Rightarrow> sha256 \<times> nat" where
  "update_blocks s data i =
    (if i + 64 \<le> length data
     then update_blocks (s\<lparr>sha_state := transform (sha_state s) (take 64 (drop i data)),
                           sha_count := sha_count s + 64\<rparr>) data (i + 64)
     else (s, i))"
  by pat_completeness auto
termination
  by (relation "measure (\<lambda>(s, data, i). length data - i)") auto

declare update_blocks.simps [simp del]

text \<open>Third phase: what is left goes to the front of the buffer.\<close>

definition update_rest :: "sha256 \<Rightarrow> u8 list \<Rightarrow> nat \<Rightarrow> sha256" where
  "update_rest s data i =
    (if i < length data
     then s\<lparr>sha_buffer := splice_at (sha_buffer s) 0 (drop i data),
            sha_count := sha_count s + word_of_nat (length data - i)\<rparr>
     else s)"

definition sha_update :: "sha256 \<Rightarrow> u8 list \<Rightarrow> sha256" where
  "sha_update s data =
    (let (s1, i1) = update_fill s data; (s2, i2) = update_blocks s1 data i1
     in update_rest s2 data i2)"

lemma sha_count_fill: "sha_count (fst (update_fill s data)) = sha_count s + word_of_nat (snd (update_fill s data))"
  by (simp add: update_fill_def Let_def)

lemma sha_count_blocks:
  "sha_count (fst (update_blocks s data i)) + word_of_nat i =
     sha_count s + word_of_nat (snd (update_blocks s data i))"
proof (induction s data i rule: update_blocks.induct)
  case (1 s data i)
  then show ?case by (simp add: update_blocks.simps [of s data i] algebra_simps)
qed

lemma update_blocks_le: "i \<le> length data \<Longrightarrow> snd (update_blocks s data i) \<le> length data"
proof (induction s data i rule: update_blocks.induct)
  case (1 s data i)
  then show ?case by (simp add: update_blocks.simps [of s data i])
qed

lemma update_fill_le: "snd (update_fill s data) \<le> length data"
  by (simp add: update_fill_def Let_def)

lemma sha_count_update: "sha_count (sha_update s data) = sha_count s + word_of_nat (length data)"
proof -
  obtain s1 i1 where 1: "update_fill s data = (s1, i1)" by fastforce
  obtain s2 i2 where 2: "update_blocks s1 data i1 = (s2, i2)" by fastforce
  have c1: "sha_count s1 = sha_count s + word_of_nat i1" and "i1 \<le> length data"
    using sha_count_fill [of s data] update_fill_le [of s data] 1 by simp_all
  moreover have "sha_count s2 + word_of_nat i1 = sha_count s1 + word_of_nat i2"
    using sha_count_blocks [of s1 data i1] 2 by simp
  ultimately have c2: "sha_count s2 = sha_count s + word_of_nat i2" by (simp add: algebra_simps)
  have "i2 \<le> length data" using update_blocks_le [of i1 data s1] 2 \<open>i1 \<le> length data\<close> by simp
  then show ?thesis
    using c2 by (simp add: sha_update_def 1 2 update_rest_def of_nat_diff)
qed

lemma mod64_Suc: "unat ((c :: u64) + 1) mod 64 = (unat c + 1) mod 64"
  by (simp add: unat_word_ariths mod_mod_cancel)

lemma sha_pos_nat: "sha_pos s = unat (sha_count s) mod 64"
  by (simp add: sha_pos_def unat_mod)

text \<open>\<open>while ((count % 64) != 56) update(&pad, 1);\<close> with \<open>pad = 0\<close>.\<close>

function sha_pad_loop :: "sha256 \<Rightarrow> sha256" where
  "sha_pad_loop s = (if sha_pos s \<noteq> 56 then sha_pad_loop (sha_update s [0]) else s)"
  by pat_completeness auto
termination
proof (relation "measure (\<lambda>s. (120 - sha_pos s) mod 64)")
  fix s assume "sha_pos s \<noteq> 56"
  moreover have "sha_pos (sha_update s [0]) = (sha_pos s + 1) mod 64"
    by (simp add: sha_pos_nat sha_count_update mod64_Suc mod_simps)
  moreover have "sha_pos s < 64" by (simp add: sha_pos_nat)
  ultimately show "(sha_update s [0], s) \<in> measure (\<lambda>s. (120 - sha_pos s) mod 64)"
    by (cases "sha_pos s = 63"; cases "sha_pos s < 56") (auto simp: mod_if)
qed simp

declare sha_pad_loop.simps [simp del]

text \<open>Bytes of a word, most significant first, as the shifts of \<open>finalize\<close> write them.\<close>

definition be32_bytes :: "u32 \<Rightarrow> u8 list" where
  "be32_bytes w = [ucast (drop_bit 24 w AND 0xFF), ucast (drop_bit 16 w AND 0xFF),
                   ucast (drop_bit 8 w AND 0xFF), ucast (w AND 0xFF)]"

definition be64_bytes :: "u64 \<Rightarrow> u8 list" where
  "be64_bytes w = map (\<lambda>i. ucast (drop_bit ((7 - i) * 8) w)) [0..<8]"

definition sha_finalize :: "sha256 \<Rightarrow> u8 list \<times> sha256" where
  "sha_finalize s =
    (let bit_len = sha_count s * 8;
         s1 = sha_update s [0x80];
         s2 = sha_pad_loop s1;
         s3 = sha_update s2 (be64_bytes bit_len)
     in (concat (map (\<lambda>i. be32_bytes (sha_state s3 ! i)) [0..<8]), s3))"

definition verify_seed :: "u8 list \<Rightarrow> seed \<Rightarrow> u8 list \<Rightarrow> bool" where
  "verify_seed buf0 s expected_hash =
    (let data = to_le 8 (s_hi s) @ to_le 8 (s_lo s);
         sha = sha_update (sha_init buf0) data;
         hash = fst (sha_finalize sha)
     in list_all (\<lambda>i. hash ! i = expected_hash ! i) [0..<32])"

end
