(* ===== verification/Sha256Correct.thy ===== *)
theory Sha256Correct
  imports Sha256
begin

text \<open>
  Correctness of the incremental SHA-256 against FIPS 180-4. The locale \<open>block_hash\<close> states what any
  block-iterated hash gets from folding its compression function over whole 64-byte blocks; it is
  interpreted on the code's \<open>transform\<close>. \<open>sha_abs s msg\<close> says that the object \<open>s\<close> has absorbed exactly
  \<open>msg\<close>; \<open>update\<close> appends to \<open>msg\<close>, and \<open>finalize\<close> yields the digest of the standard's padding.
\<close>

unbundle bit_operations_syntax

section \<open>Block iteration\<close>

function chunks64 :: "u8 list \<Rightarrow> u8 list list" where
  "chunks64 xs = (if length xs < 64 then [] else take 64 xs # chunks64 (drop 64 xs))"
  by pat_completeness auto
termination by (relation "measure length") auto

declare chunks64.simps [simp del]

definition whole :: "u8 list \<Rightarrow> nat" where
  "whole xs = 64 * (length xs div 64)"

lemma chunks64_short: "length xs < 64 \<Longrightarrow> chunks64 xs = []"
  by (simp add: chunks64.simps)

lemma chunks64_Cons: "64 \<le> length xs \<Longrightarrow> chunks64 xs = take 64 xs # chunks64 (drop 64 xs)"
  by (simp add: chunks64.simps [of xs])

lemma chunks64_append:
  "64 dvd length xs \<Longrightarrow> chunks64 (xs @ ys) = chunks64 xs @ chunks64 ys"
proof (induction xs rule: chunks64.induct)
  case (1 xs)
  show ?case
  proof (cases "length xs < 64")
    case True
    then have "xs = []" using "1.prems" by (auto dest: dvd_imp_le)
    then show ?thesis by (simp add: chunks64_short)
  next
    case False
    then have "64 dvd length (drop 64 xs)" using "1.prems" by (simp add: dvd_diff_nat)
    then show ?thesis using "1.IH" [OF False] False
      by (simp add: chunks64_Cons [of "xs @ ys"] chunks64_Cons [of xs])
  qed
qed

lemma chunks64_one: "length xs = 64 \<Longrightarrow> chunks64 xs = [xs]"
  by (simp add: chunks64_Cons chunks64_short)

locale block_hash =
  fixes compress :: "'st \<Rightarrow> u8 list \<Rightarrow> 'st"
begin

definition digest_blocks :: "'st \<Rightarrow> u8 list \<Rightarrow> 'st" where
  "digest_blocks st xs = foldl compress st (chunks64 xs)"

lemma digest_append:
  "64 dvd length xs \<Longrightarrow> digest_blocks st (xs @ ys) = digest_blocks (digest_blocks st xs) ys"
  by (simp add: digest_blocks_def chunks64_append)

lemma digest_short: "length xs < 64 \<Longrightarrow> digest_blocks st xs = st"
  by (simp add: digest_blocks_def chunks64_short)

lemma digest_one: "length xs = 64 \<Longrightarrow> digest_blocks st xs = compress st xs"
  by (simp add: digest_blocks_def chunks64_one)

lemma digest_partial:
  "64 dvd length xs \<Longrightarrow> length ys < 64 \<Longrightarrow> digest_blocks st (xs @ ys) = digest_blocks st xs"
  by (simp add: digest_append digest_short)

end

interpretation sha: block_hash transform .

section \<open>FIPS 180-4\<close>

text \<open>The message schedule as the standard's recurrence, with the library's rotation; eight working
  variables as a function of the step; the padding rule; the digest.\<close>

definition fips_sigma0 :: "u32 \<Rightarrow> u32" where
  "fips_sigma0 x = word_rotr 7 x XOR word_rotr 18 x XOR drop_bit 3 x"

definition fips_sigma1 :: "u32 \<Rightarrow> u32" where
  "fips_sigma1 x = word_rotr 17 x XOR word_rotr 19 x XOR drop_bit 10 x"

definition fips_Sigma0 :: "u32 \<Rightarrow> u32" where
  "fips_Sigma0 x = word_rotr 2 x XOR word_rotr 13 x XOR word_rotr 22 x"

definition fips_Sigma1 :: "u32 \<Rightarrow> u32" where
  "fips_Sigma1 x = word_rotr 6 x XOR word_rotr 11 x XOR word_rotr 25 x"

fun fips_W :: "u8 list \<Rightarrow> nat \<Rightarrow> u32" where
  "fips_W blk t =
    (if t < 16 then of_le (rev (take 4 (drop (4 * t) blk)))
     else fips_sigma1 (fips_W blk (t - 2)) + fips_W blk (t - 7) +
          fips_sigma0 (fips_W blk (t - 15)) + fips_W blk (t - 16))"

declare fips_W.simps [simp del]

fun fips_vars :: "u32 list \<Rightarrow> u8 list \<Rightarrow> nat \<Rightarrow> sha_vars" where
  "fips_vars H blk 0 = (H ! 0, H ! 1, H ! 2, H ! 3, H ! 4, H ! 5, H ! 6, H ! 7)"
| "fips_vars H blk (Suc t) =
    (let (a, b, c, d, e, f, g, h) = fips_vars H blk t;
         T1 = h + fips_Sigma1 e + ch e f g + sha_k ! t + fips_W blk t;
         T2 = fips_Sigma0 a + maj a b c
     in (T1 + T2, a, b, c, d + T1, e, f, g))"

definition fips_compress :: "u32 list \<Rightarrow> u8 list \<Rightarrow> u32 list" where
  "fips_compress H blk =
    (let (a, b, c, d, e, f, g, h) = fips_vars H blk 64
     in [H ! 0 + a, H ! 1 + b, H ! 2 + c, H ! 3 + d, H ! 4 + e, H ! 5 + f, H ! 6 + g, H ! 7 + h])"

definition fips_pad :: "u8 list \<Rightarrow> u8 list" where
  "fips_pad msg = msg @ [0x80] @ replicate ((119 - length msg mod 64) mod 64) 0 @
     be64_bytes (word_of_nat (8 * length msg))"

definition fips_sha256 :: "u8 list \<Rightarrow> u8 list" where
  "fips_sha256 msg = concat (map be32_bytes (foldl fips_compress sha_iv (chunks64 (fips_pad msg))))"

lemma rotr_word_rotr:
  assumes "0 < n" "n < 32"
  shows "rotr x n = word_rotr n x"
proof (rule bit_word_eqI)
  fix i assume i: "i < LENGTH(32)"
  show "bit (rotr x n) i = bit (word_rotr n x) i"
  proof (cases "i + n < 32")
    case True
    then have "\<not> 32 - n \<le> i" by simp
    with True show ?thesis using assms i
      by (simp add: rotr_def bit_word_rotr_iff bit_ops add.commute)
  next
    case False
    then have "i + n = (i + n - 32) + 32" by simp
    then have "(i + n) mod 32 = (i + n - 32) mod 32" by (metis mod_add_self2)
    then have "(i + n) mod 32 = i + n - 32" using i assms by simp
    moreover have "\<not> bit x (n + i)" using False bit_imp_le_length [of x "n + i"] by auto
    moreover have "i - (32 - n) = i + n - 32" "32 - n \<le> i" using False assms by simp_all
    ultimately show ?thesis using assms i
      by (simp add: rotr_def bit_word_rotr_iff bit_ops)
  qed
qed

lemma sigma_eq: "sig0 x = fips_sigma0 x" "sig1 x = fips_sigma1 x" "ep0 x = fips_Sigma0 x" "ep1 x = fips_Sigma1 x"
  by (simp_all add: sig0_def sig1_def ep0_def ep1_def fips_sigma0_def fips_sigma1_def
      fips_Sigma0_def fips_Sigma1_def rotr_word_rotr)

lemma be_word_of_le:
  assumes "4 * t + 4 \<le> length blk"
  shows "be_word blk (4 * t) = of_le (rev (take 4 (drop (4 * t) blk)))"
proof -
  have "take 4 (drop (4 * t) blk) = [blk ! (4 * t), blk ! (4 * t + 1), blk ! (4 * t + 2), blk ! (4 * t + 3)]"
    using assms by (simp add: numeral_eq_Suc take_Suc_conv_app_nth)
  then show ?thesis
    by (simp add: be_word_def push_bit_or ac_simps)
qed

lemma length_sched_loop: "length (sched_loop n m) = length m + n"
  by (induction n arbitrary: m) (auto simp: Let_def)

lemma sched_loop_W:
  assumes "16 \<le> length m" "\<forall>i<length m. m ! i = fips_W blk i" "i < length m + n"
  shows "sched_loop n m ! i = fips_W blk i"
  using assms
proof (induction n arbitrary: m)
  case 0
  then show ?case by simp
next
  case (Suc n)
  let ?l = "length m"
  let ?w = "sig1 (m ! (?l - 2)) + m ! (?l - 7) + sig0 (m ! (?l - 15)) + m ! (?l - 16)"
  have "fips_W blk ?l = ?w"
    using Suc.prems(1,2) by (subst fips_W.simps) (simp add: sigma_eq)
  then have "\<forall>i<length (m @ [?w]). (m @ [?w]) ! i = fips_W blk i"
    using Suc.prems(2) by (simp add: nth_append less_Suc_eq)
  from Suc.IH [OF _ this] show ?case using Suc.prems(1,3) by (simp add: Let_def)
qed

lemma sched_W:
  assumes "length blk = 64" "i < 64"
  shows "sched blk ! i = fips_W blk i"
proof -
  let ?m = "map (\<lambda>i. be_word blk (4 * i)) [0..<16]"
  have "\<forall>i<length ?m. ?m ! i = fips_W blk i"
    using assms(1) by (auto simp: fips_W.simps be_word_of_le)
  then show ?thesis using sched_loop_W [of ?m blk i 48] assms(2) by (simp add: sched_def)
qed

lemma rounds_vars:
  assumes "length blk = 64" "n \<le> 64"
  shows "foldl (\<lambda>v i. sha_round (sha_k ! i) (sched blk ! i) v) (fips_vars H blk 0) [0..<n] =
    fips_vars H blk n"
  using assms(2)
proof (induction n)
  case 0
  show ?case by simp
next
  case (Suc n)
  obtain a b c d e f g h where "fips_vars H blk n = (a, b, c, d, e, f, g, h)"
    by (metis surj_pair)
  with Suc show ?case
    using sched_W [OF assms(1), of n] by (simp add: Let_def sigma_eq)
qed

lemma transform_fips: "length blk = 64 \<Longrightarrow> transform H blk = fips_compress H blk"
  using rounds_vars [of blk 64 H]
  by (simp add: transform_def fips_compress_def Let_def)

lemma foldl_transform_fips:
  "foldl transform H (chunks64 xs) = foldl fips_compress H (chunks64 xs)"
proof (induction xs arbitrary: H rule: chunks64.induct)
  case (1 xs)
  show ?case
  proof (cases "length xs < 64")
    case True
    then show ?thesis by (simp add: chunks64_short)
  next
    case False
    then show ?thesis using "1.IH" [OF False] by (simp add: chunks64_Cons transform_fips)
  qed
qed

section \<open>What an object has absorbed\<close>

definition sha_abs :: "sha256 \<Rightarrow> u8 list \<Rightarrow> bool" where
  "sha_abs s msg \<longleftrightarrow> length (sha_buffer s) = 64 \<and>
     sha_count s = word_of_nat (length msg) \<and>
     sha_state s = sha.digest_blocks sha_iv msg \<and>
     take (length msg mod 64) (sha_buffer s) = drop (whole msg) msg"

lemma unat_of_nat_mod64: "unat (word_of_nat n :: u64) mod 64 = n mod 64"
  by (simp add: unat_of_nat mod_mod_cancel)

lemma sha_abs_pos: "sha_abs s msg \<Longrightarrow> sha_pos s = length msg mod 64"
  by (simp add: sha_abs_def sha_pos_nat unat_of_nat_mod64)

lemma whole_le: "whole xs \<le> length xs"
  by (simp add: whole_def)

lemma whole_split: "length xs = whole xs + length xs mod 64"
  by (simp add: whole_def)

lemma digest_whole: "sha.digest_blocks st xs = sha.digest_blocks st (take (whole xs) xs)"
proof -
  have "64 dvd length (take (whole xs) xs)" by (simp add: whole_def)
  moreover have "length (drop (whole xs) xs) < 64" by (simp add: whole_def minus_mult_div_eq_mod)
  ultimately have "sha.digest_blocks st (take (whole xs) xs @ drop (whole xs) xs) =
      sha.digest_blocks st (take (whole xs) xs)" by (rule sha.digest_partial)
  then show ?thesis by simp
qed

lemma whole_append_short:
  assumes "length xs mod 64 + length ys < 64"
  shows "whole (xs @ ys) = whole xs" "(length xs + length ys) mod 64 = length xs mod 64 + length ys"
proof -
  have "length xs + length ys = 64 * (length xs div 64) + (length xs mod 64 + length ys)" by simp
  then have d: "(length xs + length ys) div 64 = length xs div 64" and
    m: "(length xs + length ys) mod 64 = length xs mod 64 + length ys"
    using assms by (metis add.commute div_less div_mult_self2 mult.commute add_0
        zero_neq_numeral, metis assms mod_less mod_mult_self4 mult.commute)
  show "whole (xs @ ys) = whole xs" by (simp add: whole_def d)
  show "(length xs + length ys) mod 64 = length xs mod 64 + length ys" by (rule m)
qed

lemma length_splice_at: "off + length bs \<le> length buf \<Longrightarrow> length (splice_at buf off bs) = length buf"
  by (simp add: splice_at_def)

text \<open>Appending bytes that do not complete the block.\<close>

lemma sha_abs_buffer:
  assumes abs: "sha_abs s msg" and short: "length msg mod 64 + length d < 64"
  shows "sha_abs (s\<lparr>sha_buffer := splice_at (sha_buffer s) (length msg mod 64) d,
                    sha_count := sha_count s + word_of_nat (length d)\<rparr>) (msg @ d)"
proof -
  note w = whole_append_short [OF short]
  have "sha.digest_blocks sha_iv (msg @ d) = sha.digest_blocks sha_iv msg"
    using digest_whole [of sha_iv "msg @ d"] digest_whole [of sha_iv msg] w whole_le [of msg] by simp
  moreover have "take (length msg mod 64) (sha_buffer s) = drop (whole msg) msg"
    and "length (sha_buffer s) = 64" using abs by (simp_all add: sha_abs_def)
  moreover from this have "splice_at (sha_buffer s) (length msg mod 64) d =
      (drop (whole msg) msg @ d) @ drop (length msg mod 64 + length d) (sha_buffer s)"
    by (simp add: splice_at_def)
  moreover have "length (drop (whole msg) msg @ d) = length msg mod 64 + length d"
    using whole_split [of msg] by simp
  ultimately show ?thesis
    using abs short whole_le [of msg]
    by (simp add: sha_abs_def w)
qed

text \<open>Appending bytes that exactly complete it.\<close>

lemma sha_abs_complete:
  assumes abs: "sha_abs s msg" and full: "length msg mod 64 + length d = 64"
  shows "sha_abs (s\<lparr>sha_buffer := splice_at (sha_buffer s) (length msg mod 64) d,
                    sha_count := sha_count s + word_of_nat (length d),
                    sha_state := transform (sha_state s)
                      (splice_at (sha_buffer s) (length msg mod 64) d)\<rparr>) (msg @ d)"
proof -
  let ?r = "length msg mod 64" and ?b = "splice_at (sha_buffer s) (length msg mod 64) d"
  have b: "length (sha_buffer s) = 64" "take ?r (sha_buffer s) = drop (whole msg) msg"
    using abs by (simp_all add: sha_abs_def)
  have blk: "?b = drop (whole msg) msg @ d" using b full by (simp add: splice_at_def)
  have l: "length ?b = 64" using b full by (simp add: length_splice_at)
  have split: "msg @ d = take (whole msg) msg @ ?b" by (simp add: blk)
  have dv: "64 dvd length (take (whole msg) msg)" by (simp add: whole_def)
  have "sha.digest_blocks sha_iv (msg @ d) = transform (sha_state s) ?b"
    unfolding split sha.digest_append [OF dv] sha.digest_one [OF l]
    using abs digest_whole [of sha_iv msg] by (simp add: sha_abs_def)
  moreover have "length (msg @ d) mod 64 = 0"
    using split l dv by (metis dvd_imp_mod_0 dvd_add length_append dvd_refl)
  moreover have "whole (msg @ d) = length (msg @ d)"
    using whole_split [of "msg @ d"] calculation(2) by simp
  ultimately show ?thesis using abs l by (simp add: sha_abs_def)
qed

text \<open>Whole blocks straight from the input.\<close>

lemma sha_abs_block:
  assumes abs: "sha_abs s msg" and "length msg mod 64 = 0" "length d = 64"
  shows "sha_abs (s\<lparr>sha_state := transform (sha_state s) d, sha_count := sha_count s + 64\<rparr>) (msg @ d)"
proof -
  have dv: "64 dvd length msg" using assms(2) by auto
  have "sha.digest_blocks sha_iv (msg @ d) = transform (sha_state s) d"
    using sha.digest_append [OF dv] sha.digest_one [OF assms(3)] abs by (simp add: sha_abs_def)
  moreover have m: "(length msg + length d) mod 64 = 0" using assms by simp
  moreover have "whole (msg @ d) = length (msg @ d)" using whole_split [of "msg @ d"] m by simp
  ultimately show ?thesis using abs assms by (simp add: sha_abs_def)
qed

lemma update_blocks_abs:
  assumes "sha_abs s (msg @ take i data)" "(length msg + i) mod 64 = 0" "i \<le> length data"
  shows "\<exists>s' j. update_blocks s data i = (s', j) \<and> sha_abs s' (msg @ take j data) \<and>
    (length msg + j) mod 64 = 0 \<and> j \<le> length data \<and> length data - j < 64"
  using assms
proof (induction s data i rule: update_blocks.induct)
  case (1 s data i)
  show ?case
  proof (cases "i + 64 \<le> length data")
    case True
    let ?d = "take 64 (drop i data)"
    let ?s = "s\<lparr>sha_state := transform (sha_state s) ?d, sha_count := sha_count s + 64\<rparr>"
    have "take (i + 64) data = take i data @ ?d" by (simp add: take_add)
    then have "sha_abs ?s (msg @ take (i + 64) data)"
      using sha_abs_block [OF "1.prems"(1), of ?d] True "1.prems" by simp
    moreover have "(length msg + (i + 64)) mod 64 = 0"
      using "1.prems"(2) by (simp add: add.assoc [symmetric])
    ultimately show ?thesis
      using "1.IH" [OF True] True by (simp add: update_blocks.simps [of s data i])
  next
    case False
    then show ?thesis using "1.prems" by (simp add: update_blocks.simps [of s data i])
  qed
qed

lemma update_rest_abs:
  assumes "sha_abs s (msg @ take i data)" "(length msg + i) mod 64 = 0" "i \<le> length data"
    "length data - i < 64"
  shows "sha_abs (update_rest s data i) (msg @ data)"
proof (cases "i < length data")
  case True
  have "sha_abs (s\<lparr>sha_buffer := splice_at (sha_buffer s) (length (msg @ take i data) mod 64) (drop i data),
      sha_count := sha_count s + word_of_nat (length (drop i data))\<rparr>) ((msg @ take i data) @ drop i data)"
    by (rule sha_abs_buffer [OF assms(1)]) (use assms in simp)
  then show ?thesis using True assms by (simp add: update_rest_def)
next
  case False
  then show ?thesis using assms by (simp add: update_rest_def)
qed

lemma sha_abs_update_aligned:
  assumes "sha_abs s (msg @ take i data)" "(length msg + i) mod 64 = 0" "i \<le> length data"
  shows "sha_abs (case update_blocks s data i of (s2, i2) \<Rightarrow> update_rest s2 data i2) (msg @ data)"
  using update_blocks_abs [OF assms] update_rest_abs by auto

text \<open>The first loop of \<open>update\<close>: input too short to complete a block stays in the buffer, longer input
  completes the block and leaves the count aligned.\<close>

lemma update_fill_short:
  assumes "sha_abs s msg" "length msg mod 64 \<noteq> 0" "length msg mod 64 + length data < 64"
  obtains s' where "update_fill s data = (s', length data)" "sha_abs s' (msg @ data)"
proof -
  let ?s = "s\<lparr>sha_buffer := splice_at (sha_buffer s) (length msg mod 64) data,
              sha_count := sha_count s + word_of_nat (length data)\<rparr>"
  have s: "sha_abs ?s (msg @ data)" by (rule sha_abs_buffer [OF assms(1,3)])
  have "sha_pos ?s \<noteq> 0"
    using sha_abs_pos [OF s] whole_append_short [OF assms(3)] assms(2) by simp
  then have "update_fill s data = (?s, length data)"
    using sha_abs_pos [OF assms(1)] assms(2,3) by (simp add: update_fill_def Let_def)
  with s that show ?thesis by blast
qed

lemma update_fill_long:
  assumes "sha_abs s msg" "length msg mod 64 \<noteq> 0" "64 \<le> length msg mod 64 + length data"
  obtains s' k where "update_fill s data = (s', k)" "sha_abs s' (msg @ take k data)"
    "(length msg + k) mod 64 = 0" "k \<le> length data"
proof -
  let ?r = "length msg mod 64"
  let ?k = "64 - ?r"
  let ?b = "splice_at (sha_buffer s) ?r (take ?k data)"
  let ?s = "s\<lparr>sha_buffer := ?b, sha_count := sha_count s + word_of_nat ?k,
              sha_state := transform (sha_state s) ?b\<rparr>"
  have lk: "length (take ?k data) = ?k" and le: "?k \<le> length data" using assms(2,3) by simp_all
  have s: "sha_abs ?s (msg @ take ?k data)"
    using sha_abs_complete [OF assms(1), of "take ?k data"] lk by simp
  have "length msg + ?k = 64 * (length msg div 64) + 64"
    using mult_div_mod_eq [of 64 "length msg"] mod_less_divisor [of 64 "length msg"] by linarith
  then have m: "(length msg + ?k) mod 64 = 0" by simp
  have "sha_pos (s\<lparr>sha_buffer := ?b, sha_count := sha_count s + word_of_nat ?k\<rparr>) = sha_pos ?s"
    by (simp add: sha_pos_def)
  also have "\<dots> = 0" using sha_abs_pos [OF s] lk m by simp
  finally have "sha_pos (s\<lparr>sha_buffer := ?b, sha_count := sha_count s + word_of_nat ?k\<rparr>) = 0" .
  moreover have "\<not> length data < ?k" using assms(3) by simp
  ultimately have "update_fill s data = (?s, ?k)"
    using sha_abs_pos [OF assms(1)] assms(2,3) by (simp add: update_fill_def Let_def)
  from that [OF this s m le] show ?thesis .
qed

text \<open>\<open>update\<close> appends its input to what the object has absorbed.\<close>

lemma sha_abs_update:
  assumes abs: "sha_abs s msg"
  shows "sha_abs (sha_update s data) (msg @ data)"
proof -
  let ?r = "length msg mod 64"
  consider (aligned) "?r = 0" | (short) "?r \<noteq> 0" "?r + length data < 64"
    | (long) "?r \<noteq> 0" "64 \<le> ?r + length data" by linarith
  then show ?thesis
  proof cases
    case aligned
    then have "update_fill s data = (s, 0)" using sha_abs_pos [OF abs] by (simp add: update_fill_def)
    then show ?thesis
      using sha_abs_update_aligned [of s msg 0 data] abs aligned by (simp add: sha_update_def)
  next
    case short
    obtain s' where "update_fill s data = (s', length data)" "sha_abs s' (msg @ data)"
      by (rule update_fill_short [OF abs short])
    then show ?thesis by (simp add: sha_update_def update_blocks.simps update_rest_def)
  next
    case long
    obtain s' k where "update_fill s data = (s', k)" and s: "sha_abs s' (msg @ take k data)"
      "(length msg + k) mod 64 = 0" "k \<le> length data"
      by (rule update_fill_long [OF abs long])
    then show ?thesis using sha_abs_update_aligned [OF s] by (simp add: sha_update_def)
  qed
qed

section \<open>Padding and the digest\<close>

lemma sha_abs_init: "length buf0 = 64 \<Longrightarrow> sha_abs (sha_init buf0) []"
  by (simp add: sha_abs_def sha_init_def sha.digest_short whole_def)

lemma sha_abs_pad_loop:
  "sha_abs s msg \<Longrightarrow> \<exists>z. z < 64 \<and> (length msg + z) mod 64 = 56 \<and>
     sha_abs (sha_pad_loop s) (msg @ replicate z 0)"
proof (induction s arbitrary: msg rule: sha_pad_loop.induct)
  case (1 s)
  show ?case
  proof (cases "sha_pos s = 56")
    case True
    then have "length msg mod 64 = 56" using sha_abs_pos [OF "1.prems"] by simp
    with True "1.prems" show ?thesis
      by (intro exI [of _ 0]) (simp add: sha_pad_loop.simps [of s])
  next
    case False
    obtain z where z: "z < 64" "(length (msg @ [0]) + z) mod 64 = 56"
      "sha_abs (sha_pad_loop (sha_update s [0])) ((msg @ [0]) @ replicate z 0)"
      using "1.IH" [OF False sha_abs_update [OF "1.prems", of "[0]"]] by blast
    have "z \<noteq> 63"
    proof
      assume "z = 63"
      then have "(length msg + 64) mod 64 = 56" using z(2) by (simp add: add.commute)
      then show False using False sha_abs_pos [OF "1.prems"] by simp
    qed
    then show ?thesis using z False
      by (intro exI [of _ "Suc z"]) (simp add: sha_pad_loop.simps [of s])
  qed
qed

lemma pad_zeros_unique:
  assumes "z < 64" "(n + 1 + z) mod 64 = (56 :: nat)"
  shows "z = (119 - n mod 64) mod 64"
proof -
  define r where "r = n mod 64"
  have "(r + 1 + z) mod 64 = 56"
    using assms(2) unfolding r_def by (simp add: mod_simps) (metis add.assoc mod_add_left_eq plus_1_eq_Suc add.commute mod_Suc_eq)
  moreover have "r < 64" by (simp add: r_def)
  ultimately show ?thesis
    using assms(1) unfolding r_def [symmetric]
    by (cases "r + 1 + z < 64"; cases "r \<le> 55") (auto simp: mod_if split: if_splits)
qed

lemma be32_nth8:
  assumes "length st = 8"
  shows "concat (map (\<lambda>i. be32_bytes (st ! i)) [0..<8]) = concat (map be32_bytes st)"
proof -
  have "map (\<lambda>i. st ! i) [0..<8] = st" using assms by (metis map_nth)
  then have "map (\<lambda>i. be32_bytes (st ! i)) [0..<8] = map be32_bytes st"
    by (metis (no_types, lifting) list.map_comp comp_apply map_eq_conv)
  then show ?thesis by (rule arg_cong)
qed

lemma length_transform [simp]: "length (transform st d) = 8"
  by (simp add: transform_def Let_def split: prod.split)

lemma length_digest: "length st = 8 \<Longrightarrow> length (sha.digest_blocks st xs) = 8"
  unfolding sha.digest_blocks_def
  by (induction "chunks64 xs" arbitrary: st rule: rev_induct)
    (auto simp: foldl_append, metis (no_types, lifting) append_butlast_last_id foldl_Cons
      foldl_Nil foldl_append length_transform)

lemma finalize_fips:
  assumes abs: "sha_abs s msg"
  shows "fst (sha_finalize s) = fips_sha256 msg"
proof -
  let ?bits = "be64_bytes (sha_count s * 8)"
  let ?m1 = "msg @ [0x80]"
  obtain z where z: "z < 64" "(length ?m1 + z) mod 64 = 56"
    "sha_abs (sha_pad_loop (sha_update s [0x80])) (?m1 @ replicate z 0)"
    using sha_abs_pad_loop [OF sha_abs_update [OF abs]] by blast
  let ?s3 = "sha_update (sha_pad_loop (sha_update s [0x80])) ?bits"
  let ?m3 = "?m1 @ replicate z 0 @ ?bits"
  have zeq: "z = (119 - length msg mod 64) mod 64"
    using pad_zeros_unique [of z "length msg"] z by simp
  have "sha_count s * 8 = word_of_nat (8 * length msg)"
    using abs by (simp add: sha_abs_def)
  then have m3: "?m3 = fips_pad msg" by (simp add: fips_pad_def zeq)
  have "sha_abs ?s3 ((?m1 @ replicate z 0) @ ?bits)" by (rule sha_abs_update [OF z(3)])
  then have st: "sha_state ?s3 = sha.digest_blocks sha_iv (fips_pad msg)"
    using m3 by (simp add: sha_abs_def)
  then have "length (sha_state ?s3) = 8" by (simp add: length_digest sha_iv_def)
  then show ?thesis
    using st foldl_transform_fips
    by (simp add: sha_finalize_def Let_def be32_nth8 fips_sha256_def sha.digest_blocks_def)
qed

lemma foldl_update_abs: "sha_abs s msg \<Longrightarrow> sha_abs (foldl sha_update s parts) (msg @ concat parts)"
proof (induction parts arbitrary: s msg)
  case Nil
  then show ?case by simp
next
  case (Cons p parts)
  from Cons.IH [OF sha_abs_update [OF Cons.prems, of p]] show ?case by simp
qed

lemma length_be32_concat: "length (concat (map be32_bytes st)) = 4 * length st"
  by (induction st) (simp_all add: be32_bytes_def)

lemma length_fips_sha256: "length (fips_sha256 m) = 32"
  by (simp add: fips_sha256_def length_be32_concat foldl_transform_fips [symmetric]
      length_digest [unfolded sha.digest_blocks_def] sha_iv_def)

section \<open>Properties\<close>

text \<open>C3: whatever the buffer held, feeding a message in any pieces and finalising gives the FIPS 180-4
  SHA-256 digest of the whole message (its length taken modulo \<open>2^61\<close> bytes, as the code's counter
  has it).\<close>

theorem sha256_incremental_correct:
  assumes "length buf0 = 64"
  shows "fst (sha_finalize (foldl sha_update (sha_init buf0) parts)) = fips_sha256 (concat parts)"
  using finalize_fips [OF foldl_update_abs [OF sha_abs_init [OF assms]]] by simp

lemma sha256_incremental_correct_witness:
  "fst (sha_finalize (foldl sha_update (sha_init (replicate 64 0xFF)) [[0x61], [], [0x62, 0x63]]))
     = fips_sha256 [0x61, 0x62, 0x63]"
  using sha256_incremental_correct [of "replicate 64 0xFF" "[[0x61], [], [0x62, 0x63]]"] by simp

text \<open>The seed check accepts exactly the SHA-256 digest of the seed's 16 bytes, high word first.\<close>

theorem verify_seed_iff_digest:
  assumes "length buf0 = 64" "length expected = 32"
  shows "verify_seed buf0 s expected \<longleftrightarrow>
    expected = fips_sha256 (to_le 8 (s_hi s) @ to_le 8 (s_lo s))"
proof -
  let ?d = "to_le 8 (s_hi s) @ to_le 8 (s_lo s)"
  have h: "fst (sha_finalize (sha_update (sha_init buf0) ?d)) = fips_sha256 ?d"
    using finalize_fips [OF sha_abs_update [OF sha_abs_init [OF assms(1)]]] by simp
  show ?thesis
    unfolding verify_seed_def Let_def h
    using assms(2) length_fips_sha256 [of ?d] by (auto simp: list_all_iff list_eq_iff_nth_eq)
qed

lemma verify_seed_iff_digest_witness:
  "verify_seed (replicate 64 0) \<lparr>s_hi = 1, s_lo = 2\<rparr> (fips_sha256 (to_le 8 (1 :: u64) @ to_le 8 (2 :: u64)))"
  using verify_seed_iff_digest [of "replicate 64 0" "fips_sha256 (to_le 8 (1 :: u64) @ to_le 8 (2 :: u64))"
      "\<lparr>s_hi = 1, s_lo = 2\<rparr>"]
  by (simp add: length_fips_sha256)

end
