(* ===== verification/BmtValue.thy ===== *)
theory BmtValue
  imports Value128
begin

text \<open>
  The value layer of the reference storage layout (\<open>src/vdev/bmt_topology.hpp\<close>): atoms with a two-bit
  check sum over their 52-bit upper and 64-bit lower payload, 13-byte payloads, the key derivation
  and the per-block lens keys. The header declares \<open>Value128\<close> and \<open>Seed\<close> anew with the fields of
  \<open>topology.hpp\<close> (the two are never compiled together), so the records are shared. The mixing rounds
  of key derivation, lens keys and block streams are instances of one locale of invertible rounds.
\<close>

unbundle bit_operations_syntax

section \<open>Atoms\<close>

definition bmt_route :: "value128 \<Rightarrow> u16" where
  "bmt_route v = ucast (drop_bit 54 (v_hi v)) AND LENS_MASK"

definition bmt_crc :: "value128 \<Rightarrow> u8" where
  "bmt_crc v = ucast (drop_bit 52 (v_hi v)) AND 0x03"

text \<open>The five folding steps of \<open>compute_crc\<close>.\<close>

definition crc_fold :: "u64 \<Rightarrow> u64" where
  "crc_fold f0 =
    (let f1 = f0 XOR drop_bit 32 f0; f2 = f1 XOR drop_bit 16 f1; f3 = f2 XOR drop_bit 8 f2;
         f4 = f3 XOR drop_bit 4 f3
     in f4 XOR drop_bit 2 f4)"

definition compute_crc :: "value128 \<Rightarrow> u8" where
  "compute_crc v =
    (let payload_hi = v_hi v AND 0x000FFFFFFFFFFFFF
     in ucast (crc_fold (payload_hi XOR v_lo v) AND 0x03))"

definition crc_valid :: "value128 \<Rightarrow> bool" where
  "crc_valid v \<longleftrightarrow> bmt_crc v = compute_crc v"

definition bmt_pack_route :: "value128 \<Rightarrow> u16 \<Rightarrow> value128" where
  "bmt_pack_route v r =
    (let v1 = v\<lparr>v_hi := v_hi v AND 0x000FFFFFFFFFFFFF\<rparr>;
         v2 = v1\<lparr>v_hi := v_hi v1 OR push_bit 54 (ucast (r AND LENS_MASK))\<rparr>;
         c = compute_crc v2
     in v2\<lparr>v_hi := v_hi v2 OR push_bit 52 (ucast (c AND 0x03))\<rparr>)"

definition bmt_get_payload :: "value128 \<Rightarrow> nat \<Rightarrow> u8 list" where
  "bmt_get_payload v max_bytes =
    take max_bytes (map (\<lambda>i. ucast (drop_bit (i * 8) (v_lo v))) [0..<8] @
                    map (\<lambda>i. ucast (drop_bit (i * 8) (v_hi v))) [0..<5])"

text \<open>\<open>for (i = 0; i < n && pos < len; i++, pos++) acc |= data[pos] << (i * 8)\<close>, from \<open>acc = 0\<close>.\<close>

definition or_bytes :: "nat \<Rightarrow> u8 list \<Rightarrow> u64" where
  "or_bytes n data =
    foldl (\<lambda>acc i. acc OR push_bit (i * 8) (ucast (data ! i))) 0 [0..<min n (length data)]"

definition bmt_set_payload :: "value128 \<Rightarrow> u8 list \<Rightarrow> value128" where
  "bmt_set_payload v data =
    (let top_bits = v_hi v AND 0xFFF0000000000000
     in \<lparr>v_hi = or_bytes 5 (drop 8 data) OR top_bits, v_lo = or_bytes 8 data\<rparr>)"

definition write_to :: "value128 \<Rightarrow> u8 list" where
  "write_to v = to_le 8 (v_lo v) @ to_le 8 (v_hi v)"

definition read_from :: "u8 list \<Rightarrow> value128" where
  "read_from buf = val128 (of_le (take 8 (drop 8 buf))) (of_le (take 8 buf))"

subsection \<open>Bits of an atom\<close>

lemma bit_three: "bit (3 :: 'a::len word) i \<longleftrightarrow> i < 2 \<and> i < LENGTH('a)"
proof -
  have eq: "(3 :: 'a word) = mask 2" by (simp add: mask_eq_exp_minus_1)
  show ?thesis unfolding eq by (auto simp: bit_mask_iff)
qed

lemma bit_top12: "bit (0xFFF0000000000000 :: u64) i \<longleftrightarrow> 52 \<le> i \<and> i < 64"
proof -
  have eq: "(0xFFF0000000000000 :: u64) = push_bit 52 (mask 12)"
    by (simp add: mask_eq_exp_minus_1 push_bit_eq_mult)
  show ?thesis unfolding eq by (auto simp: bit_ops)
qed

lemma bit_bmt_pack_route:
  "bit (v_hi (bmt_pack_route v r)) i \<longleftrightarrow>
     (i < 52 \<and> bit (v_hi v) i) \<or> (52 \<le> i \<and> i < 54 \<and> bit (compute_crc v) (i - 52)) \<or>
     (54 \<le> i \<and> i < 64 \<and> bit r (i - 54))"
proof -
  let ?v1 = "v\<lparr>v_hi := v_hi v AND 0x000FFFFFFFFFFFFF\<rparr>"
  let ?v2 = "?v1\<lparr>v_hi := v_hi ?v1 OR push_bit 54 (ucast (r AND LENS_MASK))\<rparr>"
  have "v_hi ?v2 AND 0x000FFFFFFFFFFFFF = v_hi v AND 0x000FFFFFFFFFFFFF"
    by (rule bit_word_eqI)
      (auto simp: bit_ops bit_mask52 bit_lens_mask simp del: bit_numeral_word_iff)
  then have c: "compute_crc ?v2 = compute_crc v"
    by (simp add: compute_crc_def Let_def)
  show ?thesis
    using bit_imp_le_length [of "v_hi v" i] bit_imp_le_length [of r "i - 54"]
      bit_imp_le_length [of "compute_crc v" "i - 52"]
    by (auto simp: bmt_pack_route_def Let_def c [simplified] bit_ops bit_mask52 bit_lens_mask bit_three
        simp del: bit_numeral_word_iff)
qed

lemma v_lo_bmt_pack_route [simp]: "v_lo (bmt_pack_route v r) = v_lo v"
  by (simp add: bmt_pack_route_def Let_def)

lemma bmt_route_pack [simp]: "bmt_route (bmt_pack_route v r) = r AND LENS_MASK"
  by (rule bit_word_eqI)
    (auto simp: bmt_route_def bit_ops bit_bmt_pack_route bit_lens_mask)

lemma compute_crc_pack [simp]: "compute_crc (bmt_pack_route v r) = compute_crc v"
proof -
  have "v_hi (bmt_pack_route v r) AND 0x000FFFFFFFFFFFFF = v_hi v AND 0x000FFFFFFFFFFFFF"
    by (rule bit_word_eqI)
      (auto simp: bit_ops bit_mask52 bit_bmt_pack_route simp del: bit_numeral_word_iff)
  then show ?thesis by (simp add: compute_crc_def)
qed

lemma compute_crc_small: "bit (compute_crc v) i \<Longrightarrow> i < 2"
  by (auto simp: compute_crc_def Let_def bit_ops bit_three simp del: bit_numeral_word_iff)

lemma bit_bmt_crc: "bit (bmt_crc v) i \<longleftrightarrow> i < 2 \<and> bit (v_hi v) (52 + i)"
  by (auto simp: bmt_crc_def bit_ops bit_three simp del: bit_numeral_word_iff)

lemma crc_valid_pack: "crc_valid (bmt_pack_route v r)"
  unfolding crc_valid_def
  by (rule bit_word_eqI) (auto simp: bit_bmt_crc bit_bmt_pack_route dest: compute_crc_small)

subsection \<open>Payloads\<close>

lemma get_payload_le: "bmt_get_payload v m = take m (to_le 8 (v_lo v) @ to_le 5 (v_hi v))"
proof -
  have "map (\<lambda>i. ucast (drop_bit (i * 8) w)) [0..<n] = to_le n w" for n and w :: u64
    by (rule nth_equalityI) (simp_all add: nth_to_le mult.commute)
  then show ?thesis by (simp only: bmt_get_payload_def)
qed

lemma bit_or_bytes:
  assumes "n \<le> 8"
  shows "bit (or_bytes n data) i \<longleftrightarrow> i div 8 < min n (length data) \<and> bit (data ! (i div 8)) (i mod 8)"
proof -
  have "bit (foldl (\<lambda>acc i. acc OR push_bit (i * 8) (ucast (data ! i))) (0 :: u64) [0..<k]) i \<longleftrightarrow>
      i div 8 < k \<and> bit (data ! (i div 8)) (i mod 8)" if "k \<le> 8" for k
    using that
  proof (induction k)
    case 0
    then show ?case by simp
  next
    case (Suc k)
    have here: "k * 8 \<le> i \<and> i - k * 8 < 8 \<longleftrightarrow> i div 8 = k"
      by (auto simp: div_nat_eqI less_diff_conv2 div_mult_mod_eq)
    have "i div 8 = k \<Longrightarrow> i - k * 8 = i mod 8" by (metis minus_div_mult_eq_mod)
    moreover have "i div 8 = k \<Longrightarrow> i < 64" using Suc.prems by (auto simp: div_less_iff_less_mult)
    ultimately show ?case
      using Suc here bit_imp_le_length [of "data ! k" "i - k * 8"]
      by (auto simp: bit_ops less_Suc_eq)
  qed
  from this [of "min n (length data)"] assms show ?thesis by (simp add: or_bytes_def)
qed

lemma or_bytes_of_le:
  assumes "n \<le> 8"
  shows "or_bytes n data = of_le (take n data)"
proof (rule bit_word_eqI)
  fix i assume "i < LENGTH(64)"
  then show "bit (or_bytes n data) i = bit (of_le (take n data) :: u64) i"
    using assms by (auto simp: bit_or_bytes bit_of_le_iff)
qed

lemma bit_set_payload_hi:
  "bit (v_hi (bmt_set_payload v data)) i \<longleftrightarrow>
     bit (or_bytes 5 (drop 8 data)) i \<or> (52 \<le> i \<and> i < 64 \<and> bit (v_hi v) i)"
  by (auto simp: bmt_set_payload_def Let_def bit_ops bit_top12 simp del: bit_numeral_word_iff)

lemma to_le_5_mask:
  assumes "\<And>i. i < 40 \<Longrightarrow> bit (w :: u64) i = bit (u :: u64) i"
  shows "to_le 5 w = to_le 5 u"
proof (rule nth_equalityI)
  fix i assume "i < length (to_le 5 w)"
  then have i: "i < 5" by simp
  show "to_le 5 w ! i = to_le 5 u ! i"
  proof (rule bit_word_eqI)
    fix k assume "k < LENGTH(8)"
    then show "bit (to_le 5 w ! i) k = bit (to_le 5 u ! i) k"
      using i assms by (auto simp: nth_to_le bit_ops)
  qed
qed simp

lemma to_le_of_le_pad:
  assumes "length bs \<le> n" "8 * n \<le> LENGTH('a)"
  shows "to_le n (of_le bs :: 'a::len word) = bs @ replicate (n - length bs) 0"
proof -
  have "of_le bs = (of_le (bs @ replicate (n - length bs) 0) :: 'a word)"
    by (rule bit_word_eqI) (auto simp: bit_of_le_iff nth_append)
  then show ?thesis using to_le_of_le [of "bs @ replicate (n - length bs) 0" n] assms by simp
qed

text \<open>Storing at most 13 bytes and packing a route: the payload reads back with zeros behind it.\<close>

lemma payload_roundtrip:
  assumes "length data \<le> 13"
  shows "bmt_get_payload (bmt_pack_route (bmt_set_payload v data) r) 13 =
    data @ replicate (13 - length data) 0"
proof -
  let ?v = "bmt_pack_route (bmt_set_payload v data) r"
  have lo: "to_le 8 (v_lo ?v) = take 8 data @ replicate (8 - length data) 0"
    using to_le_of_le_pad [of "take 8 data" 8, where 'a = 64]
    by (simp add: bmt_set_payload_def Let_def or_bytes_of_le)
  have "to_le 5 (v_hi ?v) = to_le 5 (or_bytes 5 (drop 8 data))"
    by (rule to_le_5_mask) (simp add: bit_bmt_pack_route bit_set_payload_hi)
  also have "\<dots> = drop 8 data @ replicate (5 - (length data - 8)) 0"
    using to_le_of_le_pad [of "drop 8 data" 5, where 'a = 64] assms
    by (simp add: or_bytes_of_le)
  finally have hi: "to_le 5 (v_hi ?v) = drop 8 data @ replicate (5 - (length data - 8)) 0" .
  show ?thesis
  proof (cases "length data \<le> 8")
    case True
    then have "replicate (8 - length data) (0 :: u8) @ replicate 5 0 = replicate (13 - length data) 0"
      by (simp add: replicate_add [symmetric])
    with True show ?thesis unfolding get_payload_le lo hi by simp
  next
    case False
    then have "5 - (length data - 8) = 13 - length data" using assms by simp
    moreover have "take 5 (drop 8 data) = drop 8 data" using assms by simp
    moreover have "take 8 data @ drop 8 data @ zs = data @ zs" for zs
      by (simp add: append_assoc [symmetric] del: append_assoc)
    ultimately show ?thesis using False unfolding get_payload_le lo hi by simp
  qed
qed

lemma read_from_write_to [simp]: "read_from (write_to v @ rest) = v"
  by (simp add: read_from_def write_to_def)

lemma length_write_to [simp]: "length (write_to v) = 16"
  by (simp add: write_to_def)

subsection \<open>What the check sum detects\<close>

lemma crc_fold_xor: "crc_fold (x XOR y) = crc_fold x XOR crc_fold y"
  by (simp add: crc_fold_def Let_def drop_bit_xor ac_simps)

text \<open>One folding step keeps a single bit single, at its position modulo the shift.\<close>

lemma fold_step_single:
  fixes x :: u64
  assumes "\<And>i. i < 2 * s \<Longrightarrow> bit x i \<longleftrightarrow> i = p" "p < 2 * s" "i < s"
  shows "bit (x XOR drop_bit s x) i \<longleftrightarrow> i = p mod s"
proof (cases "p < s")
  case True
  then show ?thesis using assms by (simp add: bit_ops)
next
  case False
  then have "p mod s = p - s" using assms(2) by (simp add: mod_if)
  with False show ?thesis using assms by (auto simp: bit_ops)
qed

lemma crc_fold_bit:
  assumes "k < 64"
  shows "crc_fold (push_bit k 1) AND 3 \<noteq> 0"
proof -
  define f1 f2 f3 f4 where "f1 = push_bit k 1 XOR drop_bit 32 (push_bit k 1 :: u64)"
    and "f2 = f1 XOR drop_bit 16 f1" and "f3 = f2 XOR drop_bit 8 f2" and "f4 = f3 XOR drop_bit 4 f3"
  note defs = f1_def f2_def f3_def f4_def
  have 1: "bit f1 i \<longleftrightarrow> i = k mod 32" if "i < 32" for i
    unfolding defs using that assms
    by (intro fold_step_single) (auto simp: bit_push_bit_iff bit_1_iff simp del: push_bit_of_1)
  have 2: "bit f2 i \<longleftrightarrow> i = k mod 32 mod 16" if "i < 16" for i
    unfolding f2_def using that 1 by (intro fold_step_single) auto
  have 3: "bit f3 i \<longleftrightarrow> i = k mod 32 mod 16 mod 8" if "i < 8" for i
    unfolding f3_def using that 2 by (intro fold_step_single) auto
  have 4: "bit f4 i \<longleftrightarrow> i = k mod 32 mod 16 mod 8 mod 4" if "i < 4" for i
    unfolding f4_def using that 3 by (intro fold_step_single) auto
  have 5: "bit (f4 XOR drop_bit 2 f4) i \<longleftrightarrow> i = k mod 32 mod 16 mod 8 mod 4 mod 2" if "i < 2" for i
    using that 4 by (intro fold_step_single) auto
  let ?j = "k mod 32 mod 16 mod 8 mod 4 mod 2"
  have "bit (crc_fold (push_bit k 1)) ?j"
    using 5 [of ?j] unfolding crc_fold_def Let_def defs by simp
  then have "bit (crc_fold (push_bit k 1) AND 3) ?j"
    by (simp only: bit_and_iff bit_three) simp
  then show ?thesis by (metis bit_0_eq bot_apply bot_bool_def)
qed

lemma xor_and_distrib: "(a XOR b) AND c = (a AND c) XOR (b AND c)" for a b c :: "'a::len word"
  by (rule bit_word_eqI) (auto simp: bit_ops)

lemma ucast_and3_inj: "ucast (x AND 3 :: u64) = (ucast (y AND 3) :: u8) \<Longrightarrow> x AND 3 = y AND 3"
proof (rule bit_word_eqI)
  fix i assume eq: "ucast (x AND 3) = (ucast (y AND 3) :: u8)" and "i < LENGTH(64)"
  then have "bit (ucast (x AND 3) :: u8) i = bit (ucast (y AND 3) :: u8) i" by simp
  then show "bit (x AND 3) i = bit (y AND 3) i"
    by (auto simp: bit_ops bit_three simp del: bit_numeral_word_iff)
qed

text \<open>Flipping one bit of the payload (bits 0 to 51 of the high word, all of the low word).\<close>

definition flip_hi :: "nat \<Rightarrow> value128 \<Rightarrow> value128" where
  "flip_hi k v = v\<lparr>v_hi := v_hi v XOR push_bit k 1\<rparr>"

definition flip_lo :: "nat \<Rightarrow> value128 \<Rightarrow> value128" where
  "flip_lo k v = v\<lparr>v_lo := v_lo v XOR push_bit k 1\<rparr>"

lemma compute_crc_changes:
  assumes "k < 64" "(v_hi w AND 0x000FFFFFFFFFFFFF) XOR v_lo w =
     ((v_hi v AND 0x000FFFFFFFFFFFFF) XOR v_lo v) XOR push_bit k 1"
  shows "compute_crc w \<noteq> compute_crc v"
proof
  assume "compute_crc w = compute_crc v"
  let ?x = "(v_hi v AND 0x000FFFFFFFFFFFFF) XOR v_lo v"
  have "ucast (crc_fold (?x XOR push_bit k 1) AND 3) = (ucast (crc_fold ?x AND 3) :: u8)"
    using \<open>compute_crc w = compute_crc v\<close> assms(2) by (simp add: compute_crc_def Let_def)
  then have "crc_fold (?x XOR push_bit k 1) AND 3 = crc_fold ?x AND 3" by (rule ucast_and3_inj)
  then have "(crc_fold ?x AND 3) XOR (crc_fold (push_bit k 1) AND 3) = crc_fold ?x AND 3"
    by (simp only: crc_fold_xor [of ?x] xor_and_distrib)
  then have "crc_fold (push_bit k 1) AND 3 = 0" by (metis xor_cancel_left xor_self_eq)
  with crc_fold_bit [OF assms(1)] show False by simp
qed

lemma crc_flips:
  assumes "crc_valid v"
  shows "k < 52 \<Longrightarrow> \<not> crc_valid (flip_hi k v)"
    and "k < 64 \<Longrightarrow> \<not> crc_valid (flip_lo k v)"
    and "54 \<le> k \<Longrightarrow> crc_valid (flip_hi k v)"
proof -
  have crc: "bmt_crc (flip_hi k v) = bmt_crc v" if "k < 52 \<or> 54 \<le> k" for k
    by (rule bit_word_eqI)
      (use that in \<open>auto simp: bit_bmt_crc flip_hi_def bit_ops bit_1_iff simp del: push_bit_of_1\<close>)
  show "\<not> crc_valid (flip_hi k v)" if "k < 52"
  proof -
    have "(v_hi v XOR push_bit k 1) AND 0x000FFFFFFFFFFFFF =
        (v_hi v AND 0x000FFFFFFFFFFFFF) XOR push_bit k 1"
      by (rule bit_word_eqI)
        (use that in \<open>auto simp: bit_ops bit_mask52 bit_1_iff simp del: bit_numeral_word_iff push_bit_of_1\<close>)
    then have "compute_crc (flip_hi k v) \<noteq> compute_crc v"
      using that by (intro compute_crc_changes [of k]) (simp_all add: flip_hi_def ac_simps)
    then show ?thesis using assms crc that by (simp add: crc_valid_def)
  qed
  show "\<not> crc_valid (flip_lo k v)" if "k < 64"
  proof -
    have "compute_crc (flip_lo k v) \<noteq> compute_crc v"
      using that by (intro compute_crc_changes [of k]) (simp_all add: flip_lo_def ac_simps)
    moreover have "bmt_crc (flip_lo k v) = bmt_crc v" by (simp add: bmt_crc_def flip_lo_def)
    ultimately show ?thesis using assms by (simp add: crc_valid_def)
  qed
  show "crc_valid (flip_hi k v)" if "54 \<le> k"
  proof -
    have "(v_hi v XOR push_bit k 1) AND 0x000FFFFFFFFFFFFF = v_hi v AND 0x000FFFFFFFFFFFFF"
      by (rule bit_word_eqI)
        (use that in \<open>auto simp: bit_ops bit_mask52 bit_1_iff simp del: bit_numeral_word_iff push_bit_of_1\<close>)
    then have "compute_crc (flip_hi k v) = compute_crc v"
      by (simp add: compute_crc_def flip_hi_def del: push_bit_of_1)
    then show ?thesis using assms crc that by (simp add: crc_valid_def)
  qed
qed

section \<open>Mixing rounds\<close>

text \<open>A round of the \<open>hi\<close>/\<open>lo\<close> mixers: rotate and fold in the other half, the second half with the
  first half's new value. Key derivation uses it with 31 and 29, the lens keys with 7 and 11, the
  block streams with 13 and 17.\<close>

type_synonym pair64 = "u64 \<times> u64"

definition mix_round :: "nat \<Rightarrow> nat \<Rightarrow> pair64 \<Rightarrow> pair64" where
  "mix_round a b = (\<lambda>(h, l).
     let h' = rot64 a h XOR (l * PHI_HI);
         l' = rot64 b l XOR (h' * PHI_LO)
     in (h', l'))"

definition unmix_round :: "nat \<Rightarrow> nat \<Rightarrow> pair64 \<Rightarrow> pair64" where
  "unmix_round a b = (\<lambda>(h', l').
     let l = word_rotr b (l' XOR (h' * PHI_LO)) in (word_rotr a (h' XOR (l * PHI_HI)), l))"

lemma unmix_mix_round:
  assumes "0 < a" "a < 64" "0 < b" "b < 64"
  shows "unmix_round a b (mix_round a b x) = x"
  using assms
  by (cases x) (simp add: mix_round_def unmix_round_def Let_def word_rotr_rot64)

text \<open>The contract of a round: another function undoes it. Any number of such rounds keeps every
  distinction between states.\<close>

locale invertible_round =
  fixes rnd :: "'s \<Rightarrow> 's" and unr :: "'s \<Rightarrow> 's"
  assumes unr_rnd: "unr (rnd x) = x"
begin

lemma unr_rnd_pow: "(unr ^^ n) ((rnd ^^ n) x) = x"
proof (induction n arbitrary: x)
  case 0
  show ?case by simp
next
  case (Suc n)
  have "(unr ^^ Suc n) ((rnd ^^ Suc n) x) = (unr ^^ n) (unr (rnd ((rnd ^^ n) x)))"
    by (simp add: funpow_swap1)
  with Suc show ?case by (simp add: unr_rnd)
qed

lemma rnd_pow_inj: "(rnd ^^ n) x = (rnd ^^ n) y \<longleftrightarrow> x = y"
  by (metis unr_rnd_pow)

end

interpretation kdf: invertible_round "mix_round 31 29" "unmix_round 31 29"
  by unfold_locales (simp add: unmix_mix_round)

interpretation stream: invertible_round "mix_round 13 17" "unmix_round 13 17"
  by unfold_locales (simp add: unmix_mix_round)

section \<open>Key derivation\<close>

definition KDF_ROUNDS :: nat where "KDF_ROUNDS = 250000"
definition KDF_MEM_BLOCKS :: nat where "KDF_MEM_BLOCKS = 1024"
definition KDF_MEM_PASSES :: nat where "KDF_MEM_PASSES = 4"

definition kdf_absorb :: "pair64 \<Rightarrow> u8 \<Rightarrow> pair64" where
  "kdf_absorb = (\<lambda>(h, l) c.
     ((h XOR ucast c) * 0x00000100000001B3, (l XOR ucast c) * 0x01000193))"

text \<open>The fill uses the previous cell's \<open>a\<close> in both halves, so it is not a \<open>mix_round\<close>.\<close>

definition kdf_fill_step :: "pair64 \<Rightarrow> pair64" where
  "kdf_fill_step = (\<lambda>(a, b). (rot64 13 a XOR (b * PHI_HI), rot64 17 b XOR (a * PHI_LO)))"

fun kdf_fill :: "nat \<Rightarrow> pair64 \<Rightarrow> pair64 list" where
  "kdf_fill 0 c = []"
| "kdf_fill (Suc n) c = c # kdf_fill n (kdf_fill_step c)"

definition kdf_walk_step :: "pair64 list \<times> pair64 \<Rightarrow> pair64 list \<times> pair64" where
  "kdf_walk_step = (\<lambda>(cells, (s_h, s_l)).
     let idx = unat s_h mod KDF_MEM_BLOCKS;
         (a, b) = cells ! idx;
         (s_h', s_l') = mix_round 31 29 (s_h XOR a, s_l XOR b)
     in (cells[idx := (a XOR s_h', b XOR s_l')], (s_h', s_l')))"

definition kdf_walk :: "pair64 list \<times> pair64 \<Rightarrow> pair64 list \<times> pair64" where
  "kdf_walk = ((kdf_walk_step ^^ KDF_MEM_BLOCKS) ^^ KDF_MEM_PASSES)"

definition kdf_compress :: "pair64 \<Rightarrow> pair64" where
  "kdf_compress = (mix_round 31 29 ^^ KDF_ROUNDS)"

definition kdf_derive :: "cstr \<Rightarrow> cstr \<Rightarrow> seed" where
  "kdf_derive password hwkey =
    (let st0 = foldl kdf_absorb (0xCBF29CE484222325, 0x00000100000001B3) password;
         st = foldl kdf_absorb st0 hwkey;
         (_, s) = kdf_walk (kdf_fill KDF_MEM_BLOCKS st, st);
         (h, l) = kdf_compress s
     in \<lparr>s_hi = h, s_lo = l\<rparr>)"

lemma length_kdf_fill [simp]: "length (kdf_fill n c) = n"
  by (induction n arbitrary: c) auto

lemma kdf_walk_step_length: "length (fst (kdf_walk_step x)) = length (fst x)"
  by (cases x) (auto simp: kdf_walk_step_def Let_def split: prod.splits)

text \<open>Every index of the walk is inside the buffer, and the buffer keeps its length.\<close>

lemma kdf_walk_in_bounds:
  assumes "length (fst x) = KDF_MEM_BLOCKS"
  shows "length (fst ((kdf_walk_step ^^ n) x)) = KDF_MEM_BLOCKS"
    and "unat (fst (snd ((kdf_walk_step ^^ n) x))) mod KDF_MEM_BLOCKS < length (fst ((kdf_walk_step ^^ n) x))"
proof -
  show *: "length (fst ((kdf_walk_step ^^ n) x)) = KDF_MEM_BLOCKS" for n
    by (induction n) (simp_all add: assms kdf_walk_step_length)
  show "unat (fst (snd ((kdf_walk_step ^^ n) x))) mod KDF_MEM_BLOCKS < length (fst ((kdf_walk_step ^^ n) x))"
    unfolding * by (simp add: KDF_MEM_BLOCKS_def)
qed

section \<open>Lens keys\<close>

definition lens_round :: "u64 \<Rightarrow> pair64 \<Rightarrow> pair64" where
  "lens_round i = (\<lambda>x. case mix_round 7 11 x of (h, l) \<Rightarrow> (h + i, l))"

definition lens_key :: "seed \<Rightarrow> nat \<Rightarrow> pair64" where
  "lens_key master i =
    (let i64 = word_of_nat i
     in (lens_round i64 ^^ 64) (s_hi master XOR i64, s_lo master XOR push_bit 32 i64))"

definition lens_generate :: "seed \<Rightarrow> pair64 list" where
  "lens_generate master = map (lens_key master) [0..<LENS_COUNT]"

definition unlens_round :: "u64 \<Rightarrow> pair64 \<Rightarrow> pair64" where
  "unlens_round i = (\<lambda>(h, l). unmix_round 7 11 (h - i, l))"

interpretation lens: invertible_round "lens_round i" "unlens_round i" for i
proof unfold_locales
  show "unlens_round i (lens_round i x) = x" for x
    using unmix_mix_round [of 7 11 x]
    by (cases "mix_round 7 11 x") (simp add: lens_round_def unlens_round_def)
qed

lemma lens_key_inj: "lens_key m i = lens_key m' i \<longleftrightarrow> m = m'"
proof
  assume "lens_key m i = lens_key m' i"
  then have "s_hi m XOR word_of_nat i = s_hi m' XOR word_of_nat i"
    "s_lo m XOR push_bit 32 (word_of_nat i) = s_lo m' XOR push_bit 32 (word_of_nat i)"
    by (simp_all add: lens_key_def Let_def lens.rnd_pow_inj)
  then show "m = m'" by (metis seed.equality xor_cancel_right old.unit.exhaust)
qed simp

section \<open>Properties\<close>

text \<open>An atom with a valid check sum stops being valid when any single payload bit flips (the low
  52 bits of the high word or any bit of the low word); a flip in the 10 route bits is never noticed,
  since the check sum does not cover the route.\<close>
theorem crc_detects_single_payload_flip:
  assumes "crc_valid v"
  shows "(\<forall>k. k < 52 \<longrightarrow> \<not> crc_valid (flip_hi k v)) \<and>
    (\<forall>k. k < 64 \<longrightarrow> \<not> crc_valid (flip_lo k v)) \<and>
    (\<forall>k. 54 \<le> k \<longrightarrow> crc_valid (flip_hi k v))"
  using crc_flips [OF assms] by blast

lemma crc_detects_single_payload_flip_witness:
  "\<not> crc_valid (flip_hi 5 (bmt_pack_route (val128 1 2) 7)) \<and>
   \<not> crc_valid (flip_lo 63 (bmt_pack_route (val128 1 2) 7)) \<and>
   crc_valid (flip_hi 60 (bmt_pack_route (val128 1 2) 7))"
  using crc_detects_single_payload_flip [OF crc_valid_pack [of "val128 1 2" 7]] by simp

text \<open>Storing at most 13 bytes in an atom and packing any route: the check sum is valid, the route
  reads back (its low ten bits), and the payload reads back with zero bytes behind it.\<close>
theorem atom_payload_roundtrip:
  assumes "length data \<le> 13"
  shows "crc_valid (bmt_pack_route (bmt_set_payload v data) r) \<and>
    bmt_route (bmt_pack_route (bmt_set_payload v data) r) = r AND LENS_MASK \<and>
    bmt_get_payload (bmt_pack_route (bmt_set_payload v data) r) 13 =
      data @ replicate (13 - length data) 0"
  using payload_roundtrip [OF assms] by (simp add: crc_valid_pack)

lemma atom_payload_roundtrip_witness:
  "bmt_get_payload (bmt_pack_route (bmt_set_payload (val128 0 0) [1, 2, 3]) 5) 13 =
    [1, 2, 3] @ replicate 10 0"
  using atom_payload_roundtrip [of "[1, 2, 3]" "val128 0 0" 5] by simp

text \<open>The final compression of the key derivation loses nothing: 250000 rounds are undone by 250000
  inverse rounds, so two walk states give the same seed only if they are equal.\<close>
theorem kdf_compress_lossless:
  "(unmix_round 31 29 ^^ KDF_ROUNDS) (kdf_compress s) = s \<and>
   (kdf_compress s = kdf_compress t \<longleftrightarrow> s = t)"
  by (simp add: kdf_compress_def kdf.unr_rnd_pow kdf.rnd_pow_inj)

text \<open>The derived seed depends on the password and the hardware key only through their
  concatenation: characters move freely between the two.\<close>
theorem kdf_boundary_ambiguous:
  "kdf_derive (p @ x) h = kdf_derive p (x @ h)"
  by (simp add: kdf_derive_def)

text \<open>For every lens, two master seeds give the same lens key only if they are equal,
  for each of the 1024 entries of the key table.\<close>
theorem lens_keys_separate_masters:
  assumes "i < length (lens_generate m)"
  shows "i < LENS_COUNT \<and> (lens_generate m ! i = lens_generate m' ! i \<longleftrightarrow> m = m')"
  using assms by (simp add: lens_key_inj lens_generate_def)

lemma lens_keys_separate_masters_witness:
  "lens_generate \<lparr>s_hi = 1, s_lo = 2\<rparr> ! 5 \<noteq> lens_generate \<lparr>s_hi = 1, s_lo = 3\<rparr> ! 5"
  using lens_keys_separate_masters [of 5 "\<lparr>s_hi = 1, s_lo = 2\<rparr>" "\<lparr>s_hi = 1, s_lo = 3\<rparr>"]
  by (simp add: lens_generate_def LENS_COUNT_def)

end
