(* ===== verification/BmtTopology.thy ===== *)
theory BmtTopology
  imports BmtValue
begin

text \<open>
  The reference storage topology (\<open>class Topology\<close> of \<open>src/vdev/bmt_topology.hpp\<close>): a root block and
  1024 level-1 blocks of 1024 atoms, data written along the routes of a block and across chains of
  blocks, and the obfuscated image. A \<open>unique_ptr<Block>\<close> is an \<open>option\<close>; the stream a file gives is a
  byte list, and a read past its end fails as \<open>fread\<close> does. Reads and writes return the bytes they
  move and the count the code returns.
\<close>

unbundle bit_operations_syntax

section \<open>Blocks\<close>

type_synonym block = "value128 list"

definition ENTRIES_PER_BLOCK :: nat where "ENTRIES_PER_BLOCK = 1024"
definition PAYLOAD_BYTES_PER_HOP :: nat where "PAYLOAD_BYTES_PER_HOP = 13"
definition BLOCK_SIZE_BYTES :: nat where "BLOCK_SIZE_BYTES = ENTRIES_PER_BLOCK * 16"
definition BYTES_PER_BLOCK :: nat where "BYTES_PER_BLOCK = ENTRIES_PER_BLOCK * PAYLOAD_BYTES_PER_HOP"

lemmas block_consts = ENTRIES_PER_BLOCK_def PAYLOAD_BYTES_PER_HOP_def BLOCK_SIZE_BYTES_def
  BYTES_PER_BLOCK_def LENS_COUNT_def

definition fresh_block :: block where
  "fresh_block = replicate ENTRIES_PER_BLOCK (bmt_pack_route (val128 0 0) FREE_ROUTE)"

definition serialize :: "block \<Rightarrow> u8 list" where
  "serialize b = concat (map write_to b)"

definition deserialize :: "u8 list \<Rightarrow> block" where
  "deserialize buf = map (\<lambda>i. read_from (take 16 (drop (i * 16) buf))) [0..<ENTRIES_PER_BLOCK]"

record bmt_topology =
  bt_seed :: seed
  bt_lens_keys :: "pair64 list"
  bt_root :: block
  bt_level1 :: "block option list"
  bt_dirty :: bool

text \<open>The constructor leaves \<open>seed_\<close> and \<open>lens_keys_\<close> as they were in memory: parameters.\<close>

definition bmt_new :: "seed \<Rightarrow> pair64 list \<Rightarrow> bmt_topology" where
  "bmt_new s ks = \<lparr>bt_seed = s, bt_lens_keys = ks, bt_root = fresh_block,
     bt_level1 = replicate LENS_COUNT None, bt_dirty = False\<rparr>"

fun expand_entries :: "nat \<Rightarrow> pair64 \<Rightarrow> block" where
  "expand_entries 0 s = []"
| "expand_entries (Suc n) s =
    (let s' = mix_round 13 17 s
     in bmt_pack_route (val128 (fst s') (snd s')) FREE_ROUTE # expand_entries n s')"

definition expand_block :: "nat \<Rightarrow> bmt_topology \<Rightarrow> bmt_topology" where
  "expand_block i t = t\<lparr>bt_level1 := (bt_level1 t)
     [i := Some (expand_entries ENTRIES_PER_BLOCK (bt_lens_keys t ! i))]\<rparr>"

definition bmt_initialize :: "seed \<Rightarrow> bmt_topology \<Rightarrow> bmt_topology" where
  "bmt_initialize s t =
    (let t1 = t\<lparr>bt_seed := s, bt_lens_keys := lens_generate s, bt_root := fresh_block\<rparr>;
         t2 = fold expand_block [0..<LENS_COUNT] t1
     in t2\<lparr>bt_dirty := True\<rparr>)"

subsection \<open>Data in one block\<close>

function write_loop :: "u8 list \<Rightarrow> nat \<Rightarrow> nat \<Rightarrow> block \<Rightarrow> block \<times> nat \<times> nat" where
  "write_loop data written entry b =
    (if written < length data \<and> entry < ENTRIES_PER_BLOCK then
       let chunk = min PAYLOAD_BYTES_PER_HOP (length data - written);
           v = bmt_set_payload (b ! entry) (take chunk (drop written data));
           v' = (if written + chunk < length data \<and> entry + 1 < ENTRIES_PER_BLOCK
                 then bmt_pack_route v (word_of_nat (entry + 1))
                 else bmt_pack_route v HALT_ROUTE)
       in write_loop data (written + chunk) (entry + 1) (b[entry := v'])
     else (b, written, entry))"
  by pat_completeness auto
termination
  by (relation "measure (\<lambda>(data, written, entry, b). ENTRIES_PER_BLOCK - entry)") auto

declare write_loop.simps [simp del]

definition free_from :: "nat \<Rightarrow> block \<Rightarrow> block" where
  "free_from entry b = take entry b @ map (\<lambda>v. bmt_pack_route v FREE_ROUTE) (drop entry b)"

definition write_block_data :: "u16 \<Rightarrow> u8 list \<Rightarrow> bmt_topology \<Rightarrow> bmt_topology \<times> nat" where
  "write_block_data idx data t =
    (if LENS_COUNT \<le> unat idx then (t, 0)
     else case bt_level1 t ! unat idx of
       None \<Rightarrow> (t, 0)
     | Some b \<Rightarrow>
         let (b', written, entry) = write_loop data 0 0 b
         in (t\<lparr>bt_level1 := (bt_level1 t)[unat idx := Some (free_from entry b')],
               bt_dirty := True\<rparr>, written))"

function read_loop :: "block \<Rightarrow> nat \<Rightarrow> u8 list \<Rightarrow> nat \<Rightarrow> u8 list" where
  "read_loop b max_len out entry =
    (if length out < max_len \<and> entry < ENTRIES_PER_BLOCK then
       let v = b ! entry;
           r = bmt_route v;
           payload = bmt_get_payload v PAYLOAD_BYTES_PER_HOP;
           cp = min (length payload) (max_len - length out);
           out' = out @ take cp payload
       in if r = HALT_ROUTE \<or> r = FREE_ROUTE then out'
          else if unat r < ENTRIES_PER_BLOCK then read_loop b max_len out' (unat r) else out'
     else out)"
  by pat_completeness auto
termination
  by (relation "measure (\<lambda>(b, max_len, out, entry). max_len - length out)")
    (auto simp: bmt_get_payload_def PAYLOAD_BYTES_PER_HOP_def)

declare read_loop.simps [simp del]

definition read_block_data :: "u16 \<Rightarrow> nat \<Rightarrow> bmt_topology \<Rightarrow> u8 list" where
  "read_block_data idx max_len t =
    (if LENS_COUNT \<le> unat idx then []
     else case bt_level1 t ! unat idx of None \<Rightarrow> [] | Some b \<Rightarrow> read_loop b max_len [] 0)"

subsection \<open>Chains of blocks\<close>

fun write_chain_from :: "nat \<Rightarrow> u16 list \<Rightarrow> u8 list \<Rightarrow> bmt_topology \<Rightarrow> bmt_topology \<times> nat" where
  "write_chain_from written [] data t = (t, written)"
| "write_chain_from written (b # bs) data t =
    (if written < length data then
       let to_write = min BYTES_PER_BLOCK (length data - written);
           (t', w) = write_block_data b (take to_write (drop written data)) t
       in write_chain_from (written + w) bs data t'
     else (t, written))"

definition bmt_write_chain :: "u16 list \<Rightarrow> u8 list \<Rightarrow> bmt_topology \<Rightarrow> bmt_topology \<times> nat" where
  "bmt_write_chain = write_chain_from 0"

fun read_chain_from :: "u8 list \<Rightarrow> u16 list \<Rightarrow> nat \<Rightarrow> bmt_topology \<Rightarrow> u8 list" where
  "read_chain_from out [] max_len t = out"
| "read_chain_from out (b # bs) max_len t =
    (if length out < max_len then
       let r = read_block_data b (max_len - length out) t;
           out' = out @ r
       in if length r < BYTES_PER_BLOCK then out' else read_chain_from out' bs max_len t
     else out)"

definition bmt_read_chain :: "u16 list \<Rightarrow> nat \<Rightarrow> bmt_topology \<Rightarrow> u8 list" where
  "bmt_read_chain = read_chain_from []"

definition clear_block :: "u16 \<Rightarrow> bmt_topology \<Rightarrow> bmt_topology" where
  "clear_block idx t =
    (if unat idx < LENS_COUNT then
       (case bt_level1 t ! unat idx of None \<Rightarrow> t
        | Some b \<Rightarrow> t\<lparr>bt_level1 := (bt_level1 t)[unat idx := Some (free_from 0 b)]\<rparr>)
     else t)"

definition clear_blocks :: "u16 list \<Rightarrow> bmt_topology \<Rightarrow> bmt_topology" where
  "clear_blocks idxs t = (fold clear_block idxs t)\<lparr>bt_dirty := True\<rparr>"

definition write_chain1 :: "u16 \<Rightarrow> u8 list \<Rightarrow> bmt_topology \<Rightarrow> bmt_topology \<times> nat" where
  "write_chain1 idx = bmt_write_chain [idx]"

definition read_chain1 :: "u16 \<Rightarrow> nat \<Rightarrow> bmt_topology \<Rightarrow> u8 list" where
  "read_chain1 idx = bmt_read_chain [idx]"

section \<open>Images\<close>

function obfuscate_from :: "pair64 \<Rightarrow> u8 list \<Rightarrow> u8 list" where
  "obfuscate_from s data =
    (if data = [] then []
     else let s' = mix_round 13 17 s; sl = snd s'; rem = min 8 (length data)
          in map (\<lambda>j. data ! j XOR ucast (drop_bit (j * 8) sl)) [0..<rem] @
             obfuscate_from s' (drop 8 data))"
  by pat_completeness auto
termination by (relation "measure (\<lambda>(s, data). length data)") auto

declare obfuscate_from.simps [simp del]

definition obfuscate :: "u8 list \<Rightarrow> seed \<Rightarrow> u64 \<Rightarrow> u8 list" where
  "obfuscate data s bi = obfuscate_from (s_hi s XOR (bi * PHI_HI), s_lo s XOR (bi * PHI_LO)) data"

definition image_tag :: "seed \<Rightarrow> u64" where
  "image_tag s = s_hi s XOR s_lo s XOR 0xA5A5A5A5A5A5A5A5"

definition save_image :: "bmt_topology \<Rightarrow> u8 list" where
  "save_image t =
    to_le 8 (image_tag (bt_seed t)) @ to_le 8 (4 :: u64) @
    obfuscate (serialize (bt_root t)) (bt_seed t) 0 @
    concat (map (\<lambda>i. let buf = (case bt_level1 t ! i of Some b \<Rightarrow> serialize b
                                 | None \<Rightarrow> replicate BLOCK_SIZE_BYTES 0)
                     in obfuscate buf (bt_seed t) (word_of_nat (i + 1))) [0..<LENS_COUNT])"

definition fread :: "nat \<Rightarrow> u8 list \<Rightarrow> (u8 list \<times> u8 list) option" where
  "fread n file = (if n \<le> length file then Some (take n file, drop n file) else None)"

text \<open>The loop over the level-1 blocks, \<open>k\<close> of them left; a short file keeps what was loaded.\<close>

fun load_blocks :: "nat \<Rightarrow> u8 list \<Rightarrow> bmt_topology \<Rightarrow> bmt_topology \<times> bool" where
  "load_blocks 0 file t = (t\<lparr>bt_dirty := False\<rparr>, True)"
| "load_blocks (Suc k) file t =
    (let i = LENS_COUNT - Suc k
     in case fread BLOCK_SIZE_BYTES file of
          None \<Rightarrow> (t, False)
        | Some (buf, file') \<Rightarrow>
            load_blocks k file'
              (t\<lparr>bt_level1 := (bt_level1 t)
                [i := Some (deserialize (obfuscate buf (bt_seed t) (word_of_nat (i + 1))))]\<rparr>))"

text \<open>\<open>None\<close> is a file that does not open.\<close>

definition load_image :: "u8 list option \<Rightarrow> seed \<Rightarrow> bmt_topology \<Rightarrow> bmt_topology \<times> bool" where
  "load_image f s t =
    (case f of None \<Rightarrow> (t, False)
     | Some file \<Rightarrow>
         let t1 = t\<lparr>bt_seed := s, bt_lens_keys := lens_generate s\<rparr>
         in case fread 8 file of None \<Rightarrow> (t1, False)
            | Some (tag, file1) \<Rightarrow>
         (case fread 8 file1 of None \<Rightarrow> (t1, False)
            | Some (ver, file2) \<Rightarrow>
         if of_le tag \<noteq> image_tag s then (t1, False)
         else case fread BLOCK_SIZE_BYTES file2 of None \<Rightarrow> (t1, False)
            | Some (buf, file3) \<Rightarrow>
                load_blocks LENS_COUNT file3
                  (t1\<lparr>bt_root := deserialize (obfuscate buf s 0),
                      bt_level1 := take LENS_COUNT (bt_level1 t1) @
                        replicate (LENS_COUNT - length (bt_level1 t1)) None\<rparr>)))"

section \<open>Writing and reading one block\<close>

text \<open>What the write loop leaves in entry \<open>e\<close>: the \<open>e\<close>-th 13-byte piece, with the route to the next
  entry, or \<open>HALT_ROUTE\<close> at the last piece and in the last entry.\<close>

definition piece :: "u8 list \<Rightarrow> nat \<Rightarrow> u8 list" where
  "piece data e = take 13 (drop (13 * e) data)"

definition entry_for :: "u8 list \<Rightarrow> nat \<Rightarrow> value128 \<Rightarrow> value128" where
  "entry_for data e v = bmt_pack_route (bmt_set_payload v (piece data e))
     (if 13 * Suc e < length data \<and> Suc e < 1024 then word_of_nat (Suc e) else HALT_ROUTE)"

definition pieces :: "u8 list \<Rightarrow> nat" where
  "pieces data = (length data + 12) div 13"

lemma less_pieces: "e < pieces data \<longleftrightarrow> 13 * e < length data"
  by (auto simp: pieces_def)

lemma map_no_entry:
  assumes "length b = 1024" "\<And>e. e < 1024 \<Longrightarrow> \<not> Q e"
  shows "map (\<lambda>e. if Q e then f e else b ! e) [0..<1024] = b"
  using assms by (intro nth_equalityI) simp_all

lemma write_loop_end:
  assumes "\<not> (13 * entry < length data \<and> entry < 1024)" "written = min (13 * entry) (length data)"
  shows "write_loop data written entry b = (b, written, entry)"
proof -
  have nc: "\<not> (written < length data \<and> entry < ENTRIES_PER_BLOCK)" using assms by (auto simp: block_consts)
  show ?thesis by (subst write_loop.simps) (rule if_not_P [OF nc])
qed

lemma write_loop_step:
  assumes "13 * entry < length data" "entry < 1024"
  shows "write_loop data (13 * entry) entry b =
    write_loop data (min (13 * Suc entry) (length data)) (Suc entry) (b[entry := entry_for data entry (b ! entry)])"
proof -
  have chunk: "take (min 13 (length data - 13 * entry)) (drop (13 * entry) data) = piece data entry"
    by (simp add: piece_def min_def)
  have nxt: "13 * entry + min 13 (length data - 13 * entry) = min (13 + 13 * entry) (length data)"
    using assms by auto
  have more: "min (13 + 13 * entry) (length data) < length data \<longleftrightarrow> 13 + 13 * entry < length data"
    by auto
  show ?thesis
    unfolding write_loop.simps [of data "13 * entry" entry b]
    using assms by (simp add: block_consts Let_def chunk nxt more entry_for_def)
qed

lemma write_loop_result:
  assumes "entry \<le> 1024" "length b = 1024" "entry \<le> pieces data"
  shows "write_loop data (min (13 * entry) (length data)) entry b =
    (map (\<lambda>e. if entry \<le> e \<and> e < pieces data then entry_for data e (b ! e) else b ! e) [0..<1024],
     min (13 * min 1024 (pieces data)) (length data), min 1024 (pieces data))"
  using assms
proof (induction "1024 - entry" arbitrary: entry b)
  case (0 entry b)
  then have e: "entry = 1024" by simp
  show ?case using 0 e by (simp add: write_loop_end map_no_entry)
next
  case (Suc k entry b)
  show ?case
  proof (cases "13 * entry < length data")
    case True
    let ?v = "entry_for data entry (b ! entry)"
    have "entry < 1024" "Suc entry \<le> pieces data" using True Suc.hyps(2) by (simp_all add: Suc_le_eq less_pieces)
    then have "write_loop data (min (13 * entry) (length data)) entry b =
        write_loop data (min (13 * Suc entry) (length data)) (Suc entry) (b[entry := ?v])"
      using write_loop_step [OF True, of b] True by (simp add: min.absorb1)
    also note Suc.hyps(1) [of "Suc entry" "b[entry := ?v]"]
    also have "map (\<lambda>e. if Suc entry \<le> e \<and> e < pieces data
          then entry_for data e (b[entry := ?v] ! e) else b[entry := ?v] ! e) [0..<1024] =
        map (\<lambda>e. if entry \<le> e \<and> e < pieces data then entry_for data e (b ! e) else b ! e) [0..<1024]"
      using True Suc.prems Suc.hyps(2) by (auto simp: nth_list_update less_pieces Suc_le_eq dest: antisym)
    finally show ?thesis using \<open>Suc entry \<le> pieces data\<close> Suc.hyps(2) Suc.prems by simp
  next
    case False
    then have "entry = pieces data" using Suc.prems less_pieces [of entry data] by auto
    then show ?thesis using False Suc.prems by (simp add: write_loop_end map_no_entry)
  qed
qed

text \<open>The data with zero bytes up to a whole number of 13-byte pieces, which is what entries store.\<close>

definition padded :: "u8 list \<Rightarrow> u8 list" where
  "padded data = data @ replicate (13 * pieces data - length data) 0"

lemma length_padded: "length (padded data) = 13 * pieces data"
  by (auto simp: padded_def pieces_def)

lemma piece_padded:
  assumes "e < pieces data"
  shows "bmt_get_payload (entry_for data e v) 13 = take 13 (drop (13 * e) (padded data))"
proof -
  have less: "13 * e < length data" using assms by (simp add: less_pieces)
  have "bmt_get_payload (entry_for data e v) 13 = piece data e @ replicate (13 - length (piece data e)) 0"
    unfolding entry_for_def by (rule payload_roundtrip) (simp add: piece_def)
  moreover have "take 13 (drop (13 * e) (padded data)) =
      piece data e @ take (13 - length (piece data e)) (replicate (13 * pieces data - length data) 0)"
    using less by (simp add: padded_def piece_def min_def)
  moreover have "13 - length (piece data e) \<le> 13 * pieces data - length data"
  proof -
    have "13 * Suc e \<le> 13 * pieces data" using assms by simp
    then show ?thesis using less by (simp add: piece_def)
  qed
  ultimately show ?thesis by simp
qed

lemma route_entry_for:
  "bmt_route (entry_for data e v) =
    (if 13 * Suc e < length data \<and> Suc e < 1024 then word_of_nat (Suc e) else HALT_ROUTE)"
proof -
  have "word_of_nat (Suc e) AND LENS_MASK = (word_of_nat (Suc e) :: u16)" if "Suc e < 1024"
  proof -
    have "take_bit 10 (word_of_nat (Suc e) :: u16) = word_of_nat (Suc e)"
      using that by (simp add: word_unat_eq_iff unsigned_take_bit_eq unsigned_of_nat
          take_bit_nat_eq_self del: of_nat_Suc)
    then show ?thesis
      by (simp add: LENS_MASK_def take_bit_eq_mask mask_eq_exp_minus_1)
  qed
  then show ?thesis by (simp add: entry_for_def HALT_ROUTE_def LENS_MASK_def)
qed

lemma take_extend:
  assumes "a \<le> m"
  shows "take a xs @ take (min k (m - a)) (take k (drop a xs)) = take (min m (a + k)) xs"
proof -
  have "min m (a + k) = a + min k (m - a)" using assms by auto
  then show ?thesis by (simp add: take_add min_def)
qed

lemma unat_bmt_route: "unat (bmt_route v) < 1024"
proof -
  have "bmt_route v \<le> LENS_MASK" unfolding bmt_route_def by (rule word_and_le1)
  then show ?thesis by (simp add: word_le_nat_alt LENS_MASK_def)
qed

lemma read_loop_step:
  assumes "e < 1024" "13 * e < m" "e < pieces data" "b ! e = entry_for data e v"
  shows "read_loop b m (take (13 * e) (padded data)) e =
    (let out = take (min m (13 * Suc e)) (padded data); r = bmt_route (b ! e)
     in if r = HALT_ROUTE \<or> r = FREE_ROUTE then out else read_loop b m out (unat r))"
proof -
  have len: "length (take (13 * e) (padded data)) = 13 * e" using assms by (simp add: length_padded)
  have pay: "bmt_get_payload (b ! e) 13 = take 13 (drop (13 * e) (padded data))"
    using assms by (simp add: piece_padded)
  have plen: "length (take 13 (drop (13 * e) (padded data))) = 13" using assms by (simp add: length_padded)
  have out: "take (13 * e) (padded data) @ take (min 13 (m - 13 * e)) (take 13 (drop (13 * e) (padded data)))
      = take (min m (13 * Suc e)) (padded data)"
    using take_extend [where a = "13 * e" and m = m and k = 13 and xs = "padded data"] assms by (simp add: add.commute)

  show ?thesis
    unfolding read_loop.simps [of b m "take (13 * e) (padded data)" e] Let_def
      PAYLOAD_BYTES_PER_HOP_def len pay plen out
    using unat_bmt_route [of "b ! e"] assms by (simp add: block_consts)
qed

text \<open>Reading what was written. The route of entry 1020 to entry 1021 is the number \<open>FREE_ROUTE\<close>, at which
  the read loop stops, so no read gives more than 1021 pieces.\<close>

lemma read_loop_written:
  assumes "\<And>i. i < min 1024 (pieces data) \<Longrightarrow> b ! i = entry_for data i (w i)"
    "e \<le> 1020" "13 * e < m" "e < pieces data"
  shows "read_loop b m (take (13 * e) (padded data)) e = take (min m 13273) (padded data)"
  using assms(2-)
proof (induction "1020 - e" arbitrary: e)
  case (0 e)
  then have e: "e = 1020" by simp
  have "bmt_route (b ! e) = HALT_ROUTE \<or> bmt_route (b ! e) = FREE_ROUTE"
    using 0 e assms(1) [of e] by (simp add: route_entry_for FREE_ROUTE_def)
  then show ?case
    using read_loop_step [of e m data b "w e"] 0 e assms(1) [of e] by (simp add: Let_def)
next
  case (Suc k e)
  then have e: "e < 1020" by simp
  have be: "b ! e = entry_for data e (w e)" using Suc e assms(1) [of e] by simp
  note step = read_loop_step [of e m data b "w e", OF _ Suc.prems(2,3) be]
  show ?case
  proof (cases "13 * Suc e < length data")
    case False
    then have "length (padded data) \<le> 13 * Suc e"
      using Suc.prems(3) less_pieces [of "Suc e" data] by (simp add: length_padded)
    moreover have "bmt_route (b ! e) = HALT_ROUTE" using False by (simp add: be route_entry_for)
    ultimately show ?thesis using step e by (simp add: Let_def take_take [symmetric] del: take_take)
  next
    case True
    have r: "bmt_route (b ! e) = word_of_nat (Suc e)" using True e by (simp add: be route_entry_for)
    have u: "unat (word_of_nat (Suc e) :: u16) = Suc e"
      using e by (simp add: unsigned_of_nat take_bit_nat_eq_self del: of_nat_Suc)
    then have "word_of_nat (Suc e) \<noteq> HALT_ROUTE" "word_of_nat (Suc e) \<noteq> FREE_ROUTE"
      using e by (auto simp: HALT_ROUTE_def FREE_ROUTE_def word_unat_eq_iff simp del: of_nat_Suc)
    then have step': "read_loop b m (take (13 * e) (padded data)) e =
        read_loop b m (take (min m (13 * Suc e)) (padded data)) (Suc e)"
      using step e r u by (simp add: Let_def del: of_nat_Suc)
    show ?thesis
    proof (cases "13 * Suc e < m")
      case more: True
      have "read_loop b m (take (13 * Suc e) (padded data)) (Suc e) = take (min m 13273) (padded data)"
        by (rule Suc.hyps(1)) (use Suc.hyps(2) e more True in \<open>auto simp: less_pieces\<close>)
      with step' more show ?thesis by (simp add: min_def)
    next
      case stop: False
      have len: "length (take (min m (13 * Suc e)) (padded data)) = m"
        using less_pieces [of "Suc e" data] True stop by (simp add: length_padded min_def)
      have "read_loop b m (take (min m (13 * Suc e)) (padded data)) (Suc e) =
          take (min m (13 * Suc e)) (padded data)"
        by (subst read_loop.simps) (simp only: len less_irrefl simp_thms if_False)
      then show ?thesis using step' stop e by (simp add: min_def)
    qed
  qed
qed

subsection \<open>Blocks of a topology\<close>

text \<open>Well-formed: every block is there and has its 1024 entries.\<close>

definition bmt_wf :: "bmt_topology \<Rightarrow> bool" where
  "bmt_wf t \<longleftrightarrow> length (bt_root t) = 1024 \<and> length (bt_level1 t) = 1024 \<and>
     list_all (\<lambda>b. case b of None \<Rightarrow> False | Some bl \<Rightarrow> length bl = 1024) (bt_level1 t) \<and>
     bt_lens_keys t = lens_generate (bt_seed t)"

lemma bmt_wf_nth:
  assumes "bmt_wf t" "i < 1024"
  obtains b where "bt_level1 t ! i = Some b" "length b = 1024"
  using assms by (auto simp: bmt_wf_def list_all_length split: option.splits)

lemma length_free_from [simp]: "length (free_from n b) = length b"
  by (simp add: free_from_def)

lemma bmt_wf_update:
  assumes "bmt_wf t" "length b = 1024"
  shows "bmt_wf (t\<lparr>bt_level1 := (bt_level1 t)[i := Some b]\<rparr>)"
  using assms by (cases "i < 1024") (auto simp: bmt_wf_def list_all_length nth_list_update)

lemma bmt_wf_dirty [simp]: "bmt_wf (t\<lparr>bt_dirty := d\<rparr>) = bmt_wf t"
  by (simp add: bmt_wf_def)

lemma write_block_eq:
  assumes "unat idx < 1024" "bt_level1 t ! unat idx = Some b" "length b = 1024"
  shows "write_block_data idx data t =
    (t\<lparr>bt_level1 := (bt_level1 t)[unat idx := Some (free_from (min 1024 (pieces data))
        (map (\<lambda>e. if e < pieces data then entry_for data e (b ! e) else b ! e) [0..<1024]))],
      bt_dirty := True\<rparr>, min 13312 (length data))"
proof -
  have "min (13 * min 1024 (pieces data)) (length data) = min 13312 (length data)"
    by (auto simp: pieces_def min_def)
  with assms show ?thesis
    by (simp add: write_block_data_def block_consts write_loop_result [of 0, simplified])
qed

lemma write_block_wf:
  assumes "bmt_wf t" shows "bmt_wf (fst (write_block_data idx data t))"
proof (cases "unat idx < 1024")
  case True
  obtain b where b: "bt_level1 t ! unat idx = Some b" "length b = 1024" using bmt_wf_nth [OF assms True] .
  show ?thesis
    unfolding write_block_eq [OF True b] using bmt_wf_update [OF assms] by simp
next
  case False
  with assms show ?thesis by (simp add: write_block_data_def block_consts)
qed

lemma read_block_other:
  assumes "idx \<noteq> idx'" "bmt_wf t"
  shows "read_block_data idx m (fst (write_block_data idx' data t)) = read_block_data idx m t"
proof (cases "unat idx' < 1024")
  case True
  obtain b where b: "bt_level1 t ! unat idx' = Some b" "length b = 1024" using bmt_wf_nth [OF assms(2) True] .
  have "unat idx \<noteq> unat idx'" using assms(1) by (simp add: word_unat_eq_iff)
  then show ?thesis unfolding write_block_eq [OF True b] by (simp add: read_block_data_def)
next
  case False
  then show ?thesis by (simp add: write_block_data_def block_consts)
qed

lemma block_readback:
  assumes "bmt_wf t" "unat idx < 1024" "data \<noteq> []" "0 < m"
  shows "read_block_data idx m (fst (write_block_data idx data t)) = take (min m 13273) (padded data)"
proof -
  obtain b where b: "bt_level1 t ! unat idx = Some b" "length b = 1024"
    using bmt_wf_nth [OF assms(1,2)] .
  let ?b = "free_from (min 1024 (pieces data))
        (map (\<lambda>e. if e < pieces data then entry_for data e (b ! e) else b ! e) [0..<1024])"
  have pos: "0 < pieces data" using assms(3) by (simp add: less_pieces)
  have "read_loop ?b m (take (13 * 0) (padded data)) 0 = take (min m 13273) (padded data)"
    by (rule read_loop_written [where w = "(!) b"])
      (use pos assms in \<open>auto simp: free_from_def nth_append\<close>)
  then show ?thesis
    unfolding write_block_eq [OF assms(2) b]
    using assms(1,2) by (simp add: read_block_data_def block_consts bmt_wf_def)
qed

section \<open>Chains\<close>

lemma write_chain_wf:
  "bmt_wf t \<Longrightarrow> bmt_wf (fst (write_chain_from n bs data t))"
  by (induction n bs data t rule: write_chain_from.induct)
    (simp_all add: Let_def case_prod_beta write_block_wf)

lemma read_block_write_chain_other:
  assumes "bmt_wf t" "idx \<notin> set bs"
  shows "read_block_data idx m (fst (write_chain_from n bs data t)) = read_block_data idx m t"
  using assms
proof (induction n bs data t rule: write_chain_from.induct)
  case (1 written data t)
  then show ?case by simp
next
  case (2 written b bs data t)
  show ?case
  proof (cases "written < length data")
    case True
    let ?d = "take (min BYTES_PER_BLOCK (length data - written)) (drop written data)"
    obtain t' w where w: "write_block_data b ?d t = (t', w)" by fastforce
    then have t': "t' = fst (write_block_data b ?d t)" by simp
    have "read_block_data idx m (fst (write_chain_from (written + w) bs data t')) = read_block_data idx m t'"
      by (rule "2.IH" [OF True refl w [symmetric] refl])
        (use "2.prems" write_block_wf t' in auto)
    also have "\<dots> = read_block_data idx m t" unfolding t' using "2.prems" by (intro read_block_other) auto
    finally show ?thesis using True w by (simp add: Let_def)
  next
    case False
    then show ?thesis by simp
  qed
qed

lemma length_read_written:
  "length (take (min m 13273) xs) < BYTES_PER_BLOCK"
  by (simp add: block_consts)

lemma chain_readback:
  assumes "bmt_wf t" "unat b < 1024" "b \<notin> set bs" "data \<noteq> []" "0 < m"
  shows "bmt_read_chain (b # bs) m (fst (bmt_write_chain (b # bs) data t)) =
    take (min m 13273) (padded (take 13312 data))"
proof -
  let ?d = "take (min BYTES_PER_BLOCK (length data)) data"
  obtain t' w where w: "write_block_data b ?d t = (t', w)" by fastforce
  then have t': "t' = fst (write_block_data b ?d t)" by simp
  have d: "?d = take 13312 data" by (simp add: block_consts min_def)
  have "?d \<noteq> []" using assms by (simp add: block_consts)
  have r: "read_block_data b m (fst (write_chain_from w bs data t')) = take (min m 13273) (padded ?d)"
    using read_block_write_chain_other [of t' b bs m w data] block_readback [OF assms(1,2) \<open>?d \<noteq> []\<close> assms(5)]
      assms t' write_block_wf by simp
  have "bmt_read_chain (b # bs) m (fst (bmt_write_chain (b # bs) data t)) =
      read_block_data b m (fst (write_chain_from w bs data t'))"
    using w assms length_read_written [of m "padded ?d"]
    by (simp add: bmt_read_chain_def bmt_write_chain_def r)
  then show ?thesis unfolding r d .
qed

lemma free_from_payload:
  assumes "i < length b"
  shows "bmt_get_payload (free_from 0 b ! i) 13 = bmt_get_payload (b ! i) 13 \<and>
    bmt_route (free_from 0 b ! i) = FREE_ROUTE"
proof -
  have "to_le 5 (v_hi (bmt_pack_route v r)) = to_le 5 (v_hi v)" for v r
    by (rule to_le_5_mask) (simp add: bit_bmt_pack_route)
  then show ?thesis
    using assms by (simp add: free_from_def get_payload_le FREE_ROUTE_def LENS_MASK_def)
qed

section \<open>Images\<close>

lemma obfuscate_from_Nil [simp]: "obfuscate_from s [] = []"
  by (simp add: obfuscate_from.simps)

lemma obfuscate_from_step:
  assumes "data \<noteq> []"
  shows "obfuscate_from s data =
    map (\<lambda>j. data ! j XOR ucast (drop_bit (j * 8) (snd (mix_round 13 17 s)))) [0..<min 8 (length data)] @
    obfuscate_from (mix_round 13 17 s) (drop 8 data)"
  using assms by (simp add: obfuscate_from.simps [of s data] Let_def)

lemma length_obfuscate_from [simp]: "length (obfuscate_from s data) = length data"
proof (induction s data rule: obfuscate_from.induct)
  case (1 s data)
  then show ?case by (cases "data = []") (simp_all add: obfuscate_from_step)
qed

lemma obfuscate_from_twice: "obfuscate_from s (obfuscate_from s data) = data"
proof (induction s data rule: obfuscate_from.induct)
  case (1 s data)
  show ?case
  proof (cases "data = []")
    case True
    then show ?thesis by (simp add: obfuscate_from.simps)
  next
    case False
    define key where "key j = (ucast (drop_bit (j * 8) (snd (mix_round 13 17 s))) :: u8)" for j
    define hd8 where "hd8 = map (\<lambda>j. data ! j XOR key j) [0..<min 8 (length data)]"
    let ?tl = "obfuscate_from (mix_round 13 17 s) (drop 8 data)"
    have once: "obfuscate_from s data = hd8 @ ?tl"
      using False by (simp add: obfuscate_from_step hd8_def key_def)
    have hd8: "length hd8 = min 8 (length data)" by (simp add: hd8_def)
    have len: "length (hd8 @ ?tl) = length data" using hd8 by auto
    have ne: "hd8 @ ?tl \<noteq> []" using len False by (metis length_0_conv)
    have "obfuscate_from s (hd8 @ ?tl) =
        map (\<lambda>j. (hd8 @ ?tl) ! j XOR key j) [0..<min 8 (length data)] @
          obfuscate_from (mix_round 13 17 s) (drop 8 (hd8 @ ?tl))"
      unfolding obfuscate_from_step [OF ne] len key_def ..
    also have "map (\<lambda>j. (hd8 @ ?tl) ! j XOR key j) [0..<min 8 (length data)] = take 8 data"
      by (rule nth_equalityI) (auto simp: nth_append hd8 hd8_def)
    also have "obfuscate_from (mix_round 13 17 s) (drop 8 (hd8 @ ?tl)) = drop 8 data"
    proof (cases "length data \<le> 8")
      case True
      then have "drop 8 (hd8 @ ?tl) = []" using len by simp
      then show ?thesis using True by (simp add: obfuscate_from.simps)
    next
      case False
      then have "drop 8 (hd8 @ ?tl) = ?tl" using hd8 by simp
      then show ?thesis using "1.IH" [OF \<open>data \<noteq> []\<close> refl refl refl] by simp
    qed
    finally show ?thesis using once by simp
  qed
qed

lemma obfuscate_twice [simp]: "obfuscate (obfuscate data s bi) s bi = data"
  by (simp add: obfuscate_def obfuscate_from_twice)

lemma length_obfuscate [simp]: "length (obfuscate data s bi) = length data"
  by (simp add: obfuscate_def)

lemma length_serialize [simp]: "length (serialize b) = 16 * length b"
  by (induction b) (simp_all add: serialize_def)

lemma take_drop_serialize:
  "i < length b \<Longrightarrow> take 16 (drop (i * 16) (serialize b)) = write_to (b ! i)"
proof (induction b arbitrary: i)
  case Nil
  then show ?case by simp
next
  case (Cons v b)
  then show ?case by (cases i) (simp_all add: serialize_def)
qed

lemma deserialize_serialize:
  assumes "length b = 1024"
  shows "deserialize (serialize b) = b"
  using assms read_from_write_to [where rest = "[]"]
  by (intro nth_equalityI) (simp_all add: deserialize_def block_consts take_drop_serialize)

definition image_blocks :: "bmt_topology \<Rightarrow> nat list \<Rightarrow> u8 list" where
  "image_blocks t is = concat (map (\<lambda>i. let buf = (case bt_level1 t ! i of Some b \<Rightarrow> serialize b
        | None \<Rightarrow> replicate BLOCK_SIZE_BYTES 0)
      in obfuscate buf (bt_seed t) (word_of_nat (i + 1))) is)"

lemma load_blocks_image:
  assumes "bmt_wf t" "k \<le> 1024" "length (bt_level1 u) = 1024" "bt_seed u = bt_seed t"
    "take (1024 - k) (bt_level1 u) = take (1024 - k) (bt_level1 t)"
  shows "load_blocks k (image_blocks t [1024 - k..<1024]) u =
    (u\<lparr>bt_level1 := bt_level1 t, bt_dirty := False\<rparr>, True)"
  using assms
proof (induction k arbitrary: u)
  case 0
  then have "bt_level1 u = bt_level1 t" by (simp add: bmt_wf_def)
  then show ?case by simp
next
  case (Suc k)
  let ?i = "1024 - Suc k"
  obtain b where b: "bt_level1 t ! ?i = Some b" "length b = 1024"
    by (rule bmt_wf_nth [OF Suc.prems(1), of ?i]) auto
  let ?buf = "obfuscate (serialize b) (bt_seed t) (word_of_nat (?i + 1))"
  let ?u = "u\<lparr>bt_level1 := (bt_level1 u)[?i := Some b]\<rparr>"
  have e: "Suc ?i = 1024 - k" using Suc.prems(2) by simp
  have "[?i..<1024] = ?i # [1024 - k..<1024]" unfolding e [symmetric] by (rule upt_conv_Cons) simp
  then have img: "image_blocks t [?i..<1024] = ?buf @ image_blocks t [1024 - k..<1024]"
    using b by (simp add: image_blocks_def)
  have len: "length ?buf = BLOCK_SIZE_BYTES" using b by (simp add: block_consts)
  have rd: "fread BLOCK_SIZE_BYTES (image_blocks t [?i..<1024]) =
      Some (?buf, image_blocks t [1024 - k..<1024])"
    unfolding img fread_def using len by simp
  have "load_blocks (Suc k) (image_blocks t [?i..<1024]) u =
      load_blocks k (image_blocks t [1024 - k..<1024]) ?u"
    using rd Suc.prems(4) b
    by (simp add: block_consts(5) deserialize_serialize Let_def del: of_nat_Suc)
  also have "\<dots> = (?u\<lparr>bt_level1 := bt_level1 t, bt_dirty := False\<rparr>, True)"
  proof (rule Suc.IH)
    have "1024 - k = Suc ?i" using Suc.prems(2) by simp
    moreover have "take (Suc ?i) ((bt_level1 u)[?i := Some b]) = take (Suc ?i) (bt_level1 t)"
      using Suc.prems b by (simp add: take_Suc_conv_app_nth bmt_wf_def)
    ultimately show "take (1024 - k) (bt_level1 ?u) = take (1024 - k) (bt_level1 t)" by simp
  qed (use Suc.prems in simp_all)
  finally show ?case by simp
qed

lemma save_image_parts:
  "save_image t = to_le 8 (image_tag (bt_seed t)) @ to_le 8 (4 :: u64) @
    obfuscate (serialize (bt_root t)) (bt_seed t) 0 @ image_blocks t [0..<1024]"
  by (simp add: save_image_def image_blocks_def block_consts)

lemma fread_append: "length a = n \<Longrightarrow> fread n (a @ b) = Some (a, b)"
  by (simp add: fread_def)

lemma load_save:
  assumes "bmt_wf t"
  shows "load_image (Some (save_image t)) (bt_seed t) u =
    (u\<lparr>bt_seed := bt_seed t, bt_lens_keys := lens_generate (bt_seed t), bt_root := bt_root t,
       bt_level1 := bt_level1 t, bt_dirty := False\<rparr>, True)"
proof -
  let ?r = "obfuscate (serialize (bt_root t)) (bt_seed t) 0"
  let ?u = "u\<lparr>bt_seed := bt_seed t, bt_lens_keys := lens_generate (bt_seed t), bt_root := bt_root t,
     bt_level1 := take LENS_COUNT (bt_level1 u) @ replicate (LENS_COUNT - length (bt_level1 u)) None\<rparr>"
  have len: "length ?r = BLOCK_SIZE_BYTES" using assms by (simp add: block_consts bmt_wf_def)
  have root: "deserialize (serialize (bt_root t)) = bt_root t"
    using assms by (simp add: deserialize_serialize bmt_wf_def)
  have "load_blocks 1024 (image_blocks t [1024 - 1024..<1024]) ?u =
      (?u\<lparr>bt_level1 := bt_level1 t, bt_dirty := False\<rparr>, True)"
    by (rule load_blocks_image [OF assms]) (simp_all add: block_consts)
  then show ?thesis
    unfolding save_image_parts load_image_def
    by (simp add: fread_append [OF length_to_le] fread_append [OF len] Let_def root block_consts(5))
qed

lemma load_blocks_long:
  "k * BLOCK_SIZE_BYTES \<le> length img \<Longrightarrow> snd (load_blocks k img v)"
  by (induction k arbitrary: img v) (simp_all add: fread_def Let_def)

lemma load_any_matching_tag:
  assumes "bmt_wf t" "s_hi s XOR s_lo s = s_hi (bt_seed t) XOR s_lo (bt_seed t)"
  shows "snd (load_image (Some (save_image t)) s u)"
proof -
  let ?r = "obfuscate (serialize (bt_root t)) (bt_seed t) 0"
  have len: "length ?r = BLOCK_SIZE_BYTES" using assms by (simp add: block_consts bmt_wf_def)
  have tag: "image_tag (bt_seed t) = image_tag s" using assms(2)
    by (simp only: image_tag_def xor.assoc [symmetric])
  have "length (image_blocks t is) = length is * BLOCK_SIZE_BYTES" if "\<forall>i \<in> set is. i < 1024" for "is"
    using that
  proof (induction "is")
    case (Cons i "is")
    obtain b where "bt_level1 t ! i = Some b" "length b = 1024"
      using bmt_wf_nth [OF assms(1), of i] Cons.prems by auto
    with Cons show ?case by (simp add: image_blocks_def block_consts)
  qed (simp add: image_blocks_def)
  then have "LENS_COUNT * BLOCK_SIZE_BYTES \<le> length (image_blocks t [0..<1024])"
    by (simp add: LENS_COUNT_def)
  then show ?thesis
    unfolding save_image_parts load_image_def
    by (simp add: fread_append [OF length_to_le] fread_append [OF len] Let_def tag load_blocks_long)
qed

lemma length_expand_entries [simp]: "length (expand_entries n s) = n"
  by (induction n arbitrary: s) (simp_all add: Let_def)

lemma bmt_initialize_wf:
  assumes "length (bt_level1 t) = 1024"
  shows "bmt_wf (bmt_initialize s t) \<and> bt_seed (bmt_initialize s t) = s"
proof -
  let ?t1 = "t\<lparr>bt_seed := s, bt_lens_keys := lens_generate s, bt_root := fresh_block\<rparr>"
  have "bt_root (fold expand_block [0..<n] ?t1) = fresh_block \<and>
      length (bt_level1 (fold expand_block [0..<n] ?t1)) = 1024 \<and>
      bt_seed (fold expand_block [0..<n] ?t1) = s \<and> bt_lens_keys (fold expand_block [0..<n] ?t1) = lens_generate s \<and>
      (\<forall>i < n. \<exists>b. bt_level1 (fold expand_block [0..<n] ?t1) ! i = Some b \<and> length b = 1024)" if "n \<le> 1024" for n
    using that
    by (induction n)
      (use assms in \<open>auto simp: expand_block_def nth_list_update block_consts less_Suc_eq\<close>)
  from this [of 1024] show ?thesis
    by (auto simp: bmt_initialize_def Let_def bmt_wf_def list_all_length fresh_block_def block_consts
        split: option.splits)
qed

section \<open>Properties\<close>

text \<open>C19: what a read of a block gives after data that is not empty was written to it: the data with zero bytes up to a
  whole number of 13-byte pieces, cut at the reader's length, and never more than 1021 pieces (13273
  of the 13312 bytes a block is meant to hold), because the route to entry 1021 is \<open>FREE_ROUTE\<close>.\<close>
theorem block_write_then_read:
  assumes "bmt_wf t" "unat idx < 1024" "data \<noteq> []" "0 < m"
  shows "read_block_data idx m (fst (write_block_data idx data t)) = take (min m 13273) (padded data) \<and>
    snd (write_block_data idx data t) = min 13312 (length data)"
proof -
  obtain b where b: "bt_level1 t ! unat idx = Some b" "length b = 1024"
    using bmt_wf_nth [OF assms(1,2)] .
  show ?thesis using block_readback [OF assms] by (simp add: write_block_eq [OF assms(2) b])
qed

definition bmt_example :: bmt_topology where
  "bmt_example = bmt_initialize \<lparr>s_hi = 1, s_lo = 2\<rparr> (bmt_new \<lparr>s_hi = 0, s_lo = 0\<rparr> [])"

lemma bmt_example_wf: "bmt_wf bmt_example" "bt_seed bmt_example = \<lparr>s_hi = 1, s_lo = 2\<rparr>"
  using bmt_initialize_wf by (simp_all add: bmt_example_def bmt_new_def LENS_COUNT_def)

lemma block_write_then_read_witness:
  "read_block_data 3 2 (fst (write_block_data 3 [65, 66, 67] bmt_example)) = [65, 66]"
  using block_write_then_read [OF bmt_example_wf(1), of 3 "[65, 66, 67]" 2]
  by (simp add: padded_def pieces_def)

text \<open>A read of a chain gives at most the first 13273 bytes of what was written to it, whatever the
  number of blocks in the chain: the first block reads back short of \<open>BYTES_PER_BLOCK\<close>, and the chain
  read stops at a short block.\<close>
theorem chain_read_stops_in_first_block:
  assumes "bmt_wf t" "unat b < 1024" "b \<notin> set bs" "data \<noteq> []" "0 < m"
  shows "bmt_read_chain (b # bs) m (fst (bmt_write_chain (b # bs) data t)) =
    take (min m 13273) (padded (take 13312 data))"
  using assms by (rule chain_readback)

lemma chain_read_stops_in_first_block_witness:
  "length (bmt_read_chain [7, 8] 20000
     (fst (bmt_write_chain [7, 8] (replicate 20000 1) bmt_example))) = 13273"
  using chain_read_stops_in_first_block [OF bmt_example_wf(1), of 7 "[8]" "replicate 20000 1" 20000]
  by (simp add: length_padded pieces_def)

text \<open>C7: an image of a well-formed topology, whose lens keys are those of its seed, loads back under that seed into any
  topology: the result is the saved topology, root, level-1 blocks, seed and lens keys, marked clean.\<close>
theorem image_roundtrip:
  assumes "bmt_wf t"
  shows "load_image (Some (save_image t)) (bt_seed t) u = (t\<lparr>bt_dirty := False\<rparr>, True)"
proof -
  have "u\<lparr>bt_seed := bt_seed t, bt_lens_keys := lens_generate (bt_seed t), bt_root := bt_root t,
      bt_level1 := bt_level1 t, bt_dirty := False\<rparr> = t\<lparr>bt_dirty := False\<rparr>"
    using assms by (cases u, cases t) (simp add: bmt_wf_def)
  then show ?thesis using load_save [OF assms] by simp
qed

lemma image_roundtrip_witness:
  "load_image (Some (save_image (fst (write_block_data 3 [65, 66, 67] bmt_example)))) \<lparr>s_hi = 1, s_lo = 2\<rparr> (bmt_new \<lparr>s_hi = 5, s_lo = 6\<rparr> []) =
    (fst (write_block_data 3 [65, 66, 67] bmt_example)\<lparr>bt_dirty := False\<rparr>, True)"
proof -
  have "bt_seed (fst (write_block_data 3 [65, 66, 67] bmt_example)) = \<lparr>s_hi = 1, s_lo = 2\<rparr>"
    using bmt_example_wf(2) by (simp add: write_block_data_def split_def Let_def split: option.split)
  then show ?thesis
    using image_roundtrip [OF write_block_wf [OF bmt_example_wf(1)], of 3 "[65, 66, 67]"] by simp
qed

text \<open>The tag of an image only holds the exclusive or of the two seed words: a load under any other
  seed with the same exclusive or reports success.\<close>
theorem image_tag_accepts_other_seeds:
  assumes "bmt_wf t" "s_hi s XOR s_lo s = s_hi (bt_seed t) XOR s_lo (bt_seed t)"
  shows "snd (load_image (Some (save_image t)) s u)"
  using assms by (rule load_any_matching_tag)

lemma image_tag_accepts_other_seeds_witness:
  "snd (load_image (Some (save_image bmt_example)) \<lparr>s_hi = 2, s_lo = 1\<rparr> bmt_example)"
  using image_tag_accepts_other_seeds [OF bmt_example_wf(1), of "\<lparr>s_hi = 2, s_lo = 1\<rparr>" bmt_example]
  by (simp add: bmt_example_wf(2))

text \<open>Clearing a block frees every route and leaves every payload byte as it was.\<close>
theorem clear_keeps_payload:
  assumes "bmt_wf t" "unat idx < 1024" "i < 1024"
  shows "\<exists>b b'. bt_level1 t ! unat idx = Some b \<and>
    bt_level1 (clear_blocks [idx] t) ! unat idx = Some b' \<and>
    bmt_route (b' ! i) = FREE_ROUTE \<and> bmt_get_payload (b' ! i) 13 = bmt_get_payload (b ! i) 13"
proof -
  obtain b where b: "bt_level1 t ! unat idx = Some b" "length b = 1024"
    using bmt_wf_nth [OF assms(1,2)] .
  have "bt_level1 (clear_blocks [idx] t) ! unat idx = Some (free_from 0 b)"
    using assms b by (simp add: clear_blocks_def clear_block_def LENS_COUNT_def bmt_wf_def)
  with b assms free_from_payload [of i b] show ?thesis by auto
qed

lemma clear_keeps_payload_witness:
  "\<exists>b'. bt_level1 (clear_blocks [9] bmt_example) ! 9 = Some b' \<and> bmt_route (b' ! 5) = FREE_ROUTE"
  using clear_keeps_payload [OF bmt_example_wf(1), of 9 5] by auto

end
