(* ===== verification/AtomStore.thy ===== *)
theory AtomStore
  imports ManifoldFifo
begin

text \<open>
  What the clients of \<open>Topology\<close> (\<open>src/vdev/topology.hpp\<close>) rely on when they fetch single atoms and
  materialise single atoms: one locale, with the facts its clients share, interpreted on the
  \<open>SubstrateManifold\<close> model. Two of its laws are facts of the code rather than of an ideal memory:
  addresses are rounded down to 16 bytes (the low four bits of an address never matter), and only
  writes to the block of the atom itself are known to keep an atom, since others may evict it.
\<close>

text \<open>\<open>materialize_range(vaddr, (uint8_t*)&v, 16)\<close>.\<close>

definition put_atom :: "manifold \<Rightarrow> u64 \<Rightarrow> value128 \<Rightarrow> manifold option" where
  "put_atom s a v = materialize_range s a (atom_bytes v)"

definition cached :: "manifold \<Rightarrow> nat \<Rightarrow> bool" where
  "cached s k \<longleftrightarrow> find_slot s (word_of_nat k) \<noteq> None"

fun puts_with :: "('s \<Rightarrow> u64 \<Rightarrow> value128 \<Rightarrow> 's option) \<Rightarrow> 's \<Rightarrow> (u64 \<times> value128) list \<Rightarrow> 's option" where
  "puts_with put s [] = Some s"
| "puts_with put s ((a, v) # ops) = (case put s a v of None \<Rightarrow> None | Some s' \<Rightarrow> puts_with put s' ops)"

lemma puts_with_append:
  "puts_with put s (xs @ ys) = (case puts_with put s xs of None \<Rightarrow> None | Some s' \<Rightarrow> puts_with put s' ys)"
  by (induction xs arbitrary: s) (auto split: option.split)

text \<open>The last value written to atom \<open>i\<close>.\<close>

definition last_put :: "(u64 \<times> value128) list \<Rightarrow> nat \<Rightarrow> value128 option" where
  "last_put ops i = map_of (rev (map (\<lambda>(a, v). (unat a div 16, v)) ops)) i"

lemma last_put_snoc: "last_put (ops @ [(a, v)]) i = (if i = unat a div 16 then Some v else last_put ops i)"
  by (simp add: last_put_def)

lemma last_put_Nil [simp]: "last_put [] i = None"
  by (simp add: last_put_def)

locale atoms =
  fixes fetch :: "'s \<Rightarrow> u64 \<Rightarrow> value128"
    and put :: "'s \<Rightarrow> u64 \<Rightarrow> value128 \<Rightarrow> 's option"
    and resident :: "'s \<Rightarrow> nat \<Rightarrow> bool"
  assumes put_total: "\<exists>s'. put s a v = Some s'"
    and fetch_put: "put s a v = Some s' \<Longrightarrow> unat b div 16 = unat a div 16 \<Longrightarrow> fetch s' b = v"
    and resident_put: "put s a v = Some s' \<Longrightarrow> resident s' (unat a div 16384)"
    and fetch_put_other: "put s a v = Some s' \<Longrightarrow> resident s (unat a div 16384) \<Longrightarrow>
      unat b div 16384 = unat a div 16384 \<Longrightarrow> unat b div 16 \<noteq> unat a div 16 \<Longrightarrow> fetch s' b = fetch s b"
    and fetch_alias: "unat a div 16 = unat b div 16 \<Longrightarrow> fetch s a = fetch s b"
begin

lemma puts_total: "\<exists>s'. puts_with put s ops = Some s'"
proof (induction ops arbitrary: s)
  case (Cons op ops)
  obtain a v where op: "op = (a, v)" by fastforce
  obtain s1 where "put s a v = Some s1" using put_total by blast
  with Cons.IH [of s1] show ?case by (simp add: op)
qed simp

text \<open>Writes to one block: each atom holds the last value written to it.\<close>

lemma puts_one_block:
  assumes "puts_with put s ops = Some s'" "\<forall>(a, v) \<in> set ops. unat a div 16384 = k"
    and "last_put ops (unat b div 16) = Some v" "unat b div 16384 = k"
  shows "fetch s' b = v \<and> resident s' k"
  using assms
proof (induction ops arbitrary: s' v rule: rev_induct)
  case Nil
  then show ?case by simp
next
  case (snoc op ops)
  obtain a w where op: "op = (a, w)" by fastforce
  obtain s1 where s1: "puts_with put s ops = Some s1" and p: "put s1 a w = Some s'"
    using snoc.prems(1) by (auto simp: op puts_with_append split: option.splits)
  have blk: "unat a div 16384 = k" using snoc.prems(2) op by auto
  have res: "resident s' k" using resident_put [OF p] blk by simp
  show ?case
  proof (cases "unat b div 16 = unat a div 16")
    case True
    with snoc.prems(3) have "w = v" by (simp add: op last_put_snoc)
    then show ?thesis using fetch_put [OF p True] res by simp
  next
    case False
    with snoc.prems(3) have l: "last_put ops (unat b div 16) = Some v" by (simp add: op last_put_snoc)
    have ih: "fetch s1 b = v \<and> resident s1 k"
      by (rule snoc.IH [OF s1]) (use snoc.prems l in auto)
    have "fetch s' b = fetch s1 b"
      by (rule fetch_put_other [OF p]) (use ih blk snoc.prems(4) False in auto)
    with ih res show ?thesis by simp
  qed
qed

end

lemma cached_vblock: "cached s (unat a div 16384) \<longleftrightarrow> find_slot s (vblock_of a) \<noteq> None"
  unfolding cached_def vblock_of_unat [symmetric] by simp

lemma same_vblock: "unat a div 16384 = unat b div 16384 \<longleftrightarrow> vblock_of a = vblock_of b"
  unfolding vblock_of_unat [symmetric] by (simp add: word_unat_eq_iff)

interpretation manifold: atoms holographic_fetch put_atom cached
proof unfold_locales
  fix s s' :: manifold and a b v
  show "\<exists>s'. put_atom s a v = Some s'"
    unfolding put_atom_def using materialize_in_block [OF in_block_atom] by blast
  show "unat a div 16 = unat b div 16 \<Longrightarrow> holographic_fetch s a = holographic_fetch s b"
    using same_atom_iff [of a b] by (simp add: fetch_find_slot split: option.split)
  assume p: "put_atom s a v = Some s'"
  note m = p [unfolded put_atom_def]
  show "unat b div 16 = unat a div 16 \<Longrightarrow> holographic_fetch s' b = v"
    using fetch_materialized [OF in_block_atom m, of b 0] same_atom_iff [of b a] by simp
  show "cached s' (unat a div 16384)"
    unfolding cached_vblock
    using m find_slot_claim by (auto simp: materialize_eq Let_def split: if_splits)
  assume r: "cached s (unat a div 16384)" and sb: "unat b div 16384 = unat a div 16384"
    and ne: "unat b div 16 \<noteq> unat a div 16"
  have blk: "vblock_of b = vblock_of a" using sb by (simp add: same_vblock)
  then obtain q where q: "find_slot s (vblock_of b) = Some q" using r by (auto simp: cached_vblock)
  have "entry_of b \<noteq> entry_of a" using ne blk same_atom_iff [of b a] by simp
  then have "entry_of b < entry_of a \<or> entry_of a * 16 + length (atom_bytes v) \<le> entry_of b * 16" by auto
  then show "holographic_fetch s' b = holographic_fetch s b"
    by (rule fetch_materialize_same_block [OF in_block_atom m q blk])
qed

section \<open>From the constructor on\<close>

lemma puts_materialize_all:
  "puts_with put_atom s ops = materialize_all s (map (\<lambda>(a, v). (a, atom_bytes v)) ops)"
  by (induction ops arbitrary: s) (auto simp: put_atom_def split: option.split)

lemma store_write_atom: "store_write m a (atom_bytes v) = m(unat a div 16 \<mapsto> v)"
  by (rule ext) (auto simp: store_write_def atom_of_bytes_def atom_bytes_def)

lemma store_after_puts:
  "store_after m (map (\<lambda>(a, v). (a, atom_bytes v)) ops) = m ++ last_put ops"
proof (induction ops arbitrary: m)
  case Nil
  then show ?case by (simp add: last_put_def map_add_def)
next
  case (Cons op ops)
  then show ?case
    by (cases op) (auto simp: store_write_atom last_put_def map_add_def fun_eq_iff split: option.split)
qed

text \<open>As long as at most 1024 blocks are written, a fresh manifold keeps every atom.\<close>

lemma puts_fresh:
  assumes "card ((\<lambda>(a, v). vblock_of a) ` set ops) \<le> 1024"
  obtains s where "puts_with put_atom (fst (SubstrateManifold g pool0 map0)) ops = Some s"
    "\<And>b v. last_put ops (unat b div 16) = Some v \<Longrightarrow> holographic_fetch s b = v"
proof -
  let ?ops = "map (\<lambda>(a, v). (a, atom_bytes v)) ops"
  have "list_all write_ok ?ops" by (auto simp: list_all_iff write_ok_def in_block_atom)
  moreover have "(vblock_of \<circ> fst) ` set ?ops = (\<lambda>(a, v). vblock_of a) ` set ops" by force
  ultimately obtain s q where s: "materialize_all (fst (SubstrateManifold g pool0 map0)) ?ops = Some s"
    "holds_store s q (store_after Map.empty ?ops)"
    using materialize_all_store [OF holds_store_empty, of ?ops g pool0 map0] assms by auto
  show ?thesis
  proof (rule that)
    show "puts_with put_atom (fst (SubstrateManifold g pool0 map0)) ops = Some s"
      using s(1) by (simp add: puts_materialize_all)
    show "last_put ops (unat b div 16) = Some v \<Longrightarrow> holographic_fetch s b = v" for b v
      using s(2) by (simp add: holds_store_def store_after_puts)
  qed
qed

end
