(* ===== verification/AuditLog.thy ===== *)
theory AuditLog
  imports AtomStore
begin

text \<open>
  \<open>AuditLogger\<close> of \<open>src/vdev/audit_log.hpp\<close>: a circular log of 1024 atoms, one block of the manifold.
  The logger is modelled with the manifold it writes to; its one operation is a step on both.
\<close>

unbundle bit_operations_syntax

datatype event_type = EVENT_BOOT | EVENT_SEAL | EVENT_IMPORT | EVENT_AUTH_FAIL | EVENT_BYPASS_ENGAGED

fun event_code :: "event_type \<Rightarrow> u8" where
  "event_code EVENT_BOOT = 0x01"
| "event_code EVENT_SEAL = 0x02"
| "event_code EVENT_IMPORT = 0x03"
| "event_code EVENT_AUTH_FAIL = 0x04"
| "event_code EVENT_BYPASS_ENGAGED = 0x05"

definition LOG_BASE_VADDR :: u64 where "LOG_BASE_VADDR = 0xFFFFFF0000000000"

record audit_logger =
  log_manifold :: manifold
  log_head :: u64

definition AuditLogger :: "manifold \<Rightarrow> audit_logger" where
  "AuditLogger m = \<lparr>log_manifold = m, log_head = 0\<rparr>"

definition log_addr :: "u64 \<Rightarrow> u64" where
  "log_addr h = LOG_BASE_VADDR + (h * 16)"

definition log_entry :: "event_type \<Rightarrow> u64 \<Rightarrow> value128" where
  "log_entry ty metadata = val128 (push_bit 56 (ucast (event_code ty)) OR 0xDEADBEEF) metadata"

definition audit_log :: "event_type \<Rightarrow> u64 \<Rightarrow> audit_logger \<Rightarrow> audit_logger option" where
  "audit_log ty metadata lg =
    (case put_atom (log_manifold lg) (log_addr (log_head lg)) (log_entry ty metadata) of
       None \<Rightarrow> None
     | Some m \<Rightarrow> Some \<lparr>log_manifold = m, log_head = (log_head lg + 1) mod 1024\<rparr>)"

fun audit_all :: "(event_type \<times> u64) list \<Rightarrow> audit_logger \<Rightarrow> audit_logger option" where
  "audit_all [] lg = Some lg"
| "audit_all ((ty, md) # es) lg =
    (case audit_log ty md lg of None \<Rightarrow> None | Some lg' \<Rightarrow> audit_all es lg')"

section \<open>Addresses of the log\<close>

lemma unat_log_addr:
  assumes "unat h < 1024"
  shows "unat (log_addr h) = 0xFFFFFF0000000000 + unat h * 16"
proof -
  have "unat (h * 16) = unat h * 16" using assms by (simp add: unat_mult_lem [THEN iffD1])
  moreover have "unat LOG_BASE_VADDR = 0xFFFFFF0000000000" by (simp add: LOG_BASE_VADDR_def)
  ultimately show ?thesis
    using assms unat_add_lem [THEN iffD1, of LOG_BASE_VADDR "h * 16"] by (simp add: log_addr_def)
qed

lemma log_addr_block: "unat h < 1024 \<Longrightarrow> unat (log_addr h) div 16384 = 0x3FFFFFC000000"
  by (simp add: unat_log_addr)

lemma log_addr_atom: "unat h < 1024 \<Longrightarrow> unat (log_addr h) div 16 = 0xFFFFFF000000000 + unat h"
  by (simp add: unat_log_addr)

lemma unat_head: "unat (word_of_nat (n mod 1024) :: u64) = n mod 1024"
  by (simp add: unsigned_of_nat take_bit_nat_eq_self)

section \<open>Runs of the logger\<close>

text \<open>The writes that logging \<open>es\<close> makes.\<close>

definition log_put :: "(event_type \<times> u64) list \<Rightarrow> nat \<Rightarrow> u64 \<times> value128" where
  "log_put es i = (log_addr (word_of_nat (i mod 1024)), log_entry (fst (es ! i)) (snd (es ! i)))"

definition log_puts :: "(event_type \<times> u64) list \<Rightarrow> (u64 \<times> value128) list" where
  "log_puts es = map (log_put es) [0..<length es]"

lemma log_puts_snoc: "log_puts (es @ [e]) =
  log_puts es @ [(log_addr (word_of_nat (length es mod 1024)), log_entry (fst e) (snd e))]"
  by (auto simp: log_puts_def log_put_def nth_append)

lemma audit_all_append: "audit_all (es @ fs) lg =
  (case audit_all es lg of None \<Rightarrow> None | Some lg' \<Rightarrow> audit_all fs lg')"
  by (induction es arbitrary: lg) (auto split: option.split)

lemma audit_all_puts:
  "\<exists>lg. audit_all es (AuditLogger m) = Some lg \<and> log_head lg = word_of_nat (length es mod 1024) \<and>
     puts_with put_atom m (log_puts es) = Some (log_manifold lg)"
proof (induction es rule: rev_induct)
  case Nil
  then show ?case by (simp add: AuditLogger_def log_puts_def)
next
  case (snoc e es)
  then obtain lg where lg: "audit_all es (AuditLogger m) = Some lg"
    "log_head lg = word_of_nat (length es mod 1024)"
    "puts_with put_atom m (log_puts es) = Some (log_manifold lg)" by blast
  obtain m' where m': "put_atom (log_manifold lg) (log_addr (log_head lg)) (log_entry (fst e) (snd e)) = Some m'"
    using manifold.put_total by blast
  have "(word_of_nat (length es mod 1024) + 1 :: u64) mod 1024 = word_of_nat (Suc (length es) mod 1024)"
  proof (rule word_unat_eq_iff [THEN iffD2])
    have "unat (word_of_nat (length es mod 1024) + 1 :: u64) = length es mod 1024 + 1"
      using unat_head [of "length es"] by (subst unat_add_lem [THEN iffD1]) auto
    then show "unat ((word_of_nat (length es mod 1024) + 1 :: u64) mod 1024) =
        unat (word_of_nat (Suc (length es) mod 1024) :: u64)"
      unfolding unat_head by (simp add: unat_mod mod_Suc_eq)
  qed
  with lg m' show ?case
    by (cases e) (simp add: audit_all_append audit_log_def log_puts_snoc puts_with_append)
qed

lemma last_log_put:
  assumes "i < n" "n \<le> i + 1024"
  shows "last_put (map (log_put es) [0..<n]) (0xFFFFFF000000000 + i mod 1024) = Some (snd (log_put es i))"
  using assms
proof (induction n)
  case 0
  then show ?case by simp
next
  case (Suc n)
  have atom: "unat (log_addr (word_of_nat (n mod 1024))) div 16 = 0xFFFFFF000000000 + n mod 1024"
    by (subst log_addr_atom) (simp_all add: unat_head)
  show ?case
  proof (cases "i = n")
    case True
    then show ?thesis by (simp add: last_put_snoc atom log_put_def)
  next
    case False
    have "i mod 1024 \<noteq> n mod 1024"
    proof
      assume "i mod 1024 = n mod 1024"
      then have "1024 dvd n - i" using Suc.prems(1) mod_eq_dvd_iff_nat [of i n 1024] by simp
      then show False using Suc.prems False by (auto dest: dvd_imp_le)
    qed
    then show ?thesis using Suc False by (simp add: last_put_snoc log_put_def atom)
  qed
qed

lemma log_readback:
  assumes "audit_all es (AuditLogger m) = Some lg" "i < length es" "length es \<le> i + 1024"
  shows "holographic_fetch (log_manifold lg) (log_addr (word_of_nat (i mod 1024))) =
    log_entry (fst (es ! i)) (snd (es ! i))"
proof -
  have p: "puts_with put_atom m (log_puts es) = Some (log_manifold lg)"
    using audit_all_puts [of es m] assms(1) by auto
  have "holographic_fetch (log_manifold lg) (log_addr (word_of_nat (i mod 1024))) = snd (log_put es i) \<and>
      cached (log_manifold lg) 0x3FFFFFC000000"
  proof (rule manifold.puts_one_block [OF p])
    show "\<forall>(a, v) \<in> set (log_puts es). unat a div 16384 = 0x3FFFFFC000000"
      by (auto simp: log_puts_def log_put_def log_addr_block unat_head)
    show "last_put (log_puts es) (unat (log_addr (word_of_nat (i mod 1024))) div 16) = Some (snd (log_put es i))"
      using last_log_put [OF assms(2,3)] by (simp add: log_puts_def log_addr_atom unat_head)
  qed (simp add: log_addr_block unat_head)
  then show ?thesis by (simp add: log_put_def)
qed

lemma event_code_inj: "event_code a = event_code b \<Longrightarrow> a = b"
  by (cases a; cases b) auto

lemma log_entry_inj: "log_entry a x = log_entry b y \<longleftrightarrow> a = b \<and> x = y"
proof
  assume h: "log_entry a x = log_entry b y"
  have "ucast (drop_bit 56 (v_hi (log_entry c z))) = event_code c" for c z
    by (cases c) (simp_all add: log_entry_def)
  with h have "event_code a = event_code b" by metis
  then show "a = b \<and> x = y" using h event_code_inj by (simp add: log_entry_def)
qed simp

section \<open>Properties\<close>

text \<open>C25: logging never fails, and after any number of events each of the last 1024 is in the log at its
  place in the circle, with its type and metadata; the head is the number of events modulo 1024.\<close>
theorem audit_log_keeps_last_1024:
  "\<exists>lg. audit_all es (AuditLogger m) = Some lg \<and> log_head lg = word_of_nat (length es mod 1024) \<and>
     (\<forall>i. i < length es \<longrightarrow> length es \<le> i + 1024 \<longrightarrow>
        (\<forall>ty md. holographic_fetch (log_manifold lg) (log_addr (word_of_nat (i mod 1024))) = log_entry ty md
           \<longleftrightarrow> es ! i = (ty, md)))"
proof -
  obtain lg where lg: "audit_all es (AuditLogger m) = Some lg"
    "log_head lg = word_of_nat (length es mod 1024)" using audit_all_puts by blast
  then show ?thesis
    by (intro exI [of _ lg]) (auto simp: log_readback [OF lg(1)] log_entry_inj prod_eq_iff)
qed

lemma audit_log_keeps_last_1024_witness:
  "\<exists>lg. audit_all [(EVENT_BOOT, 7), (EVENT_SEAL, 9)] (AuditLogger (fst (SubstrateManifold (PhysicalMemory 0x2000000 0x40000000) (\<lambda>_. 0) (\<lambda>_. 0)))) = Some lg \<and>
     holographic_fetch (log_manifold lg) (log_addr 1) = log_entry EVENT_SEAL 9"
  using audit_log_keeps_last_1024 [of "[(EVENT_BOOT, 7), (EVENT_SEAL, 9)]"
      "fst (SubstrateManifold (PhysicalMemory 0x2000000 0x40000000) (\<lambda>_. 0) (\<lambda>_. 0))"]
  by (fastforce dest: spec [of _ 1])

end
