(* ===== verification/StateEngine.thy ===== *)
theory StateEngine
  imports AtomStore "HOL-Library.Multiset"
begin

text \<open>
  \<open>StateEngine\<close> of \<open>src/core/state_engine.hpp\<close>: a 10-bit state that moves speculatively for 64 steps
  and then by the route of the atom the manifold holds for the state and input. The engine is
  parameterised by the fetch function of the topology it was built with. The upper word of a
  speculative value is not initialised by the code before \<open>pack_route\<close> keeps its low 52 bits: it is
  a parameter of the step.
\<close>

unbundle bit_operations_syntax

definition ENTROPY_THRESHOLD :: u32 where "ENTROPY_THRESHOLD = 64"

record state_engine =
  current_state :: u16
  chaos_accumulator :: u32

record execution_result =
  er_prev_state :: u16
  er_input :: u16
  er_next_state :: u16
  er_value :: value128
  er_valid :: bool

definition engine_new :: state_engine where
  "engine_new = \<lparr>current_state = 0, chaos_accumulator = 0\<rparr>"

definition engine_reset :: "u16 \<Rightarrow> state_engine \<Rightarrow> state_engine" where
  "engine_reset initial e = e\<lparr>current_state := initial, chaos_accumulator := 0\<rparr>"

definition engine_vaddr :: "u16 \<Rightarrow> u16 \<Rightarrow> u64" where
  "engine_vaddr st inp = push_bit 10 (ucast st) OR ucast (inp AND LENS_MASK)"

definition engine_step ::
    "(u64 \<Rightarrow> value128) \<Rightarrow> u64 \<Rightarrow> u16 \<Rightarrow> state_engine \<Rightarrow> state_engine \<times> execution_result" where
  "engine_step fetch uninit inp e =
    (let vaddr = engine_vaddr (current_state e) inp;
         current_chaos = chaos_accumulator e;
         e1 = e\<lparr>chaos_accumulator := chaos_accumulator e + 1\<rparr>;
         mixed = (current_state e XOR inp) AND LENS_MASK
     in if current_chaos < ENTROPY_THRESHOLD then
          (e1\<lparr>current_state := mixed\<rparr>,
           \<lparr>er_prev_state = current_state e, er_input = inp, er_next_state = mixed,
            er_value = pack_route (val128 uninit ((vaddr * PHI_LO) XOR ucast inp)) FREE_ROUTE,
            er_valid = True\<rparr>)
        else
          let v = fetch vaddr; nxt = route v
          in if nxt \<noteq> FREE_ROUTE \<and> nxt \<noteq> ERROR_ROUTE then
               (\<lparr>current_state = nxt, chaos_accumulator = 0\<rparr>,
                \<lparr>er_prev_state = current_state e, er_input = inp, er_next_state = nxt,
                 er_value = v, er_valid = True\<rparr>)
             else
               (\<lparr>current_state = mixed, chaos_accumulator = 0\<rparr>,
                \<lparr>er_prev_state = current_state e, er_input = inp, er_next_state = mixed,
                 er_value = v, er_valid = False\<rparr>))"

fun engine_run :: "(u64 \<Rightarrow> value128) \<Rightarrow> u64 \<Rightarrow> u16 list \<Rightarrow> state_engine \<Rightarrow> state_engine" where
  "engine_run fetch uninit [] e = e"
| "engine_run fetch uninit (i # is) e = engine_run fetch uninit is (fst (engine_step fetch uninit i e))"

text \<open>The steps an engine can take: an input with any fetch result and any stale upper word, or a reset to
  any value, which the code does not mask.\<close>

inductive engine_reaches :: "state_engine \<Rightarrow> bool" where
  start: "engine_reaches engine_new"
| step: "engine_reaches e \<Longrightarrow> engine_reaches (fst (engine_step fetch uninit inp e))"
| reset: "engine_reaches e \<Longrightarrow> engine_reaches (engine_reset initial e)"

section \<open>Invariant\<close>

text \<open>A state of more than ten bits is one that a reset has just stored.\<close>

definition engine_ok :: "state_engine \<Rightarrow> bool" where
  "engine_ok e \<longleftrightarrow> chaos_accumulator e \<le> ENTROPY_THRESHOLD \<and>
     (current_state e \<le> LENS_MASK \<or> e = engine_reset (current_state e) engine_new)"

lemma engine_step_masked: "current_state (fst (engine_step fetch uninit inp e)) \<le> LENS_MASK"
proof -
  have m: "x AND LENS_MASK \<le> LENS_MASK" for x :: u16 by (rule word_and_le1)
  show ?thesis
    using route_less m by (auto simp: engine_step_def Let_def word_less_nat_alt word_le_nat_alt)
qed

lemma engine_ok_step:
  assumes "engine_ok e"
  shows "engine_ok (fst (engine_step fetch uninit inp e))"
proof -
  have "unat (chaos_accumulator e + 1) \<le> 64" if "unat (chaos_accumulator e) < 64"
    using that by (simp add: unat_word_ariths)
  then have "chaos_accumulator (fst (engine_step fetch uninit inp e)) \<le> ENTROPY_THRESHOLD"
    by (auto simp: engine_step_def Let_def ENTROPY_THRESHOLD_def word_less_nat_alt word_le_nat_alt)
  then show ?thesis using engine_step_masked by (simp add: engine_ok_def)
qed

lemma engine_ok_reachable: "engine_reaches e \<Longrightarrow> engine_ok e"
proof (induction rule: engine_reaches.induct)
  case start
  show ?case by (simp add: engine_ok_def engine_new_def)
next
  case (step e fetch uninit inp)
  then show ?case by (simp add: engine_ok_step)
next
  case (reset e initial)
  then show ?case by (simp add: engine_ok_def engine_reset_def engine_new_def)
qed

section \<open>Speculation\<close>

lemma speculative_step:
  assumes "unat (chaos_accumulator e) < 64"
  shows "fst (engine_step fetch uninit inp e) =
    \<lparr>current_state = (current_state e XOR inp) AND LENS_MASK, chaos_accumulator = chaos_accumulator e + 1\<rparr>"
  using assms by (simp add: engine_step_def Let_def ENTROPY_THRESHOLD_def word_less_nat_alt)

lemma foldr_xor_mask: "foldr (XOR) is (x AND m) AND m = foldr (XOR) is x AND (m :: u16)"
proof (induction "is")
  case (Cons i "is")
  have "(i XOR a) AND m = (i AND m) XOR (a AND m)" for a
    by (rule bit_word_eqI) (auto simp: bit_ops)
  with Cons show ?case by simp
qed simp

lemma foldr_xor_shift: "foldr (XOR) is (x XOR i) = i XOR foldr (XOR) is (x :: u16)"
  by (induction "is") (simp_all add: ac_simps)

lemma lens_mask_id: "x \<le> LENS_MASK \<Longrightarrow> x AND LENS_MASK = x"
proof -
  assume "x \<le> LENS_MASK"
  then have "take_bit 10 x = x"
    by (simp add: word_unat_eq_iff unsigned_take_bit_eq take_bit_nat_eq_self word_le_nat_alt LENS_MASK_def)
  then show ?thesis by (simp add: LENS_MASK_def take_bit_eq_mask mask_eq_exp_minus_1)
qed

lemma speculative_run:
  assumes "unat (chaos_accumulator e) + length is \<le> 64" "current_state e \<le> LENS_MASK"
  shows "engine_run fetch uninit is e =
    \<lparr>current_state = foldr (XOR) is (current_state e) AND LENS_MASK,
     chaos_accumulator = chaos_accumulator e + word_of_nat (length is)\<rparr>"
  using assms
proof (induction "is" arbitrary: e)
  case Nil
  then show ?case by (simp add: lens_mask_id)
next
  case (Cons i "is")
  let ?e = "\<lparr>current_state = (current_state e XOR i) AND LENS_MASK, chaos_accumulator = chaos_accumulator e + 1\<rparr>"
  have "unat (chaos_accumulator e + 1) = unat (chaos_accumulator e) + 1"
    using Cons.prems(1) by (simp add: unat_word_ariths)
  then have "engine_run fetch uninit is ?e =
      \<lparr>current_state = foldr (XOR) is ((current_state e XOR i) AND LENS_MASK) AND LENS_MASK,
       chaos_accumulator = chaos_accumulator e + 1 + word_of_nat (length is)\<rparr>"
    using Cons.IH [of ?e] Cons.prems by (simp add: word_and_le1)
  moreover have "fst (engine_step fetch uninit i e) = ?e"
    using Cons.prems(1) by (intro speculative_step) simp
  ultimately show ?case by (simp add: foldr_xor_mask foldr_xor_shift ac_simps(1,2))
qed

lemma foldr_xor_mset:
  fixes x :: u16
  assumes "mset is = mset js"
  shows "foldr (XOR) is x = foldr (XOR) js x"
proof -
  have f: "foldr (XOR) ks x = fold (XOR) ks x" for ks :: "u16 list"
    by (rule foldr_fold [THEN fun_cong]) (simp add: fun_eq_iff xor.left_commute)
  have "fold (XOR) is = (fold (XOR) js :: u16 \<Rightarrow> u16)"
    by (rule fold_multiset_equiv [OF _ assms]) (simp add: fun_eq_iff xor.left_commute)
  then show ?thesis by (simp add: f)
qed

section \<open>Aliasing\<close>

lemma engine_vaddr_atom:
  assumes "drop_bit 4 (i AND LENS_MASK) = drop_bit 4 (j AND LENS_MASK)"
  shows "unat (engine_vaddr st i) div 16 = unat (engine_vaddr st j) div 16"
proof -
  have "drop_bit 4 (engine_vaddr st i) = drop_bit 4 (engine_vaddr st j)"
  proof (rule bit_word_eqI)
    fix k assume "k < LENGTH(64)"
    have "bit (drop_bit 4 (i AND LENS_MASK)) k = bit (drop_bit 4 (j AND LENS_MASK)) k"
      using assms by simp
    then show "bit (drop_bit 4 (engine_vaddr st i)) k = bit (drop_bit 4 (engine_vaddr st j)) k"
      by (auto simp: engine_vaddr_def bit_ops)
  qed
  then have "unat (drop_bit 4 (engine_vaddr st i)) = unat (drop_bit 4 (engine_vaddr st j))" by simp
  then show ?thesis 
    unfolding drop_bit_eq_div by (simp add: unat_div)
qed

lemma engine_step_after_speculation:
  assumes "chaos_accumulator e = 64"
  shows "fst (engine_step fetch uninit inp e) =
    (let nxt = route (fetch (engine_vaddr (current_state e) inp))
     in \<lparr>current_state = (if nxt \<noteq> FREE_ROUTE \<and> nxt \<noteq> ERROR_ROUTE then nxt
           else (current_state e XOR inp) AND LENS_MASK), chaos_accumulator = 0\<rparr>)"
  using assms by (simp add: engine_step_def Let_def ENTROPY_THRESHOLD_def)

section \<open>Properties\<close>

text \<open>C33: what holds of every engine that any inputs and resets lead to, whatever the topology answers and whatever
  the stack holds: at most 64 speculative steps are counted, every further input leads to a 10-bit state, and a state of
  more than ten bits is one that a reset has just stored, with no step since.\<close>
theorem engine_reachable_invariant:
  assumes "engine_reaches e"
  shows "chaos_accumulator e \<le> ENTROPY_THRESHOLD \<and>
    (\<forall>fetch uninit inp. current_state (fst (engine_step fetch uninit inp e)) \<le> LENS_MASK) \<and>
    (LENS_MASK < current_state e \<longrightarrow> e = engine_reset (current_state e) engine_new)"
  using engine_ok_reachable [OF assms] engine_step_masked by (auto simp: engine_ok_def)

lemma engine_reachable_invariant_witness:
  "let e = engine_reset 0xFFFF (fst (engine_step (\<lambda>_. val128 0 0) 0 0xFFFF engine_new))
   in chaos_accumulator e \<le> ENTROPY_THRESHOLD \<and> LENS_MASK < current_state e \<and>
     current_state (fst (engine_step (\<lambda>_. val128 0 0) 0 7 e)) \<le> LENS_MASK"
proof -
  have "LENS_MASK < (0xFFFF :: u16)" by (simp add: LENS_MASK_def)
  then show ?thesis
    using engine_reachable_invariant [OF engine_reaches.reset [OF engine_reaches.step [OF engine_reaches.start]]]
    by (simp add: Let_def engine_reset_def)
qed

text \<open>After a reset to a 10-bit state, the first 64 inputs move the engine to the exclusive or of the
  start and the inputs (ten bits of it): no topology is asked and the order of the inputs does not
  matter. The 65th input goes where the atom for the state and input routes, and counting starts
  again.\<close>
theorem engine_speculates_then_resolves:
  assumes "initial \<le> LENS_MASK" "length is = 64" "mset is = mset js"
  shows "let e = engine_run fetch uninit is (engine_reset initial e0)
    in engine_run fetch' uninit' js (engine_reset initial e0) = e \<and>
       current_state e = foldr (XOR) is initial AND LENS_MASK \<and>
       fst (engine_step fetch uninit inp e) =
         (let nxt = route (fetch (engine_vaddr (current_state e) inp))
          in \<lparr>current_state = (if nxt \<noteq> FREE_ROUTE \<and> nxt \<noteq> ERROR_ROUTE then nxt
                else (current_state e XOR inp) AND LENS_MASK), chaos_accumulator = 0\<rparr>)"
proof -
  have run: "engine_run f u ks (engine_reset initial e0) =
      \<lparr>current_state = foldr (XOR) is initial AND LENS_MASK, chaos_accumulator = 64\<rparr>"
    if "mset ks = mset is" for f u ks
  proof -
    have "length ks = 64" using that assms(2) by (metis size_mset)
    then show ?thesis
      using speculative_run [of "engine_reset initial e0" ks f u] assms(1) foldr_xor_mset [OF that, of initial]
      by (simp add: engine_reset_def)
  qed
  show ?thesis
    using run [of "is" fetch uninit] run [of js fetch' uninit'] assms(3)
    by (simp add: Let_def engine_step_after_speculation)
qed

lemma engine_speculates_then_resolves_witness:
  "current_state (engine_run (\<lambda>_. val128 0 0) 0 (replicate 63 1 @ [2]) (engine_reset 0 engine_new)) =
   current_state (engine_run (\<lambda>_. val128 1 1) 5 (2 # replicate 63 1) (engine_reset 0 engine_new))"
  using engine_speculates_then_resolves [of 0 "replicate 63 1 @ [2]" "2 # replicate 63 1"
      "\<lambda>_. val128 0 0" 0 engine_new "\<lambda>_. val128 1 1" 5 0]
  by (simp add: Let_def LENS_MASK_def)

text \<open>The engine's addresses are 1024 per state but the manifold rounds them down to 16: inputs that
  agree above their low four bits resolve to the same atom, whatever was stored for each of them.\<close>
theorem engine_inputs_alias:
  assumes "drop_bit 4 (i AND LENS_MASK) = drop_bit 4 (j AND LENS_MASK)"
  shows "holographic_fetch s (engine_vaddr st i) = holographic_fetch s (engine_vaddr st j)"
  by (rule manifold.fetch_alias) (rule engine_vaddr_atom [OF assms])

lemma engine_inputs_alias_witness:
  "holographic_fetch (fst (SubstrateManifold (PhysicalMemory 0x2000000 0x40000000) (\<lambda>_. 0) (\<lambda>_. 0))) (engine_vaddr 3 32) =
   holographic_fetch (fst (SubstrateManifold (PhysicalMemory 0x2000000 0x40000000) (\<lambda>_. 0) (\<lambda>_. 0))) (engine_vaddr 3 47)"
  by (rule engine_inputs_alias) (simp add: LENS_MASK_def)

end
