(* ===== verification/LogicTransducer.thy ===== *)
theory LogicTransducer
  imports AtomStore
begin

text \<open>
  \<open>LogicTransducer\<close> of \<open>src/core/logic_transducer.hpp\<close>: a table of 64 named coordinates, and logic
  resolved by fetching atoms. Names live in 32-byte arrays whose bytes after the NUL are whatever was
  there. Operations that only read the manifold take its fetch function.
\<close>

unbundle bit_operations_syntax

section \<open>The symbol table\<close>

record symbol =
  sym_name :: "u8 list"
  sym_coordinate :: u64

record logic_transducer =
  symbol_table :: "symbol list"
  symbol_count :: nat

definition LogicTransducer :: "symbol list \<Rightarrow> logic_transducer" where
  "LogicTransducer table0 = \<lparr>symbol_table = table0, symbol_count = 0\<rparr>"

text \<open>\<open>char\<close> is signed on the x86 target: a character above 127 is extended with ones.\<close>

fun hash_mnemonic_from :: "u64 \<Rightarrow> cstr \<Rightarrow> u64" where
  "hash_mnemonic_from h [] = h"
| "hash_mnemonic_from h (c # cs) = hash_mnemonic_from ((h XOR scast c) * 0x9E3779B97F4A7C15) cs"

definition hash_mnemonic :: "cstr \<Rightarrow> u64" where
  "hash_mnemonic name = hash_mnemonic_from 0xCBF29CE484222325 name"

function copy_name :: "cstr \<Rightarrow> nat \<Rightarrow> u8 list \<Rightarrow> u8 list" where
  "copy_name name i dst =
    (if cstr_at name i \<noteq> 0 \<and> i < 31 then copy_name name (i + 1) (dst[i := cstr_at name i])
     else dst[i := 0])"
  by pat_completeness auto
termination by (relation "measure (\<lambda>(name, i, dst). 31 - i)") auto

declare copy_name.simps [simp del]

definition register_hook :: "cstr \<Rightarrow> u64 \<Rightarrow> logic_transducer \<Rightarrow> logic_transducer" where
  "register_hook name coord t =
    (if symbol_count t < 64 then
       let k = symbol_count t; sym = symbol_table t ! k
       in t\<lparr>symbol_table := (symbol_table t)
              [k := \<lparr>sym_name = copy_name name 0 (sym_name sym), sym_coordinate = coord\<rparr>],
            symbol_count := k + 1\<rparr>
     else t)"

function names_match :: "cstr \<Rightarrow> u8 list \<Rightarrow> nat \<Rightarrow> bool" where
  "names_match name sn j =
    (if cstr_at name j \<noteq> 0 \<or> sn ! j \<noteq> 0 then
       if cstr_at name j \<noteq> sn ! j then False else names_match name sn (j + 1)
     else True)"
  by pat_completeness auto
termination
  by (relation "measure (\<lambda>(name, sn, j). length name - j)") (auto simp: cstr_at_def split: if_splits)

declare names_match.simps [simp del]

definition get_hook_coordinate :: "logic_transducer \<Rightarrow> cstr \<Rightarrow> u64" where
  "get_hook_coordinate t name =
    (case List.find (\<lambda>i. names_match name (sym_name (symbol_table t ! i)) 0) [0..<symbol_count t] of
       Some i \<Rightarrow> sym_coordinate (symbol_table t ! i)
     | None \<Rightarrow> 0)"

section \<open>Logic as atoms\<close>

definition burn_atom :: "manifold \<Rightarrow> u64 \<Rightarrow> u64 \<Rightarrow> manifold option" where
  "burn_atom m intent result_lo = put_atom m intent (val128 0 result_lo)"

record execution_state =
  last_resolve :: u64
  fault :: bool

fun resolve_chain_from :: "(u64 \<Rightarrow> value128) \<Rightarrow> execution_state \<Rightarrow> u64 list \<Rightarrow> execution_state" where
  "resolve_chain_from fetch st [] = st"
| "resolve_chain_from fetch st (w # script) =
    (let intent = last_resolve st XOR w; terminal = fetch intent
     in if v_hi terminal = 0 \<and> v_lo terminal = 0 then st\<lparr>fault := True\<rparr>
        else resolve_chain_from fetch (st\<lparr>last_resolve := v_lo terminal\<rparr>) script)"

definition resolve_chain :: "(u64 \<Rightarrow> value128) \<Rightarrow> u64 list \<Rightarrow> execution_state" where
  "resolve_chain fetch script = resolve_chain_from fetch \<lparr>last_resolve = 0, fault = False\<rparr> script"

definition resolve_spatial :: "(u64 \<Rightarrow> value128) \<Rightarrow> u8 \<Rightarrow> u64 \<Rightarrow> u64 \<Rightarrow> u64" where
  "resolve_spatial fetch opcode a b = v_lo (fetch (push_bit 56 (ucast opcode) OR (a XOR b)))"

definition topological_aes_round :: "(u64 \<Rightarrow> value128) \<Rightarrow> u64 \<times> u64 \<Rightarrow> u64 \<times> u64 \<Rightarrow> u64 \<times> u64" where
  "topological_aes_round fetch st key =
    (resolve_spatial fetch 0xAE (fst st) (fst key), resolve_spatial fetch 0xAE (snd st) (snd key))"

section \<open>The table is an association list\<close>

text \<open>A stored name: \<open>nm\<close>, then NUL, inside the 32 bytes.\<close>

definition name_stored :: "u8 list \<Rightarrow> cstr \<Rightarrow> bool" where
  "name_stored sn nm \<longleftrightarrow> length sn = 32 \<and> length nm \<le> 31 \<and> cstr_ok nm \<and>
     take (length nm) sn = nm \<and> sn ! length nm = 0"

definition table_rel :: "logic_transducer \<Rightarrow> (cstr \<times> u64) list \<Rightarrow> bool" where
  "table_rel t L \<longleftrightarrow> symbol_count t = length L \<and> length L \<le> 64 \<and> length (symbol_table t) = 64 \<and>
     (\<forall>k<64. length (sym_name (symbol_table t ! k)) = 32) \<and>
     (\<forall>k<length L. name_stored (sym_name (symbol_table t ! k)) (fst (L ! k)) \<and>
        sym_coordinate (symbol_table t ! k) = snd (L ! k))"

lemma copy_name_result:
  assumes "cstr_ok name" "length dst = 32" "i \<le> length name" "i \<le> 31" "take i dst = take i name"
  shows "name_stored (copy_name name i dst) (take 31 name)"
  using assms
proof (induction name i dst rule: copy_name.induct)
  case (1 name i dst)
  show ?case
  proof (cases "cstr_at name i \<noteq> 0 \<and> i < 31")
    case True
    then have "i < length name" using "1.prems" by (auto simp: cstr_at_def split: if_splits)
    moreover have "take (Suc i) (dst[i := cstr_at name i]) = take (Suc i) name"
      using True \<open>i < length name\<close> "1.prems" by (simp add: take_Suc_conv_app_nth cstr_at_def)
    ultimately show ?thesis
      using "1.IH" [OF True] "1.prems" True by (simp add: copy_name.simps [of name i dst])
  next
    case False
    then have len: "i = min (length name) 31"
      using "1.prems" cstr_at_zero_iff [of name i] by auto
    then have t: "take 31 name = take i name" "length (take i name) = i" by (simp_all add: min_def)
    have "cstr_ok (take i name)" using "1.prems"(1) by (auto simp: cstr_ok_def dest: in_set_takeD)
    moreover have c: "copy_name name i dst = dst[i := 0]"
      by (subst copy_name.simps) (rule if_not_P [OF False])
    ultimately show ?thesis
      using "1.prems" unfolding c name_stored_def t by simp
  qed
qed

lemma names_match_iff:
  assumes "cstr_ok name" "name_stored sn nm" "j \<le> length name" "j \<le> length nm" "take j name = take j nm"
  shows "names_match name sn j \<longleftrightarrow> name = nm"
  using assms
proof (induction name sn j rule: names_match.induct)
  case (1 name sn j)
  have sn: "sn ! j = cstr_at nm j"
  proof (cases "j < length nm")
    case True
    then have "sn ! j = nm ! j" using "1.prems"(2) by (metis nth_take name_stored_def)
    then show ?thesis using True by (simp add: cstr_at_def)
  next
    case False
    then show ?thesis using "1.prems" by (simp add: name_stored_def cstr_at_def)
  qed
  have ok: "cstr_ok nm" using "1.prems"(2) by (simp add: name_stored_def)
  show ?case
  proof (cases "cstr_at name j = 0 \<and> cstr_at nm j = 0")
    case True
    then have "length name = j" "length nm = j"
      using cstr_at_zero_iff [OF "1.prems"(1)] cstr_at_zero_iff [OF ok] "1.prems" by auto
    then have "name = nm" using "1.prems" by simp
    moreover have "names_match name sn j" using True sn by (simp add: names_match.simps [of name sn j])
    ultimately show ?thesis by simp
  next
    case False
    show ?thesis
    proof (cases "cstr_at name j = cstr_at nm j")
      case eq: True
      then have less: "j < length name" "j < length nm"
        using False by (auto simp: cstr_at_def split: if_splits)
      then have "take (j + 1) name = take (j + 1) nm"
        using eq "1.prems"(5) by (simp add: take_Suc_conv_app_nth cstr_at_def)
      then have "names_match name sn (j + 1) \<longleftrightarrow> name = nm"
        using "1.IH" "1.prems" less eq False sn by simp
      then show ?thesis using eq False sn by (simp add: names_match.simps [of name sn j])
    next
      case neq: False
      then have "name \<noteq> nm" by auto
      then show ?thesis using neq False sn by (simp add: names_match.simps [of name sn j])
    qed
  qed
qed

lemma map_of_find:
  "map_of L k = map_option (\<lambda>i. snd (L ! i)) (List.find (\<lambda>i. fst (L ! i) = k) [0..<length L])"
proof (induction L rule: rev_induct)
  case (snoc x L)
  have find_app: "List.find P (xs @ [y]) = (case List.find P xs of Some z \<Rightarrow> Some z | None \<Rightarrow> if P y then Some y else None)"
    for P :: "nat \<Rightarrow> bool" and xs y by (induction xs) auto
  have "List.find (\<lambda>i. fst ((L @ [x]) ! i) = k) [0..<length L] = List.find (\<lambda>i. fst (L ! i) = k) [0..<length L]"
    by (rule find_cong) (auto simp: nth_append)
  moreover have "List.find (\<lambda>i. fst (L ! i) = k) [0..<length L] = Some i \<Longrightarrow> i < length L" for i
    by (simp add: find_upt_Some_iff)
  ultimately show ?case
    using snoc by (auto simp: find_app nth_append map_add_def map_of_append split: option.split)
qed simp

lemma get_hook_map_of:
  assumes "table_rel t L" "cstr_ok name"
  shows "get_hook_coordinate t name = (case map_of L name of None \<Rightarrow> 0 | Some c \<Rightarrow> c)"
proof -
  have "List.find (\<lambda>i. names_match name (sym_name (symbol_table t ! i)) 0) [0..<length L] =
      List.find (\<lambda>i. fst (L ! i) = name) [0..<length L]"
  proof (rule find_cong)
    fix i assume "i \<in> set [0..<length L]"
    then have "name_stored (sym_name (symbol_table t ! i)) (fst (L ! i))"
      using assms(1) by (simp add: table_rel_def)
    from names_match_iff [OF assms(2) this, of 0]
    show "names_match name (sym_name (symbol_table t ! i)) 0 = (fst (L ! i) = name)" by auto
  qed simp
  moreover have "List.find (\<lambda>i. fst (L ! i) = name) [0..<length L] = Some i \<Longrightarrow>
      sym_coordinate (symbol_table t ! i) = snd (L ! i)" for i
    using assms(1) by (simp add: table_rel_def find_upt_Some_iff)
  ultimately show ?thesis
    using assms(1) by (auto simp: get_hook_coordinate_def table_rel_def map_of_find split: option.split)
qed

lemma register_table_rel:
  assumes "table_rel t L" "cstr_ok name"
  shows "table_rel (register_hook name coord t) (if length L < 64 then L @ [(take 31 name, coord)] else L)"
proof (cases "length L < 64")
  case True
  let ?sn = "sym_name (symbol_table t ! length L)"
  have "name_stored (copy_name name 0 ?sn) (take 31 name)"
    by (rule copy_name_result) (use assms True in \<open>auto simp: table_rel_def\<close>)
  then show ?thesis
    using assms True
    by (auto simp: register_hook_def table_rel_def Let_def nth_append nth_list_update less_Suc_eq
        name_stored_def)
next
  case False
  then show ?thesis using assms by (simp add: register_hook_def table_rel_def)
qed

lemma table_rel_new:
  assumes "length table0 = 64" "\<forall>s \<in> set table0. length (sym_name s) = 32"
  shows "table_rel (LogicTransducer table0) []"
  using assms by (simp add: table_rel_def LogicTransducer_def)

section \<open>Chains that were burnt\<close>

text \<open>The atoms that make a chain resolve to \<open>rs\<close>: each intent is the previous result combined with the
  script word.\<close>

fun chain_atoms :: "u64 \<Rightarrow> u64 list \<Rightarrow> u64 list \<Rightarrow> (u64 \<times> value128) list" where
  "chain_atoms prev (w # ws) (r # rs) = (prev XOR w, val128 0 r) # chain_atoms r ws rs"
| "chain_atoms prev _ _ = []"

fun burn_all :: "manifold \<Rightarrow> (u64 \<times> u64) list \<Rightarrow> manifold option" where
  "burn_all m [] = Some m"
| "burn_all m ((intent, r) # xs) = (case burn_atom m intent r of None \<Rightarrow> None | Some m' \<Rightarrow> burn_all m' xs)"

lemma burn_all_puts: "burn_all m xs = puts_with put_atom m (map (\<lambda>(a, r). (a, val128 0 r)) xs)"
  by (induction xs arbitrary: m) (auto simp: burn_atom_def split: option.split)

lemma chain_atoms_burn:
  "map (\<lambda>(a, r). (a, val128 0 r)) (map (\<lambda>(a, v). (a, v_lo v)) (chain_atoms p ws rs)) = chain_atoms p ws rs"
  by (induction p ws rs rule: chain_atoms.induct) auto

lemma resolve_chain_atoms:
  assumes "length ws = length rs" "0 \<notin> set rs" "\<forall>(a, v) \<in> set (chain_atoms p ws rs). fetch a = v"
  shows "resolve_chain_from fetch \<lparr>last_resolve = p, fault = False\<rparr> ws =
    \<lparr>last_resolve = last (p # rs), fault = False\<rparr>"
  using assms
  by (induction p ws rs rule: chain_atoms.induct) (auto simp: Let_def)

lemma last_put_distinct:
  assumes "distinct (map (\<lambda>(a, v). unat a div 16) ops)" "(a, v) \<in> set ops"
  shows "last_put ops (unat a div 16) = Some v"
proof -
  let ?l = "map (\<lambda>(a, v). (unat a div 16, v)) ops"
  have "distinct (map fst (rev ?l))"
    using assms(1) by (simp add: rev_map [symmetric] case_prod_unfold comp_def)
  moreover have "(unat a div 16, v) \<in> set (rev ?l)" using assms(2) by force
  ultimately show ?thesis unfolding last_put_def by (rule map_of_is_SomeI)
qed

lemma length_chain_atoms: "length (chain_atoms p ws rs) = min (length ws) (length rs)"
  by (induction p ws rs rule: chain_atoms.induct) auto

lemma spatial_low_bits:
  assumes "c < 16"
  shows "resolve_spatial (holographic_fetch m) op (a XOR c) b = resolve_spatial (holographic_fetch m) op a b"
proof -
  let ?o = "push_bit 56 (ucast op) :: u64"
  have "drop_bit 4 c = 0" using assms
    by (simp add: drop_bit_eq_div word_less_nat_alt word_unat_eq_iff unat_div)
  then have "drop_bit 4 (?o OR ((a XOR c) XOR b)) = drop_bit 4 (?o OR (a XOR b))"
    by (simp add: drop_bit_xor drop_bit_or)
  then have "unat (drop_bit 4 (?o OR ((a XOR c) XOR b))) = unat (drop_bit 4 (?o OR (a XOR b)))" by simp
  then have "unat (?o OR ((a XOR c) XOR b)) div 16 = unat (?o OR (a XOR b)) div 16"
    unfolding drop_bit_eq_div by (simp add: unat_div)
  then show ?thesis unfolding resolve_spatial_def by (metis manifold.fetch_alias)
qed

section \<open>Properties\<close>

text \<open>C26: the symbol table refines an association list of at most 64 names cut to 31 characters:
  registering appends while there is room, and a lookup gives the coordinate of the first entry with
  exactly that name, or 0. So a second registration of a name is never seen, and a name longer than 31
  characters is never found.\<close>
theorem symbol_table_refines_alist:
  assumes "table_rel t L" "cstr_ok name"
  shows "table_rel (register_hook name coord t) (if length L < 64 then L @ [(take 31 name, coord)] else L) \<and>
    get_hook_coordinate t name = (case map_of L name of None \<Rightarrow> 0 | Some c \<Rightarrow> c) \<and>
    (31 < length name \<longrightarrow> get_hook_coordinate t name = 0)"
proof -
  have "name \<notin> fst ` set L" if "31 < length name"
  proof
    assume "name \<in> fst ` set L"
    then obtain k where k: "k < length L" "fst (L ! k) = name" by (auto simp: in_set_conv_nth)
    with assms(1) have "length name \<le> 31" by (auto simp: table_rel_def name_stored_def)
    with that show False by simp
  qed
  then show ?thesis
    using register_table_rel [OF assms] get_hook_map_of [OF assms] map_of_eq_None_iff [of L name] by auto
qed

lemma symbol_table_refines_alist_witness:
  "get_hook_coordinate (register_hook [65, 66] 7
     (LogicTransducer (replicate 64 \<lparr>sym_name = replicate 32 88, sym_coordinate = 0\<rparr>))) [65, 66] = 7"
proof -
  let ?t = "LogicTransducer (replicate 64 \<lparr>sym_name = replicate 32 88, sym_coordinate = 0\<rparr>)"
  have "table_rel ?t []" by (rule table_rel_new) auto
  from symbol_table_refines_alist [OF this, of "[65, 66]" 7]
  have r: "table_rel (register_hook [65, 66] 7 ?t) [([65, 66], 7)]" by (simp add: cstr_ok_def)
  from symbol_table_refines_alist [OF r, of "[65, 66]" 0] show ?thesis by (simp add: cstr_ok_def)
qed

text \<open>C12: a chain burnt into a fresh manifold resolves: when the intents are different atoms, there are
  at most 1024 of them and no result is zero, then burning never fails and the chain resolves to the
  last result without a fault.\<close>
theorem burnt_chain_resolves:
  assumes "length ws = length rs" "0 \<notin> set rs" "length ws \<le> 1024"
    and "distinct (map (\<lambda>(a, v). unat a div 16) (chain_atoms 0 ws rs))"
  shows "\<exists>m. burn_all (fst (SubstrateManifold g pool0 map0))
        (map (\<lambda>(a, v). (a, v_lo v)) (chain_atoms 0 ws rs)) = Some m \<and>
    resolve_chain (holographic_fetch m) ws = \<lparr>last_resolve = last (0 # rs), fault = False\<rparr>"
proof -
  let ?ops = "chain_atoms 0 ws rs"
  have "card ((\<lambda>(a, v). vblock_of a) ` set ?ops) \<le> card (set ?ops)" by (rule card_image_le) simp
  also have "\<dots> \<le> length ?ops" by (rule card_length)
  also have "\<dots> \<le> 1024" using assms(3) by (simp add: length_chain_atoms)
  finally obtain m where m: "puts_with put_atom (fst (SubstrateManifold g pool0 map0)) ?ops = Some m"
    "\<And>b v. last_put ?ops (unat b div 16) = Some v \<Longrightarrow> holographic_fetch m b = v"
    using puts_fresh by blast
  have "resolve_chain (holographic_fetch m) ws = \<lparr>last_resolve = last (0 # rs), fault = False\<rparr>"
    unfolding resolve_chain_def
    by (rule resolve_chain_atoms [OF assms(1,2)]) (use m(2) last_put_distinct [OF assms(4)] in auto)
  then show ?thesis using m(1) unfolding burn_all_puts chain_atoms_burn by blast
qed

lemma burnt_chain_resolves_witness:
  "\<exists>m. burn_all (fst (SubstrateManifold (PhysicalMemory 0x2000000 0x40000000) (\<lambda>_. 1) (\<lambda>_. 2))) [(0x100, 0x20), (0x320, 9)] = Some m \<and>
     resolve_chain (holographic_fetch m) [0x100, 0x300] = \<lparr>last_resolve = 9, fault = False\<rparr>"
  using burnt_chain_resolves [of "[0x100, 0x300]" "[0x20, 9]" "PhysicalMemory 0x2000000 0x40000000" "\<lambda>_. 1" "\<lambda>_. 2"] by simp

text \<open>The simulated AES round is not a permutation: states that differ only in the low four bits of
  their words give the same result under every key and every manifold, and only the exclusive or of
  state and key matters.\<close>
theorem aes_round_not_injective:
  assumes "c < 16" "d < 16"
  shows "topological_aes_round (holographic_fetch m) (a XOR c, b XOR d) key =
      topological_aes_round (holographic_fetch m) (a, b) key \<and>
    topological_aes_round (holographic_fetch m) (a, b) key =
      topological_aes_round (holographic_fetch m) key (a, b)"
  using assms
  by (simp add: topological_aes_round_def spatial_low_bits) (simp add: resolve_spatial_def xor.commute)

lemma aes_round_not_injective_witness:
  "topological_aes_round (holographic_fetch (fst (SubstrateManifold (PhysicalMemory 0x2000000 0x40000000) (\<lambda>_. 1) (\<lambda>_. 2)))) (1 XOR 3, 2 XOR 0) (5, 6) =
   topological_aes_round (holographic_fetch (fst (SubstrateManifold (PhysicalMemory 0x2000000 0x40000000) (\<lambda>_. 1) (\<lambda>_. 2)))) (1, 2) (5, 6)"
  using aes_round_not_injective [of 3 0 _ 1 2 "(5, 6)"] by simp

end
