(* ===== verification/Predictive.thy ===== *)
theory Predictive
  imports AtomStore "HOL-Library.Monad_Syntax"
begin

text \<open>
  \<open>PredictiveEngine\<close> of \<open>src/core/predictive_topology.hpp\<close>: a ring of 256 predictions, checked later
  against the topology. \<open>Emergence::SPECULATIVE_ROUTE\<close> is not defined anywhere in the repository and
  is a parameter, as is the upper word of a guess, which the code does not initialise. The rollback
  interrupt is the list of the two local APIC register writes it makes.
\<close>

unbundle bit_operations_syntax

record spec_record =
  sr_vaddr :: u64
  sr_predicted :: value128

record predictive =
  spec_ring :: "nat \<Rightarrow> spec_record"
  sp_head :: u32
  sp_tail :: u32

definition PredictiveEngine :: "(nat \<Rightarrow> spec_record) \<Rightarrow> predictive" where
  "PredictiveEngine ring0 = \<lparr>spec_ring = ring0, sp_head = 0, sp_tail = 0\<rparr>"

definition trigger_ipi_rollback :: "u8 \<Rightarrow> (u64 \<times> u32) list" where
  "trigger_ipi_rollback target_core =
    [(0xFEE00310, push_bit 24 (ucast target_core)), (0xFEE00300, 0x4000 OR 0x80)]"

definition spec_guess :: "u16 \<Rightarrow> u64 \<Rightarrow> u64 \<Rightarrow> value128" where
  "spec_guess spec_route uninit vaddr =
    pack_route (val128 uninit ((vaddr * PHI_LO) XOR PHI_HI)) spec_route"

definition speculative_fetch :: "u16 \<Rightarrow> u64 \<Rightarrow> u64 \<Rightarrow> predictive \<Rightarrow> predictive \<times> value128" where
  "speculative_fetch spec_route uninit vaddr e =
    (let guess = spec_guess spec_route uninit vaddr;
         current_head = sp_head e;
         nxt = (current_head + 1) mod 256
     in (e\<lparr>spec_ring := (spec_ring e)(unat current_head := \<lparr>sr_vaddr = vaddr, sr_predicted = guess\<rparr>),
           sp_head := nxt\<rparr>, guess))"

text \<open>The loop of \<open>verify_consensus\<close>; \<open>None\<close> is a loop that does not end. The result holds the register
  writes of the rollback, none when every prediction held.\<close>

partial_function (option) verify_consensus ::
    "(u64 \<Rightarrow> value128) \<Rightarrow> predictive \<Rightarrow> (predictive \<times> (u64 \<times> u32) list) option" where
  "verify_consensus fetch e =
    (if sp_tail e = sp_head e then Some (e, [])
     else
       let current_tail = sp_tail e;
           target_vaddr = sr_vaddr (spec_ring e (unat current_tail));
           predicted = sr_predicted (spec_ring e (unat current_tail));
           actual = fetch target_vaddr
       in if v_lo actual \<noteq> v_lo predicted \<or> route actual \<noteq> route predicted
          then Some (e\<lparr>sp_head := current_tail\<rparr>, trigger_ipi_rollback 0)
          else verify_consensus fetch (e\<lparr>sp_tail := (current_tail + 1) mod 256\<rparr>))"

section \<open>The queue in the ring\<close>

definition ring_ok :: "predictive \<Rightarrow> bool" where
  "ring_ok e \<longleftrightarrow> unat (sp_head e) < 256 \<and> unat (sp_tail e) < 256"

definition pending_count :: "predictive \<Rightarrow> nat" where
  "pending_count e = (unat (sp_head e) + 256 - unat (sp_tail e)) mod 256"

definition pending :: "predictive \<Rightarrow> spec_record list" where
  "pending e = map (\<lambda>k. spec_ring e ((unat (sp_tail e) + k) mod 256)) [0..<pending_count e]"

definition holds_now :: "(u64 \<Rightarrow> value128) \<Rightarrow> spec_record \<Rightarrow> bool" where
  "holds_now fetch r \<longleftrightarrow> v_lo (fetch (sr_vaddr r)) = v_lo (sr_predicted r) \<and>
     route (fetch (sr_vaddr r)) = route (sr_predicted r)"

lemma unat_next: "unat h < 256 \<Longrightarrow> unat ((h + 1) mod 256 :: u32) = (unat h + 1) mod 256"
  by (simp add: unat_mod unat_word_ariths)

lemma pending_count_zero: "ring_ok e \<Longrightarrow> pending_count e = 0 \<longleftrightarrow> sp_tail e = sp_head e"
proof -
  assume "ring_ok e"
  then have h: "unat (sp_head e) < 256" "unat (sp_tail e) < 256" by (simp_all add: ring_ok_def)
  show ?thesis
  proof (cases "unat (sp_tail e) \<le> unat (sp_head e)")
    case True
    then have "(unat (sp_head e) + 256 - unat (sp_tail e)) mod 256 = unat (sp_head e) - unat (sp_tail e)"
      using h by (simp add: mod_if)
    then show ?thesis using True by (auto simp: pending_count_def word_unat_eq_iff)
  next
    case False
    then show ?thesis using h by (auto simp: pending_count_def word_unat_eq_iff)
  qed
qed

lemma head_position: "ring_ok e \<Longrightarrow> (unat (sp_tail e) + pending_count e) mod 256 = unat (sp_head e)"
  by (auto simp: ring_ok_def pending_count_def mod_simps)

lemma pending_count_less: "pending_count e < 256"
  by (simp add: pending_count_def)

lemma ring_position_free:
  assumes "ring_ok e" "k < pending_count e"
  shows "(unat (sp_tail e) + k) mod 256 \<noteq> unat (sp_head e)"
proof
  assume "(unat (sp_tail e) + k) mod 256 = unat (sp_head e)"
  then have "(unat (sp_tail e) + k) mod 256 = (unat (sp_tail e) + pending_count e) mod 256"
    using head_position [OF assms(1)] by simp
  then have "256 dvd pending_count e - k"
    using assms(2) mod_eq_dvd_iff_nat [of "unat (sp_tail e) + k" "unat (sp_tail e) + pending_count e" 256] by simp
  then show False using assms(2) pending_count_less [of e] by (auto dest: dvd_imp_le)
qed

lemma speculative_fetch_ok: "ring_ok e \<Longrightarrow> ring_ok (fst (speculative_fetch r u a e))"
  by (simp add: ring_ok_def speculative_fetch_def Let_def unat_next)

lemma pending_speculative_fetch:
  assumes "ring_ok e"
  shows "pending (fst (speculative_fetch r u a e)) =
    (if length (pending e) = 255 then []
     else pending e @ [\<lparr>sr_vaddr = a, sr_predicted = spec_guess r u a\<rparr>])"
proof -
  let ?e = "fst (speculative_fetch r u a e)"
  have h: "unat (sp_head e) < 256" "unat (sp_tail e) < 256" using assms by (simp_all add: ring_ok_def)
  have t: "sp_tail ?e = sp_tail e" by (simp add: speculative_fetch_def Let_def)
  have hd: "unat (sp_head ?e) = (unat (sp_head e) + 1) mod 256"
    using h by (simp add: speculative_fetch_def Let_def unat_next)
  have cnt: "pending_count ?e = (if pending_count e = 255 then 0 else pending_count e + 1)"
    using h unfolding pending_count_def t hd by (auto simp: mod_if)
  have "spec_ring ?e ((unat (sp_tail e) + k) mod 256) = spec_ring e ((unat (sp_tail e) + k) mod 256)"
    if "k < pending_count e" for k
    using ring_position_free [OF assms that] by (simp add: speculative_fetch_def Let_def)
  moreover have "spec_ring ?e ((unat (sp_tail e) + pending_count e) mod 256) =
      \<lparr>sr_vaddr = a, sr_predicted = spec_guess r u a\<rparr>"
    using head_position [OF assms] by (simp add: speculative_fetch_def Let_def)
  ultimately show ?thesis by (simp add: pending_def cnt t)
qed

lemma pending_Cons:
  assumes "ring_ok e" "sp_tail e \<noteq> sp_head e"
  shows "pending e = spec_ring e (unat (sp_tail e)) # pending (e\<lparr>sp_tail := (sp_tail e + 1) mod 256\<rparr>)"
    and "pending_count (e\<lparr>sp_tail := (sp_tail e + 1) mod 256\<rparr>) = pending_count e - 1"
proof -
  let ?e = "e\<lparr>sp_tail := (sp_tail e + 1) mod 256\<rparr>"
  have h: "unat (sp_head e) < 256" "unat (sp_tail e) < 256" using assms by (simp_all add: ring_ok_def)
  have pos: "0 < pending_count e" using assms pending_count_zero [of e] by simp
  have tl: "unat (sp_tail ?e) = (unat (sp_tail e) + 1) mod 256" using h by (simp add: unat_next)
  show cnt: "pending_count ?e = pending_count e - 1"
    using h pos unfolding pending_count_def tl by (auto simp: mod_if split: if_splits)
  have "[0..<pending_count e] = 0 # map Suc [0..<pending_count e - 1]"
    using pos by (metis Suc_diff_1 map_Suc_upt upt_conv_Cons)
  then show "pending e = spec_ring e (unat (sp_tail e)) # pending ?e"
    using h unfolding pending_def cnt tl by (simp add: mod_simps)
qed

lemma verify_result:
  assumes "ring_ok e"
  shows "\<exists>e' w. verify_consensus fetch e = Some (e', w) \<and> ring_ok e' \<and> pending e' = [] \<and>
    spec_ring e' = spec_ring e \<and>
    (if list_all (holds_now fetch) (pending e) then w = [] \<and> sp_head e' = sp_head e
     else w = trigger_ipi_rollback 0 \<and>
       unat (sp_head e') = (unat (sp_tail e) + length (takeWhile (holds_now fetch) (pending e))) mod 256)"
  using assms
proof (induction "pending_count e" arbitrary: e)
  case 0
  then have "sp_tail e = sp_head e" using pending_count_zero by metis
  then show ?case using 0 by (subst verify_consensus.simps) (simp add: pending_def)
next
  case (Suc n)
  then have ne: "sp_tail e \<noteq> sp_head e" using pending_count_zero [of e] by auto
  let ?e = "e\<lparr>sp_tail := (sp_tail e + 1) mod 256\<rparr>" and ?r = "spec_ring e (unat (sp_tail e))"
  have h: "unat (sp_head e) < 256" "unat (sp_tail e) < 256" using Suc.prems by (simp_all add: ring_ok_def)
  note pc = pending_Cons [OF Suc.prems ne]
  show ?case
  proof (cases "holds_now fetch ?r")
    case True
    have "ring_ok ?e" using h by (simp add: ring_ok_def unat_next)
    moreover have "n = pending_count ?e" using Suc.hyps(2) pc(2) by simp
    moreover have "verify_consensus fetch e = verify_consensus fetch ?e"
      using True ne by (subst verify_consensus.simps) (simp add: holds_now_def Let_def)
    ultimately show ?thesis
      using Suc.hyps(1) [of ?e] True h unfolding pc(1) by (auto simp: unat_next mod_simps split: if_splits)
  next
    case False
    have "verify_consensus fetch e = Some (e\<lparr>sp_head := sp_tail e\<rparr>, trigger_ipi_rollback 0)"
      using False ne by (subst verify_consensus.simps) (auto simp: holds_now_def Let_def)
    then show ?thesis
      using False h unfolding pc(1) by (simp add: ring_ok_def pending_def pending_count_def)
  qed
qed

section \<open>Properties\<close>

text \<open>The ring is a queue that forgets: a prediction is appended, except that the 256th unchecked one
  makes the ring look empty, and then none of the 256 predictions is ever checked.\<close>
theorem ring_forgets_when_full:
  assumes "ring_ok e"
  shows "pending (fst (speculative_fetch r u a e)) =
    (if length (pending e) = 255 then []
     else pending e @ [\<lparr>sr_vaddr = a, sr_predicted = spec_guess r u a\<rparr>])"
  by (rule pending_speculative_fetch [OF assms])

lemma ring_forgets_when_full_witness:
  "length (pending (fst (speculative_fetch 5 0 9 (PredictiveEngine (\<lambda>_. \<lparr>sr_vaddr = 0, sr_predicted = val128 0 0\<rparr>))))) = 1"
  by (subst ring_forgets_when_full) (simp_all add: ring_ok_def PredictiveEngine_def pending_def pending_count_def)

text \<open>Checking always ends, leaves nothing pending, and sends the rollback interrupt exactly when some
  pending prediction disagrees with the topology; then the head goes back to the first such one.\<close>
theorem verify_consensus_total:
  assumes "ring_ok e"
  shows "\<exists>e' w. verify_consensus fetch e = Some (e', w) \<and> pending e' = [] \<and>
    (if list_all (holds_now fetch) (pending e) then w = [] \<and> sp_head e' = sp_head e
     else w = trigger_ipi_rollback 0 \<and>
       unat (sp_head e') = (unat (sp_tail e) + length (takeWhile (holds_now fetch) (pending e))) mod 256)"
  using verify_result [OF assms, of fetch] by blast

lemma verify_consensus_total_witness:
  "\<exists>e' w. verify_consensus (\<lambda>_. val128 0 0)
     (fst (speculative_fetch 5 0 9 (PredictiveEngine (\<lambda>_. \<lparr>sr_vaddr = 0, sr_predicted = val128 0 0\<rparr>)))) = Some (e', w) \<and>
     pending e' = []"
  using verify_consensus_total [of "fst (speculative_fetch 5 0 9 (PredictiveEngine (\<lambda>_. \<lparr>sr_vaddr = 0, sr_predicted = val128 0 0\<rparr>)))"
      "\<lambda>_. val128 0 0"]
  by (force simp: ring_ok_def PredictiveEngine_def speculative_fetch_def Let_def)

end
