(* ===== verification/Keygen.thy ===== *)
theory Keygen
  imports AtomStore
begin

text \<open>
  The two key sources of the kernel: \<open>Argon2Sovereign::derive\<close> (\<open>src/crypto/argon2_hardener.hpp\<close>)
  and \<open>Consensus::generate_device_id\<close> (\<open>src/crypto/consensus_keygen.hpp\<close>, x86-64). \<open>char\<close> is signed on
  that target, so a character above 127 is extended with ones before it is shifted. The registers
  \<open>cpuid\<close> returns are parameters.
\<close>

unbundle bit_operations_syntax

section \<open>Argon2Sovereign\<close>

definition mix_char :: "u64 \<Rightarrow> nat \<Rightarrow> u8 \<Rightarrow> u64" where
  "mix_char h i c = h XOR push_bit (i mod 8 * 8) (scast c)"

fun mix_from :: "nat \<Rightarrow> u64 \<Rightarrow> cstr \<Rightarrow> u64" where
  "mix_from i h [] = h"
| "mix_from i h (c # cs) = mix_from (i + 1) (mix_char h i c) cs"

definition argon2_iter :: "(u64 \<Rightarrow> value128) \<Rightarrow> u64 \<times> u64 \<Rightarrow> u64 \<times> u64" where
  "argon2_iter fetch = (\<lambda>(hash_hi, hash_lo).
     let noise = fetch (hash_hi XOR hash_lo);
         hash_hi1 = (hash_hi * PHI_HI) XOR v_hi noise;
         hash_lo1 = (hash_lo * PHI_LO) XOR v_lo noise
     in (rot64 13 hash_hi1, rot64 17 hash_lo1))"

text \<open>The third argument is the manifold's fetch function, or \<open>None\<close> for a null pointer.\<close>

definition argon2_derive :: "cstr \<Rightarrow> cstr \<Rightarrow> (u64 \<Rightarrow> value128) option \<Rightarrow> seed" where
  "argon2_derive password hwid manifold =
    (let hash_hi = mix_from 0 0x736F6D6570736575 password;
         hash_lo = mix_from 0 0x646F72616E646F6D hwid;
         (h, l) = (case manifold of None \<Rightarrow> (hash_hi, hash_lo)
                   | Some fetch \<Rightarrow> (argon2_iter fetch ^^ 1024) (hash_hi, hash_lo))
     in \<lparr>s_hi = h, s_lo = l\<rparr>)"

lemma mix_from_append: "mix_from i h (xs @ ys) = mix_from (i + length xs) (mix_from i h xs) ys"
  by (induction xs arbitrary: i h) auto

lemma mix_from_xor: "mix_from i (h XOR k) xs = mix_from i h xs XOR k"
proof (induction xs arbitrary: i h)
  case (Cons c xs)
  have "mix_char (h XOR k) i c = mix_char h i c XOR k" by (simp add: mix_char_def ac_simps)
  then show ?case using Cons.IH [of "i + 1" "mix_char h i c"] by simp
qed simp

lemma mix_from_start: "mix_from i h xs = h XOR mix_from i 0 xs"
  using mix_from_xor [of i 0 h xs] by (simp add: ac_simps)

lemma mix_from_period: "8 dvd k \<Longrightarrow> mix_from (i + k) h xs = mix_from i h xs"
proof (induction xs arbitrary: i h)
  case (Cons c xs)
  have "(i + k) mod 8 = i mod 8" using Cons.prems by (auto elim: dvdE)
  then have "mix_char h (i + k) c = mix_char h i c" by (simp add: mix_char_def)
  then show ?case using Cons.IH [of "i + 1"] Cons.prems by (simp add: add.assoc add.commute)
qed simp

lemma mix_from_twice:
  assumes "8 dvd length xs"
  shows "mix_from 0 h (xs @ xs) = h"
proof -
  have "mix_from 0 h (xs @ xs) = mix_from 0 (mix_from 0 h xs) xs"
    using mix_from_period [OF assms, of 0] by (simp add: mix_from_append)
  also have "\<dots> = (h XOR mix_from 0 0 xs) XOR mix_from 0 0 xs"
    by (subst mix_from_start) (simp only: mix_from_start [of 0 h xs])
  finally show ?thesis by simp
qed

section \<open>Device identifier\<close>

text \<open>\<open>features ^ brand_chunk\<close> is an \<open>unsigned int\<close>.\<close>

definition hardware_id :: "u32 \<Rightarrow> u32 \<Rightarrow> u32 \<times> u32 \<times> u32 \<times> u32 \<Rightarrow> u64" where
  "hardware_id signature features brand =
    (case brand of (a, b, c, d) \<Rightarrow>
       push_bit 32 (ucast signature) OR ucast (features XOR (a XOR b XOR c XOR d)))"

definition hex_chars :: "u8 list" where
  "hex_chars = lit ''0123456789ABCDEF''"

definition logistic_step :: "u64 \<Rightarrow> u64" where
  "logistic_step x =
    (let term1 = x; term2 = 0xFFFFFFFF - x
     in drop_bit 16 (4085 * drop_bit 8 term1 * drop_bit 8 term2))"

definition id_step :: "u64 \<Rightarrow> u64 \<Rightarrow> u64" where
  "id_step hw x = (let x1 = logistic_step x in if x1 < 0x1000 then x1 XOR hw else x1)"

fun id_chars :: "nat \<Rightarrow> u64 \<Rightarrow> u64 \<Rightarrow> u8 list" where
  "id_chars 0 hw x = []"
| "id_chars (Suc n) hw x =
    (let x' = id_step hw x in hex_chars ! unat (x' mod 16) # id_chars n hw x')"

text \<open>The 16 bytes written to the output buffer.\<close>

definition generate_device_id :: "u32 \<Rightarrow> u32 \<Rightarrow> u32 \<times> u32 \<times> u32 \<times> u32 \<Rightarrow> u8 list" where
  "generate_device_id signature features brand =
    (let hw = hardware_id signature features brand;
         x0 = hw mod 0xFFFFFFFF;
         x = (if x0 = 0 then 0x12345678 else x0)
     in id_chars 15 hw x @ [0])"

lemma length_id_chars [simp]: "length (id_chars n hw x) = n"
  by (induction n arbitrary: x) (simp_all add: Let_def)

lemma hex_chars_values: "hex_chars = [48, 49, 50, 51, 52, 53, 54, 55, 56, 57, 65, 66, 67, 68, 69, 70]"
  by (simp add: hex_chars_def lit_def)

lemma hex_chars_nth: "hex_chars ! unat (x mod 16 :: u64) \<in> set hex_chars"
proof (rule nth_mem)
  have "unat (x mod 16 :: u64) < 16" by (simp add: unat_mod)
  then show "unat (x mod 16 :: u64) < length hex_chars" by (simp add: hex_chars_values)
qed

lemma id_chars_hex: "set (id_chars n hw x) \<subseteq> set hex_chars"
  by (induction n arbitrary: x) (simp_all add: Let_def hex_chars_nth)

lemma logistic_step_nat:
  assumes "unat x \<le> 0xFFFFFFFF"
  shows "unat (logistic_step x) = 4085 * (unat x div 256) * ((0xFFFFFFFF - unat x) div 256) div 65536"
proof -
  define a where "a = unat x div 256"
  define b where "b = (0xFFFFFFFF - unat x) div 256"
  have t2: "unat (0xFFFFFFFF - x) = 0xFFFFFFFF - unat x"
    using assms by (subst unat_sub) (simp_all add: word_le_nat_alt)
  have ua: "unat (drop_bit 8 x) = a" by (simp add: a_def drop_bit_eq_div unat_div)
  have ub: "unat (drop_bit 8 (0xFFFFFFFF - x)) = b"
    by (simp add: b_def drop_bit_eq_div unat_div t2 del: word_sub_wi)
  have le: "a \<le> 0xFFFFFF" "b \<le> 0xFFFFFF" using assms unfolding a_def b_def by linarith+
  have "a * b \<le> 0xFFFFFF * 0xFFFFFF" by (rule mult_le_mono [OF le])
  then have small: "4085 * a * b < 2 ^ 64" by (simp add: mult.assoc)
  have "unat (4085 * drop_bit 8 x * drop_bit 8 (0xFFFFFFFF - x)) = 4085 * a * b"
  proof -
    have "unat (4085 * drop_bit 8 x :: u64) = 4085 * a"
      using le ua by (subst unat_mult_lem [THEN iffD1]) auto
    then show ?thesis
      using ub small by (subst unat_mult_lem [THEN iffD1]) auto
  qed
  then show ?thesis
    by (simp add: logistic_step_def Let_def a_def b_def drop_bit_eq_div unat_div)
qed

section \<open>Properties\<close>

text \<open>Without a manifold, which is how the kernel calls it, the derived key is two exclusive-or sums:
  repeating a password or a hardware id whose length is a multiple of eight cancels it out, so every
  such doubled password gives the key of the empty password, and the upper word never depends on the
  hardware.\<close>
theorem argon2_without_manifold_cancels:
  assumes "8 dvd length p" "8 dvd length h"
  shows "argon2_derive (p @ p) (h @ h) None = argon2_derive [] [] None \<and>
    s_hi (argon2_derive q h None) = s_hi (argon2_derive q h' None)"
  using assms by (simp add: argon2_derive_def mix_from_twice)

lemma argon2_without_manifold_cancels_witness:
  "argon2_derive (lit ''passwordpassword'') [] None = argon2_derive [] [] None"
proof -
  have l: "lit ''passwordpassword'' = lit ''password'' @ lit ''password''" by (simp add: lit_def)
  have "length (lit ''password'') = 8" by (simp add: lit_def)
  then show ?thesis
    using argon2_without_manifold_cancels [of "lit ''password''" "[]" "[]" "[]"] unfolding l by simp
qed

text \<open>The device identifier is always 15 upper-case hexadecimal digits and a NUL.\<close>
theorem device_id_is_hex:
  "length (generate_device_id signature features brand) = 16 \<and>
   last (generate_device_id signature features brand) = 0 \<and>
   set (butlast (generate_device_id signature features brand)) \<subseteq> set (lit ''0123456789ABCDEF'')"
  using id_chars_hex by (auto simp: generate_device_id_def Let_def butlast_append hex_chars_def [symmetric])

text \<open>The chaotic map does not keep its 32-bit state in 32 bits: from every state between \<open>2^24\<close> and
  \<open>2^31\<close> one step leaves the range, and the next \<open>0xFFFFFFFF - x\<close> wraps.\<close>
theorem logistic_state_leaves_range:
  assumes "0x1000000 \<le> x" "x \<le> 0x80000000"
  shows "0xFFFFFFFF < logistic_step x \<and> 0xFFFFFFFF - logistic_step x > logistic_step x"
proof -
  have ux: "0x1000000 \<le> unat x" "unat x \<le> 0x80000000" using assms by (simp_all add: word_le_nat_alt)
  define a where "a = unat x div 256"
  define b where "b = (0xFFFFFFFF - unat x) div 256"
  have ab: "0x10000 \<le> a" "0x7FFFFF \<le> b" "a \<le> 0x800000" "b \<le> 0xFFFFFF"
    using ux unfolding a_def b_def by linarith+
  have lo: "0x10000 * 0x7FFFFF \<le> a * b" by (rule mult_le_mono [OF ab(1,2)])
  have hi: "a * b \<le> 0x800000 * 0xFFFFFF" by (rule mult_le_mono [OF ab(3,4)])
  have u: "unat (logistic_step x) = 4085 * (a * b) div 65536"
    using logistic_step_nat [of x] ux by (simp add: a_def b_def mult.assoc)
  have big: "0xFFFFFFFF < unat (logistic_step x)" unfolding u using lo by linarith
  have small: "unat (logistic_step x) < 2 ^ 48" unfolding u using hi by simp
  have "unat (0xFFFFFFFF - logistic_step x) = 2 ^ 64 + 0xFFFFFFFF - unat (logistic_step x)"
    using big small by (simp add: unat_sub_if' )
  then show ?thesis using big small by (simp add: word_less_nat_alt)
qed

lemma logistic_state_leaves_range_witness: "0xFFFFFFFF < logistic_step 0x12345678"
  using logistic_state_leaves_range [of "0x12345678"] by simp

end
