(* ===== verification/EvapEngine.thy ===== *)
theory EvapEngine
  imports BmtValue
begin

text \<open>
  \<open>SubShannonEngine\<close> of \<open>src/vdev/context_driven_engine.hpp\<close>: bytes that some candidate of a noise
  function predicts are dropped, the others become 6-byte corrections, and three layers of this are
  folded. The layers write into static arrays of 4096, 1024 and 256 corrections; a write past them is
  \<open>None\<close>. The engine does not read the manifold it is built with.
\<close>

unbundle bit_operations_syntax

section \<open>Context and checks\<close>

record context_accumulator =
  ctx_hi :: u64
  ctx_lo :: u64

definition ContextAccumulator :: context_accumulator where
  "ContextAccumulator = \<lparr>ctx_hi = 0, ctx_lo = 0\<rparr>"

definition absorb :: "context_accumulator \<Rightarrow> u8 \<Rightarrow> context_accumulator" where
  "absorb c byte =
    (let hi1 = ctx_hi c XOR (ucast byte * PHI_HI); hi2 = rot64 7 hi1;
         lo1 = ctx_lo c XOR (ucast byte * PHI_LO); lo2 = rot64 11 lo1;
         hi3 = hi2 XOR drop_bit 32 lo2; lo3 = lo2 XOR drop_bit 32 hi3
     in \<lparr>ctx_hi = hi3, ctx_lo = lo3\<rparr>)"

definition ctx_basis :: "context_accumulator \<Rightarrow> u64 \<Rightarrow> u8" where
  "ctx_basis c n = ucast (ctx_hi c mod n)"

definition ctx_slot :: "context_accumulator \<Rightarrow> u64 \<Rightarrow> u16" where
  "ctx_slot c n = ucast (ctx_lo c mod n)"

definition CANDIDATES :: nat where "CANDIDATES = 2048"

text \<open>The finishing of both check functions: fold, multiply, fold, low byte.\<close>

definition mix_byte :: "u64 \<Rightarrow> u64 \<Rightarrow> u8" where
  "mix_byte k mix =
    (let m1 = mix XOR drop_bit 33 mix; m2 = m1 * k; m3 = m2 XOR drop_bit 33 m2 in ucast (m3 AND 0xFF))"

definition position_crc :: "u64 \<Rightarrow> u64 \<Rightarrow> context_accumulator \<Rightarrow> u64 \<Rightarrow> u8" where
  "position_crc shi slo ctx position =
    mix_byte 0xFF51AFD7ED558CCD (ctx_hi ctx XOR ctx_lo ctx XOR (position * PHI_HI) XOR shi XOR slo)"

definition candidate_crc ::
    "u64 \<Rightarrow> u64 \<Rightarrow> u16 \<Rightarrow> u8 \<Rightarrow> u16 \<Rightarrow> u8 \<Rightarrow> u64 \<Rightarrow> u64 \<Rightarrow> u64 \<Rightarrow> u8" where
  "candidate_crc shi slo slot basis entry byte_pos position c_hi c_lo =
    mix_byte 0xC4CEB9FE1A85EC53
      (shi XOR slo XOR (ucast slot * PHI_HI) XOR (ucast basis * PHI_LO) XOR push_bit 16 (ucast entry)
       XOR ucast byte_pos XOR (position * 0x94D049BB133111EB) XOR c_hi XOR push_bit 3 c_lo)"

text \<open>The loop \<open>for (uint16_t j = 0; j <= entry; j++)\<close> makes \<open>entry + 1\<close> rounds; for the entry 65535 it
  does not end, which \<open>evaporate_layer\<close> below accounts for.\<close>

definition noise_at :: "u64 \<Rightarrow> u64 \<Rightarrow> u16 \<Rightarrow> u8 \<Rightarrow> u16 \<Rightarrow> u8 \<Rightarrow> u8" where
  "noise_at shi slo slot basis entry byte_pos =
    (let sh0 = shi XOR (ucast slot * PHI_LO) XOR (ucast basis * 0xBF58476D1CE4E5B9);
         sl0 = slo XOR (ucast slot * PHI_HI) XOR (ucast basis * 0x94D049BB133111EB);
         (sh, sl) = (mix_round 13 17 ^^ (unat entry + 1)) (sh0, sl0)
     in if byte_pos < 8 then ucast (drop_bit (unat byte_pos * 8) sl)
        else ucast (drop_bit ((unat byte_pos - 8) * 8) sh))"

section \<open>Corrections\<close>

record correction =
  c_delta :: u32
  c_value :: u8
  c_ecc_parity :: u8

definition ecc_of :: "correction \<Rightarrow> u8 \<Rightarrow> u8" where
  "ecc_of c x = x XOR ucast (c_delta c AND 0xFF) XOR ucast (drop_bit 8 (c_delta c) AND 0xFF)"

definition generate_ecc :: "correction \<Rightarrow> correction" where
  "generate_ecc c = c\<lparr>c_ecc_parity := ecc_of c (c_value c)\<rparr>"

definition verify_and_heal :: "correction \<Rightarrow> correction \<times> bool" where
  "verify_and_heal c =
    (let expected = ecc_of c (c_value c)
     in if expected \<noteq> c_ecc_parity c then (c\<lparr>c_value := ecc_of c (c_ecc_parity c)\<rparr>, False)
        else (c, True))"

text \<open>The packed layout, 6 bytes.\<close>

definition correction_bytes :: "correction \<Rightarrow> u8 list" where
  "correction_bytes c = to_le 4 (c_delta c) @ [c_value c, c_ecc_parity c]"

definition layer_bytes :: "correction list \<Rightarrow> u8 list" where
  "layer_bytes cs = concat (map correction_bytes cs)"

section \<open>Evaporation\<close>

definition candidate_hit ::
    "u64 \<Rightarrow> u64 \<Rightarrow> nat \<Rightarrow> context_accumulator \<Rightarrow> u8 \<Rightarrow> context_accumulator \<Rightarrow> bool" where
  "candidate_hit shi slo i ctx byte probe =
    (let entry = word_of_nat (i div 14); byte_pos = word_of_nat (i mod 14); pos = word_of_nat i;
         basis = ctx_basis probe 64; slot = ctx_slot probe 1024
     in noise_at shi slo slot basis entry byte_pos = byte \<and>
        candidate_crc shi slo slot basis entry byte_pos pos (ctx_hi ctx) (ctx_lo ctx) =
          position_crc shi slo ctx pos)"

text \<open>The candidate loop: \<open>n\<close> candidates left, the next one is number \<open>k\<close>.\<close>

fun evap_search :: "(context_accumulator \<Rightarrow> bool) \<Rightarrow> nat \<Rightarrow> nat \<Rightarrow> context_accumulator \<Rightarrow> bool" where
  "evap_search hit 0 k probe = False"
| "evap_search hit (Suc n) k probe =
    (if hit probe then True else evap_search hit n (k + 1) (absorb probe (word_of_nat (k mod 256))))"

fun evaporate_from ::
    "u64 \<Rightarrow> u64 \<Rightarrow> nat \<Rightarrow> context_accumulator \<Rightarrow> u32 \<Rightarrow> u8 list \<Rightarrow> correction list" where
  "evaporate_from shi slo i ctx since_last [] = []"
| "evaporate_from shi slo i ctx since_last (b # bs) =
    (let found = evap_search (candidate_hit shi slo i ctx b) CANDIDATES 0 ctx
     in if found then evaporate_from shi slo (i + 1) (absorb ctx b) (since_last + 1) bs
        else generate_ecc \<lparr>c_delta = since_last, c_value = b, c_ecc_parity = 0\<rparr> #
             evaporate_from shi slo (i + 1) (absorb ctx b) 0 bs)"

text \<open>\<open>None\<close> is a call that does not return: byte 917490 has the entry number 65535.\<close>

definition evaporate_layer :: "u64 \<Rightarrow> u64 \<Rightarrow> u8 list \<Rightarrow> correction list option" where
  "evaporate_layer shi slo data =
    (if length data \<le> 65535 * 14 then Some (evaporate_from shi slo 0 ContextAccumulator 0 data) else None)"

text \<open>Writing \<open>cs\<close> into an array of \<open>cap\<close> corrections.\<close>

definition into_layer :: "nat \<Rightarrow> correction list option \<Rightarrow> correction list option" where
  "into_layer cap r = (case r of None \<Rightarrow> None | Some cs \<Rightarrow> if length cs \<le> cap then Some cs else None)"

text \<open>The bytes \<open>phase_fold\<close> stores in \<open>final_residue\<close>; their number is its result.\<close>

definition phase_fold :: "u64 \<Rightarrow> u64 \<Rightarrow> u8 list \<Rightarrow> u8 list option" where
  "phase_fold m_hi m_lo data =
    (case into_layer 4096 (evaporate_layer (m_hi XOR 0x1111111111111111) m_lo data) of
       None \<Rightarrow> None
     | Some layer1 \<Rightarrow>
         if length layer1 = 0 then Some [] else
     (case into_layer 1024 (evaporate_layer (m_hi XOR 0x2222222222222222) m_lo (layer_bytes layer1)) of
       None \<Rightarrow> None
     | Some layer2 \<Rightarrow>
         if length layer2 = 0 then Some [] else
     (case into_layer 256 (evaporate_layer (m_hi XOR 0x3333333333333333) m_lo (layer_bytes layer2)) of
       None \<Rightarrow> None
     | Some layer3 \<Rightarrow> Some (layer_bytes layer3))))"

section \<open>Layers against their specification\<close>

text \<open>The sixteen bytes of noise for a slot and a basis: \<open>entry + 1\<close> rounds over the keyed seed, the low half
  first.\<close>

definition noise_block :: "u64 \<Rightarrow> u64 \<Rightarrow> u64 \<Rightarrow> u64 \<Rightarrow> nat \<Rightarrow> u8 list" where
  "noise_block shi slo slot basis entry =
    (let (hi, lo) = (mix_round 13 17 ^^ (entry + 1))
        (shi XOR (slot * PHI_LO) XOR (basis * 0xBF58476D1CE4E5B9), slo XOR (slot * PHI_HI) XOR (basis * 0x94D049BB133111EB))
     in to_le 8 lo @ to_le 8 hi)"

text \<open>The context of probe number \<open>k\<close>: the context of the byte, with the bytes 0 to \<open>k - 1\<close> absorbed.\<close>

definition probe_at :: "context_accumulator \<Rightarrow> nat \<Rightarrow> context_accumulator" where
  "probe_at ctx k = foldl absorb ctx (map (\<lambda>j. word_of_nat (j mod 256)) [0..<k])"

text \<open>Whether byte \<open>i\<close> of the data is predicted, stated over the whole data, without the running state of the
  loop and without its candidate test: one of 2048 probes has that byte at place \<open>i mod 14\<close> of its noise
  and a check byte equal to that of the position.\<close>

definition predicted :: "u64 \<Rightarrow> u64 \<Rightarrow> u8 list \<Rightarrow> nat \<Rightarrow> bool" where
  "predicted shi slo data i \<longleftrightarrow>
    (let ctx = foldl absorb ContextAccumulator (take i data); hi = ctx_hi ctx; lo = ctx_lo ctx; n = word_of_nat i :: u64
     in \<exists>k < 2048.
          (let basis = ctx_hi (probe_at ctx k) mod 64; slot = ctx_lo (probe_at ctx k) mod 1024
           in noise_block shi slo slot basis (i div 14) ! (i mod 14) = data ! i \<and>
              mix_byte 0xC4CEB9FE1A85EC53 (shi XOR slo XOR (slot * PHI_HI) XOR (basis * PHI_LO) XOR
                word_of_nat (i div 14 * 65536) XOR word_of_nat (i mod 14) XOR (n * 0x94D049BB133111EB) XOR hi XOR (8 * lo)) =
              mix_byte 0xFF51AFD7ED558CCD (hi XOR lo XOR (n * PHI_HI) XOR shi XOR slo)))"

definition missed :: "u64 \<Rightarrow> u64 \<Rightarrow> u8 list \<Rightarrow> nat list" where
  "missed shi slo data = filter (\<lambda>i. \<not> predicted shi slo data i) [0..<length data]"

text \<open>The places corrections stand for, from \<open>p\<close> on: each is \<open>delta\<close> bytes after the one before.\<close>

fun places :: "nat \<Rightarrow> correction list \<Rightarrow> nat list" where
  "places p [] = []"
| "places p (c # cs) = (p + unat (c_delta c)) # places (p + unat (c_delta c) + 1) cs"

definition ecc_ok :: "correction \<Rightarrow> bool" where
  "ecc_ok c \<longleftrightarrow> verify_and_heal c = (c, True)"

lemma generate_ecc_fields [simp]:
  "c_value (generate_ecc c) = c_value c" "c_delta (generate_ecc c) = c_delta c"
  by (simp_all add: generate_ecc_def)

lemma ecc_ok_generate [simp]: "ecc_ok (generate_ecc c)"
  by (simp add: ecc_ok_def verify_and_heal_def generate_ecc_def ecc_of_def)

lemma evap_search_iff:
  "evap_search hit n k (probe_at ctx k) \<longleftrightarrow> (\<exists>j. k \<le> j \<and> j < k + n \<and> hit (probe_at ctx j))"
proof (induction n arbitrary: k)
  case 0
  then show ?case by simp
next
  case (Suc n)
  have "absorb (probe_at ctx k) (word_of_nat (k mod 256)) = probe_at ctx (k + 1)"
    by (simp add: probe_at_def)
  moreover have "(\<exists>j. k \<le> j \<and> j < k + Suc n \<and> hit (probe_at ctx j)) \<longleftrightarrow>
      hit (probe_at ctx k) \<or> (\<exists>j. k + 1 \<le> j \<and> j < k + 1 + n \<and> hit (probe_at ctx j))"
  proof -
    have "k \<le> j \<and> j < k + Suc n \<longleftrightarrow> j = k \<or> (k + 1 \<le> j \<and> j < k + 1 + n)" for j by auto
    then have "(k \<le> j \<and> j < k + Suc n \<and> hit (probe_at ctx j)) \<longleftrightarrow>
        (j = k \<and> hit (probe_at ctx k)) \<or> (k + 1 \<le> j \<and> j < k + 1 + n \<and> hit (probe_at ctx j))" for j
      by (metis (no_types))
    then show ?thesis by (simp only: ex_disj_distrib simp_thms)
  qed
  ultimately show ?case using Suc [of "k + 1"] by simp
qed

lemma probe_at_0 [simp]: "probe_at ctx 0 = ctx"
  by (simp add: probe_at_def)

text \<open>The code narrows basis, slot, entry and place to 8 and 16 bits; within 917490 bytes nothing is lost.\<close>

lemma ucast_small:
  "(ucast (ucast (w mod 64 :: u64) :: u8) :: u64) = w mod 64"
  "(ucast (ucast (w mod 1024 :: u64) :: u16) :: u64) = w mod 1024"
proof -
  have "w mod 64 = take_bit 6 w" "w mod 1024 = take_bit 10 w" by (simp_all add: take_bit_eq_mod)
  then show "(ucast (ucast (w mod 64 :: u64) :: u8) :: u64) = w mod 64"
    "(ucast (ucast (w mod 1024 :: u64) :: u16) :: u64) = w mod 1024"
    by (auto intro!: bit_word_eqI simp: bit_simps)
qed

lemma ucast_small_nat: "n < 2 ^ 8 \<Longrightarrow> (ucast (word_of_nat n :: u8) :: u64) = word_of_nat n"
  "n < 2 ^ 16 \<Longrightarrow> (ucast (word_of_nat n :: u16) :: u64) = word_of_nat n"
  by (simp_all add: word_unat_eq_iff unsigned_of_nat unsigned_ucast_eq take_bit_nat_eq_self)

lemma noise_at_block:
  assumes "i div 14 < 2 ^ 16"
  shows "noise_at shi slo (ctx_slot p 1024) (ctx_basis p 64) (word_of_nat (i div 14)) (word_of_nat (i mod 14)) =
    noise_block shi slo (ctx_lo p mod 1024) (ctx_hi p mod 64) (i div 14) ! (i mod 14)"
proof -
  have e: "unat (word_of_nat (i div 14) :: u16) = i div 14" and r: "unat (word_of_nat (i mod 14) :: u8) = i mod 14"
    and lt: "(word_of_nat (i mod 14) :: u8) < 8 \<longleftrightarrow> i mod 14 < 8"
    using assms by (simp_all add: unsigned_of_nat take_bit_nat_eq_self word_less_nat_alt)
  show ?thesis
    by (simp add: noise_at_def noise_block_def Let_def split_def e r lt ctx_slot_def ctx_basis_def ucast_small nth_append
        nth_to_le mult.commute)
qed

lemma candidate_hit_spelled:
  assumes "i \<le> 917489"
  shows "(\<exists>k < CANDIDATES. candidate_hit shi slo i (foldl absorb ContextAccumulator (take i data)) (data ! i)
      (probe_at (foldl absorb ContextAccumulator (take i data)) k)) = predicted shi slo data i"
proof -
  have i: "i div 14 < 2 ^ 16" "i mod 14 < 2 ^ 8" using assms by simp_all
  have "push_bit 16 (word_of_nat (i div 14) :: u64) = word_of_nat (i div 14 * 65536)" "push_bit 3 lo = 8 * lo" for lo :: u64
    by (simp_all add: push_bit_eq_mult mult.commute)
  then show ?thesis
    unfolding candidate_hit_def predicted_def Let_def noise_at_block [OF i(1)]
    by (simp add: CANDIDATES_def candidate_crc_def position_crc_def ucast_small_nat(2) [OF i(1)]
        ucast_small_nat(1) [OF i(2)] ctx_slot_def ctx_basis_def ucast_small del: of_nat_mult)
qed

lemma found_predicted:
  assumes "i < length data" "length data \<le> 917490"
  shows "evap_search (candidate_hit shi slo i (foldl absorb ContextAccumulator (take i data)) (data ! i))
      CANDIDATES 0 (foldl absorb ContextAccumulator (take i data)) = predicted shi slo data i"
  using evap_search_iff [where k = 0] candidate_hit_spelled [of i] assms by simp

lemma length_evaporate_from: "length (evaporate_from shi slo i ctx s bs) \<le> length bs"
  by (induction bs arbitrary: i ctx s) (auto simp: Let_def le_SucI)

lemma length_layer_bytes [simp]: "length (layer_bytes cs) = 6 * length cs"
  by (induction cs) (simp_all add: layer_bytes_def correction_bytes_def)

lemma evaporate_from_spec:
  assumes "i \<le> length data" "length data \<le> 917490" "unat s \<le> i"
    and "ctx = foldl absorb ContextAccumulator (take i data)"
  shows "let cs = evaporate_from shi slo i ctx s (drop i data);
             ms = filter (\<lambda>j. \<not> predicted shi slo data j) [i..<length data]
         in places (i - unat s) cs = ms \<and> map c_value cs = map ((!) data) ms \<and> list_all ecc_ok cs"
  using assms
proof (induction "length data - i" arbitrary: i ctx s)
  case 0
  then show ?case by simp
next
  case (Suc n)
  then have i: "i < length data" by simp
  then have d: "drop i data = data ! i # drop (Suc i) data" and u: "[i..<length data] = i # [Suc i..<length data]"
    by (simp_all add: Cons_nth_drop_Suc upt_conv_Cons)
  have ctx': "absorb ctx (data ! i) = foldl absorb ContextAccumulator (take (Suc i) data)"
    using i Suc.prems(4) by (simp add: take_Suc_conv_app_nth)
  have f: "evap_search (candidate_hit shi slo i ctx (data ! i)) CANDIDATES 0 ctx = predicted shi slo data i"
    using found_predicted [OF i Suc.prems(2)] Suc.prems(4) by simp
  have s1: "unat (s + 1) = unat s + 1"
    using Suc.prems(2,3) i by (simp add: unat_word_ariths)
  let ?rest = "filter (\<lambda>j. \<not> predicted shi slo data j) [Suc i..<length data]"
  have n: "n = length data - Suc i" "Suc i \<le> length data" using Suc.hyps(2) i by simp_all
  note ih = Suc.hyps(1) [OF n(1,2) Suc.prems(2) _ ctx', unfolded Let_def]
  show ?case
  proof (cases "predicted shi slo data i")
    case True
    then have "evaporate_from shi slo i ctx s (drop i data) =
        evaporate_from shi slo (Suc i) (absorb ctx (data ! i)) (s + 1) (drop (Suc i) data)"
      unfolding d evaporate_from.simps f by simp
    moreover have "unat (s + 1) \<le> Suc i" "Suc i - unat (s + 1) = i - unat s"
      using s1 Suc.prems(3) by simp_all
    ultimately show ?thesis using True ih [of "s + 1"] unfolding u by (simp only: Let_def filter.simps if_False simp_thms)
  next
    case False
    then have "evaporate_from shi slo i ctx s (drop i data) =
        generate_ecc \<lparr>c_delta = s, c_value = data ! i, c_ecc_parity = 0\<rparr> #
          evaporate_from shi slo (Suc i) (absorb ctx (data ! i)) 0 (drop (Suc i) data)"
      unfolding d evaporate_from.simps f by simp
    then show ?thesis using False ih [of 0] Suc.prems(3) unfolding u by simp
  qed
qed

lemma into_layer_Some: "into_layer cap r = Some cs \<longleftrightarrow> r = Some cs \<and> length cs \<le> cap"
  by (auto simp: into_layer_def split: option.splits if_splits)

lemma evaporate_layer_bound:
  "evaporate_layer shi slo data = Some cs \<Longrightarrow> length cs \<le> length data"
  using length_evaporate_from by (auto simp: evaporate_layer_def split: if_splits)

lemma evaporate_into_layer:
  assumes "length data \<le> cap" "cap \<le> 917490"
  obtains cs where "into_layer cap (evaporate_layer shi slo data) = Some cs" "length cs \<le> length data"
proof -
  obtain cs where cs: "evaporate_layer shi slo data = Some cs" using assms by (simp add: evaporate_layer_def)
  then show ?thesis using that [of cs] evaporate_layer_bound [OF cs] assms by (simp add: into_layer_def)
qed

text \<open>What the parity adds to the value: the exclusive or of the two low bytes of the delta.\<close>

definition ecc_key :: "u32 \<Rightarrow> u8" where
  "ecc_key \<delta> = ucast (\<delta> AND 0xFF) XOR ucast (drop_bit 8 \<delta> AND 0xFF)"

lemma ecc_of_key: "ecc_of c x = x XOR ecc_key (c_delta c)"
  by (simp add: ecc_of_def ecc_key_def ac_simps)

lemma ecc_key_high: "ecc_key (\<delta> XOR push_bit 16 d) = ecc_key \<delta>"
proof -
  have "ucast ((\<delta> XOR push_bit 16 d) AND 0xFF) = (ucast (\<delta> AND 0xFF) :: u8)"
    "ucast (drop_bit 8 (\<delta> XOR push_bit 16 d) AND 0xFF) = (ucast (drop_bit 8 \<delta> AND 0xFF) :: u8)"
    by (rule bit_word_eqI, auto simp: bit_ops)+
  then show ?thesis by (simp add: ecc_key_def)
qed

lemma xor_same_key: "v XOR k = w XOR k \<longleftrightarrow> v = (w :: u8)"
  by (metis xor_cancel_right)

section \<open>Properties\<close>

lemma hit_0: "candidate_hit 0x129ED 0 0 ContextAccumulator 0 (probe_at ContextAccumulator 0)"
  by code_simp

lemma hit_145: "candidate_hit 0x129ED 0 0 ContextAccumulator 145 (probe_at ContextAccumulator 2)"
  by code_simp

text \<open>C24: a layer keeps exactly the bytes no candidate predicts: whenever the call returns (it does up to 917490
  bytes), the running deltas of the corrections give their places in order, their values are the data there,
  and every correction carries a valid parity. Prediction is stated over the data by what a probe's noise
  and check byte must be, not by the loop and its tests.\<close>
theorem evaporate_layer_exact:
  assumes "evaporate_layer shi slo data = Some cs"
  shows "places 0 cs = missed shi slo data \<and> map c_value cs = map ((!) data) (missed shi slo data) \<and>
    list_all ecc_ok cs"
proof -
  have len: "length data \<le> 65535 * 14" and cs: "cs = evaporate_from shi slo 0 ContextAccumulator 0 data"
    using assms by (auto simp: evaporate_layer_def split: if_splits)
  show ?thesis
    using evaporate_from_spec [of 0 data 0 ContextAccumulator shi slo] len
    by (simp add: cs missed_def Let_def)
qed

lemma evaporate_layer_exact_witness:
  "evaporate_layer 0x129ED 0 [0] = Some [] \<and>
   (\<exists>cs. evaporate_layer 0x129ED 0 [0, 7] = Some cs \<and> (cs = [] \<or> places 0 cs = [1] \<and> map c_value cs = [7]))"
proof -
  have "\<exists>k < CANDIDATES. candidate_hit 0x129ED 0 0 ContextAccumulator 0 (probe_at ContextAccumulator k)"
    using hit_0 by (intro exI [of _ 0]) (simp add: CANDIDATES_def)
  then have p: "predicted 0x129ED 0 (0 # bs) 0" for bs
    using candidate_hit_spelled [of 0 "0x129ED" 0 "0 # bs"] by simp
  then have m: "missed 0x129ED 0 [0] = []" "missed 0x129ED 0 [0, 7] \<in> {[], [1]}" by (simp_all add: missed_def)
  obtain cs1 where cs1: "evaporate_layer 0x129ED 0 [0] = Some cs1" by (simp add: evaporate_layer_def)
  obtain cs2 where cs2: "evaporate_layer 0x129ED 0 [0, 7] = Some cs2" by (simp add: evaporate_layer_def)
  have "cs1 = []" using evaporate_layer_exact [OF cs1] m(1) by simp
  moreover have "cs2 = [] \<or> places 0 cs2 = [1] \<and> map c_value cs2 = [7]"
    using evaporate_layer_exact [OF cs2] m(2) by auto
  ultimately show ?thesis using cs1 cs2 by simp
qed

text \<open>The parity heals any change of the value byte, but a changed parity byte makes healing destroy a
  correct value, and a change of the upper half of the delta is not noticed at all.\<close>
theorem ecc_heals_value_only:
  "verify_and_heal (generate_ecc c) = (generate_ecc c, True) \<and>
   (v \<noteq> c_value c \<longrightarrow> verify_and_heal ((generate_ecc c)\<lparr>c_value := v\<rparr>) = (generate_ecc c, False)) \<and>
   (e \<noteq> 0 \<longrightarrow> c_value (fst (verify_and_heal ((generate_ecc c)\<lparr>c_ecc_parity := c_ecc_parity (generate_ecc c) XOR e\<rparr>))) =
      c_value c XOR e) \<and>
   snd (verify_and_heal ((generate_ecc c)\<lparr>c_delta := c_delta c XOR push_bit 16 d\<rparr>))"
proof -
  obtain \<delta> w p where c: "c = \<lparr>c_delta = \<delta>, c_value = w, c_ecc_parity = p\<rparr>" by (cases c)
  let ?k = "ecc_key \<delta>"
  have g: "generate_ecc c = \<lparr>c_delta = \<delta>, c_value = w, c_ecc_parity = w XOR ?k\<rparr>"
    by (simp add: generate_ecc_def ecc_of_key c)
  have heal: "verify_and_heal \<lparr>c_delta = \<delta>', c_value = a, c_ecc_parity = q\<rparr> =
      (\<lparr>c_delta = \<delta>', c_value = q XOR ecc_key \<delta>', c_ecc_parity = q\<rparr>, a XOR ecc_key \<delta>' = q)" for \<delta>' a q
    by (auto simp: verify_and_heal_def ecc_of_key)
  have "verify_and_heal (generate_ecc c) = (generate_ecc c, True)" by (simp add: g heal)
  moreover have "verify_and_heal ((generate_ecc c)\<lparr>c_value := v\<rparr>) = (generate_ecc c, False)" if "v \<noteq> c_value c"
    unfolding g using that c by (simp add: heal xor_same_key)
  moreover have "c_value (fst (verify_and_heal ((generate_ecc c)\<lparr>c_ecc_parity := c_ecc_parity (generate_ecc c) XOR e\<rparr>))) =
      c_value c XOR e"
    unfolding g by (simp add: heal c) (simp add: ac_simps)
  moreover have "snd (verify_and_heal ((generate_ecc c)\<lparr>c_delta := c_delta c XOR push_bit 16 d\<rparr>))"
    unfolding g by (simp add: heal c ecc_key_high)
  ultimately show ?thesis by blast
qed

lemma ecc_heals_value_only_witness:
  "verify_and_heal ((generate_ecc \<lparr>c_delta = 3, c_value = 9, c_ecc_parity = 0\<rparr>)\<lparr>c_value := 8\<rparr>) =
     (generate_ecc \<lparr>c_delta = 3, c_value = 9, c_ecc_parity = 0\<rparr>, False)"
  using ecc_heals_value_only [of "\<lparr>c_delta = 3, c_value = 9, c_ecc_parity = 0\<rparr>" 8 0 0] by simp

lemma phase_fold_empty:
  assumes "candidate_hit (m_hi XOR 0x1111111111111111) m_lo 0 ContextAccumulator b (probe_at ContextAccumulator k)"
    "k < CANDIDATES"
  shows "phase_fold m_hi m_lo [b] = Some []"
proof -
  let ?s = "m_hi XOR 0x1111111111111111"
  obtain cs where cs: "evaporate_layer ?s m_lo [b] = Some cs" by (simp add: evaporate_layer_def)
  have "predicted ?s m_lo [b] 0" using assms candidate_hit_spelled [of 0 ?s m_lo "[b]"] by auto
  then have "missed ?s m_lo [b] = []" by (simp add: missed_def)
  moreover have "places 0 cs = missed ?s m_lo [b]" 
    using evaporate_from_spec [of 0 "[b]" 0 ContextAccumulator ?s m_lo] cs
    by (auto simp: evaporate_layer_def missed_def Let_def)
  ultimately have "cs = []" by (cases cs) auto
  then show ?thesis using cs by (simp add: phase_fold_def into_layer_def)
qed

text \<open>Evaporation loses data: with one master seed, two different one-byte inputs are both folded to
  nothing, so no decoder can tell them apart.\<close>
theorem evaporation_not_injective:
  "phase_fold 0x11111111111038FC 0 [0] = Some [] \<and> phase_fold 0x11111111111038FC 0 [145] = Some []"
  using phase_fold_empty [of "0x11111111111038FC" 0 0 0] phase_fold_empty [of "0x11111111111038FC" 0 145 2]
    hit_0 hit_145 by (simp add: CANDIDATES_def)

text \<open>Inputs of at most 7 bytes fit every layer, and the residue is at most 216 times as long as the
  input: each layer may turn every byte into a six-byte correction.\<close>
theorem phase_fold_fits_small:
  assumes "length data \<le> 7"
  shows "\<exists>res. phase_fold m_hi m_lo data = Some res \<and> length res \<le> 216 * length data"
proof -
  obtain l1 where l1: "into_layer 4096 (evaporate_layer (m_hi XOR 0x1111111111111111) m_lo data) = Some l1"
    "length l1 \<le> length data" by (rule evaporate_into_layer [of data 4096]) (use assms in auto)
  obtain l2 where l2: "into_layer 1024 (evaporate_layer (m_hi XOR 0x2222222222222222) m_lo (layer_bytes l1)) = Some l2"
    "length l2 \<le> 6 * length l1" by (rule evaporate_into_layer [of "layer_bytes l1" 1024]) (use assms l1 in auto)
  obtain l3 where l3: "into_layer 256 (evaporate_layer (m_hi XOR 0x3333333333333333) m_lo (layer_bytes l2)) = Some l3"
    "length l3 \<le> 6 * length l2" by (rule evaporate_into_layer [of "layer_bytes l2" 256]) (use assms l1 l2 in auto)
  have "length (layer_bytes l3) \<le> 216 * length data" using l1 l2 l3 by simp
  then show ?thesis by (simp add: phase_fold_def l1 l2 l3)
qed

lemma phase_fold_fits_small_witness:
  "\<exists>res. phase_fold 0x1234567890ABCDEF 0xABCDEF0123456789 [1, 2, 3] = Some res \<and> length res \<le> 648"
  using phase_fold_fits_small [of "[1, 2, 3]" "0x1234567890ABCDEF" "0xABCDEF0123456789"] by simp

end
