(* ===== verification/SubstrateService.thy ===== *)
theory SubstrateService
  imports AtomStore EvapEngine
begin

text \<open>
  \<open>SubstrateService\<close> of \<open>src/vdev/substrate_service.hpp\<close>: guest sectors kept in the manifold, with a
  folded residue sent to the physical disk when there is one. Guest buffers are places in one byte
  memory. The disk (\<open>SubstrateIO\<close>) is the list of the writes it received; \<open>final_residue\<close> is a stack
  array whose old bytes are a parameter. \<open>i * 512\<close> and \<open>sector_count * 512\<close> are 32-bit products.
\<close>

unbundle bit_operations_syntax

section \<open>State and operations\<close>

datatype build = SOVEREIGN_BUILD | EVALUATION_BUILD | DEFAULT_BUILD

fun virtual_capacity :: "build \<Rightarrow> u64" where
  "virtual_capacity SOVEREIGN_BUILD = 100 * 1024 * 1024 * 1024 * 1024"
| "virtual_capacity EVALUATION_BUILD = 1 * 1024 * 1024 * 1024 * 1024"
| "virtual_capacity DEFAULT_BUILD = 10 * 1024 * 1024 * 1024 * 1024"

type_synonym disk_write = "u64 \<times> u32 \<times> u8 list"

record substrate_service =
  ss_manifold :: manifold
  physical_disk :: "disk_write list option"
  virtual_capacity_bytes :: u64
  highest_accessed_vaddr :: u64
  preemption_horizon :: u64
  total_bytes_written :: u64
  correction_bytes_stored :: u64

definition SubstrateService :: "build \<Rightarrow> manifold \<Rightarrow> bool \<Rightarrow> substrate_service" where
  "SubstrateService b m has_disk =
    \<lparr>ss_manifold = m, physical_disk = (if has_disk then Some [] else None),
     virtual_capacity_bytes = virtual_capacity b, highest_accessed_vaddr = 0,
     preemption_horizon = 0, total_bytes_written = 1, correction_bytes_stored = 1\<rparr>"

definition get_match_rate_scaled :: "substrate_service \<Rightarrow> u64" where
  "get_match_rate_scaled s = 10000 - (correction_bytes_stored s * 10000 div total_bytes_written s)"

definition get_capacity :: "substrate_service \<Rightarrow> u64" where
  "get_capacity s = virtual_capacity_bytes s"

definition sector_vaddr :: "u64 \<Rightarrow> u32 \<Rightarrow> u64" where
  "sector_vaddr lba i = (lba + ucast i) * 512"

definition sector_place :: "nat \<Rightarrow> u32 \<Rightarrow> nat" where
  "sector_place buf i = buf + unat (i * 512)"

lemma unat_less_u32: "i < (n :: u32) \<Longrightarrow> unat i < unat n"
  by (simp add: word_less_nat_alt)

lemma unat_next_u32: "i < (n :: u32) \<Longrightarrow> unat (i + 1) = Suc (unat i)"
  using unat_u32_lt [of n] by (simp add: word_less_nat_alt unat_word_ariths)

text \<open>The inner loop of \<open>serve_read\<close>: 32 atoms into one sector of the buffer.\<close>

definition read_sector :: "manifold \<Rightarrow> u64 \<Rightarrow> nat \<Rightarrow> mem \<Rightarrow> mem" where
  "read_sector mf vaddr place m =
    foldl (\<lambda>m j. mem_write m (place + 16 * j) (atom_bytes (holographic_fetch mf (vaddr + word_of_nat (16 * j)))))
      m [0..<32]"

function read_sectors ::
    "substrate_service \<Rightarrow> u64 \<Rightarrow> u32 \<Rightarrow> nat \<Rightarrow> u32 \<Rightarrow> mem \<Rightarrow> mem \<times> bool" where
  "read_sectors s lba sector_count buf i m =
    (if i < sector_count then
       let vaddr = sector_vaddr lba i
       in if vaddr \<ge> virtual_capacity_bytes s then (m, False)
          else read_sectors s lba sector_count buf (i + 1)
                 (read_sector (ss_manifold s) vaddr (sector_place buf i) m)
     else (m, True))"
  by pat_completeness auto
termination
  by (relation "measure (\<lambda>(s, lba, sector_count, buf, i, m). unat sector_count - unat i)")
    (auto simp: unat_next_u32 dest: unat_less_u32)

declare read_sectors.simps [simp del]

definition serve_read ::
    "u64 \<Rightarrow> u32 \<Rightarrow> nat \<Rightarrow> mem \<Rightarrow> substrate_service \<Rightarrow> substrate_service \<times> mem \<times> bool" where
  "serve_read lba sector_count buf m s =
    (let start_vaddr = lba * 512;
         s1 = (if start_vaddr \<ge> highest_accessed_vaddr s
               then s\<lparr>highest_accessed_vaddr := start_vaddr,
                      preemption_horizon := start_vaddr + ucast (sector_count * 512)\<rparr>
               else s);
         (m', ok) = read_sectors s1 lba sector_count buf 0 m
     in (s1, m', ok))"

text \<open>The disk part of one written sector; \<open>None\<close> when the engine writes out of bounds or the residue
  does not fit its 512 bytes.\<close>

definition persist_sector :: "u8 list \<Rightarrow> u64 \<Rightarrow> u8 list \<Rightarrow> substrate_service \<Rightarrow> substrate_service option" where
  "persist_sector residue0 current_lba sector s =
    (case physical_disk s of
       None \<Rightarrow> Some s
     | Some ws \<Rightarrow>
         (case phase_fold 0x1234567890ABCDEF 0xABCDEF0123456789 sector of
            None \<Rightarrow> None
          | Some res \<Rightarrow>
              if length res \<le> 512 then
                let final_residue = res @ drop (length res) residue0
                in Some (s\<lparr>total_bytes_written := total_bytes_written s + 512,
                           correction_bytes_stored := correction_bytes_stored s + word_of_nat (length res),
                           physical_disk := Some (ws @ [(16384 + (current_lba * 2), 1, final_residue)])\<rparr>)
              else None))"

function write_sectors ::
    "u8 list \<Rightarrow> u64 \<Rightarrow> u32 \<Rightarrow> nat \<Rightarrow> mem \<Rightarrow> u32 \<Rightarrow> substrate_service \<Rightarrow> substrate_service option" where
  "write_sectors residue0 lba sector_count buf m i s =
    (if i < sector_count then
       let sector = mem_read m (sector_place buf i) 512
       in case materialize_range (ss_manifold s) (sector_vaddr lba i) sector of
            None \<Rightarrow> None
          | Some mf \<Rightarrow>
              (case persist_sector residue0 (lba + ucast i) sector (s\<lparr>ss_manifold := mf\<rparr>) of
                 None \<Rightarrow> None
               | Some s' \<Rightarrow> write_sectors residue0 lba sector_count buf m (i + 1) s')
     else Some s)"
  by pat_completeness auto
termination
  by (relation "measure (\<lambda>(residue0, lba, sector_count, buf, m, i, s). unat sector_count - unat i)")
    (auto simp: unat_next_u32 dest: unat_less_u32)

declare write_sectors.simps [simp del]

text \<open>\<open>serve_write\<close> always returns true.\<close>

definition serve_write ::
    "u8 list \<Rightarrow> u64 \<Rightarrow> u32 \<Rightarrow> nat \<Rightarrow> mem \<Rightarrow> substrate_service \<Rightarrow> (substrate_service \<times> bool) option" where
  "serve_write residue0 lba sector_count buf m s =
    (case write_sectors residue0 lba sector_count buf m 0 s of None \<Rightarrow> None | Some s' \<Rightarrow> Some (s', True))"

fun idle_target :: "u64 \<Rightarrow> nat \<Rightarrow> u64 \<Rightarrow> u64" where
  "idle_target capacity 0 target = target"
| "idle_target capacity (Suc n) target =
    (if target \<ge> capacity then target else idle_target capacity n (target + 16))"

text \<open>The atoms fetched ahead are dropped, and a fetch changes nothing.\<close>

definition utilize_idle_cycles :: "u32 \<Rightarrow> substrate_service \<Rightarrow> substrate_service" where
  "utilize_idle_cycles hint s =
    s\<lparr>preemption_horizon := idle_target (virtual_capacity_bytes s) (unat hint) (preemption_horizon s)\<rparr>"

section \<open>Sectors\<close>

lemma foldl_mem_write:
  assumes "\<And>j. j < n \<Longrightarrow> length (f j) = 16"
  shows "foldl (\<lambda>m j. mem_write m (a + 16 * j) (f j)) m [0..<n] = mem_write m a (concat (map f [0..<n]))"
  using assms
proof (induction n)
  case (Suc n)
  have "length (concat (map f [0..<n])) = 16 * n"
    using Suc.prems by (induction n) auto
  then show ?case using Suc by (simp add: mem_write_append)
qed simp

lemma concat_slices: "16 * n \<le> length d \<Longrightarrow> concat (map (\<lambda>j. take 16 (drop (16 * j) d)) [0..<n]) = take (16 * n) d"
proof (induction n)
  case (Suc n)
  then show ?case using take_add [of "16 * n" 16 d] by (simp add: add.commute)
qed simp

lemma sector_vaddr_nat:
  assumes "(unat lba + n) * 512 \<le> 2 ^ 64" "i < n" "n < 2 ^ 32"
  shows "unat (sector_vaddr lba (word_of_nat i)) = (unat lba + i) * 512"
proof -
  have i: "unat (ucast (word_of_nat i :: u32) :: u64) = i"
    using assms by (simp add: unsigned_ucast_eq unsigned_of_nat take_bit_nat_eq_self)
  have "unat (lba + ucast (word_of_nat i :: u32)) = unat lba + i"
    using assms i by (subst unat_add_lem [THEN iffD1]) auto
  then show ?thesis
    using assms unfolding sector_vaddr_def by (subst unat_mult_lem [THEN iffD1]) auto
qed

lemma sector_atom_nat:
  fixes v :: u64
  assumes "unat v = k * 512" "j < 32" "k < 2 ^ 55"
  shows "unat (v + word_of_nat (16 * j)) div 16 = 32 * k + j"
proof -
  have "unat (word_of_nat (16 * j) :: u64) = 16 * j"
    using assms by (simp add: unsigned_of_nat take_bit_nat_eq_self del: of_nat_mult)
  then have "unat (v + word_of_nat (16 * j)) = k * 512 + 16 * j"
    using assms by (subst unat_add_lem [THEN iffD1]) auto
  then show ?thesis by simp
qed

lemma sector_in_block:
  assumes "unat v = k * 512" "length d = 512"
  shows "write_ok (v, d)"
proof -
  have "entry_of v = 32 * (k mod 32)"
    using assms mult_mod_right [of 32 k 32] by (simp add: entry_of_unat)
  moreover have "k mod 32 \<le> 31" by (simp add: less_Suc_eq_le [symmetric])
  ultimately show ?thesis using assms(2) by (simp add: write_ok_def in_block_def BLOCK_BYTES_def)
qed

section \<open>What a write stores\<close>

text \<open>The ranges a write materialises, from sector \<open>i\<close> to before sector \<open>n\<close>.\<close>

definition sector_ops :: "u64 \<Rightarrow> nat \<Rightarrow> mem \<Rightarrow> nat \<Rightarrow> nat \<Rightarrow> (u64 \<times> u8 list) list" where
  "sector_ops lba buf m i n =
    map (\<lambda>i. (sector_vaddr lba (word_of_nat i), mem_read m (sector_place buf (word_of_nat i)) 512)) [i..<n]"

lemma write_sectors_ops:
  assumes "physical_disk s = None" "unat i \<le> unat n"
  shows "write_sectors res0 lba n buf m i s =
    map_option (\<lambda>mf. s\<lparr>ss_manifold := mf\<rparr>)
      (materialize_all (ss_manifold s) (sector_ops lba buf m (unat i) (unat n)))"
  using assms
proof (induction "unat n - unat i" arbitrary: i s)
  case 0
  then have "\<not> i < n" by (simp add: word_less_nat_alt)
  then show ?case using 0 by (simp add: write_sectors.simps [of res0 lba n buf m i s] sector_ops_def)
next
  case (Suc k)
  then have less: "i < n" "unat i < unat n" by (simp_all add: word_less_nat_alt)
  have ops: "sector_ops lba buf m (unat i) (unat n) =
      (sector_vaddr lba i, mem_read m (sector_place buf i) 512) # sector_ops lba buf m (Suc (unat i)) (unat n)"
    using less by (simp add: sector_ops_def upt_conv_Cons)
  note nxt = unat_next_u32 [OF less(1)]
  show ?case
  proof (cases "materialize_range (ss_manifold s) (sector_vaddr lba i) (mem_read m (sector_place buf i) 512)")
    case None
    then show ?thesis using less by (simp add: write_sectors.simps [of res0 lba n buf m i s] ops)
  next
    case (Some mf)
    let ?s = "s\<lparr>ss_manifold := mf\<rparr>"
    have "write_sectors res0 lba n buf m i s = write_sectors res0 lba n buf m (i + 1) ?s"
      using Some less Suc.prems(1)
      by (simp add: write_sectors.simps [of res0 lba n buf m i s] persist_sector_def)
    also have "\<dots> = map_option (\<lambda>mf. ?s\<lparr>ss_manifold := mf\<rparr>)
        (materialize_all (ss_manifold ?s) (sector_ops lba buf m (unat (i + 1)) (unat n)))"
      by (rule Suc.hyps(1)) (use Suc.hyps(2) Suc.prems nxt less in auto)
    finally show ?thesis using Some by (simp add: ops nxt cong: map_option_cong)
  qed
qed

lemma store_after_append: "store_after m (xs @ ys) = store_after (store_after m xs) ys"
  by (induction xs arbitrary: m) auto

text \<open>Atom \<open>j\<close> of sector \<open>i\<close> is the \<open>j\<close>-th slice of that sector's bytes.\<close>

lemma store_after_sectors:
  assumes "(unat lba + n) * 512 \<le> 2 ^ 64" "n < 2 ^ 32" "i < n" "j < 32"
  shows "store_after st (sector_ops lba buf m 0 n) (32 * (unat lba + i) + j) =
    Some (atom_of_bytes (take 16 (drop (16 * j) (mem_read m (sector_place buf (word_of_nat i)) 512))))"
  using assms
proof (induction n)
  case 0
  then show ?case by simp
next
  case (Suc n)
  have v: "unat (sector_vaddr lba (word_of_nat n)) = (unat lba + n) * 512"
    by (rule sector_vaddr_nat [of _ "Suc n"]) (use Suc.prems in auto)
  have ops: "sector_ops lba buf m 0 (Suc n) = sector_ops lba buf m 0 n @
      [(sector_vaddr lba (word_of_nat n), mem_read m (sector_place buf (word_of_nat n)) 512)]"
    by (simp add: sector_ops_def)
  show ?case
  proof (cases "i = n")
    case True
    then show ?thesis using Suc.prems(4) by (simp add: ops store_after_append store_write_def v)
  next
    case False
    then have "store_after st (sector_ops lba buf m 0 n) (32 * (unat lba + i) + j) =
        Some (atom_of_bytes (take 16 (drop (16 * j) (mem_read m (sector_place buf (word_of_nat i)) 512))))"
      using Suc by auto
    moreover have "\<not> (unat (sector_vaddr lba (word_of_nat n)) div 16 \<le> 32 * (unat lba + i) + j)"
      using False Suc.prems by (simp add: v)
    ultimately show ?thesis by (simp add: ops store_after_append store_write_def)
  qed
qed

lemma sector_ops_ok:
  assumes "(unat lba + n) * 512 \<le> 2 ^ 64" "n < 2 ^ 32"
  shows "list_all write_ok (sector_ops lba buf m 0 n)"
proof -
  have "write_ok (sector_vaddr lba (word_of_nat i), mem_read m (sector_place buf (word_of_nat i)) 512)"
    if "i < n" for i
    by (rule sector_in_block [OF sector_vaddr_nat [OF assms(1) that assms(2)]]) simp
  then show ?thesis by (auto simp: list_all_iff sector_ops_def)
qed

section \<open>What a read gives\<close>

lemma read_sector_eq:
  assumes "\<And>j. j < 32 \<Longrightarrow> holographic_fetch mf (vaddr + word_of_nat (16 * j)) =
      atom_of_bytes (take 16 (drop (16 * j) d))" "length d = 512"
  shows "read_sector mf vaddr place m = mem_write m place d"
proof -
  have sl: "atom_bytes (holographic_fetch mf (vaddr + word_of_nat (16 * j))) = take 16 (drop (16 * j) d)"
    if "j < 32" for j
    using that assms by (simp add: atom_bytes_atom_of_bytes del: of_nat_mult)
  have "read_sector mf vaddr place m = mem_write m place
      (concat (map (\<lambda>j. atom_bytes (holographic_fetch mf (vaddr + word_of_nat (16 * j)))) [0..<32]))"
    unfolding read_sector_def by (rule foldl_mem_write) simp
  also have "map (\<lambda>j. atom_bytes (holographic_fetch mf (vaddr + word_of_nat (16 * j)))) [0..<32] =
      map (\<lambda>j. take 16 (drop (16 * j) d)) [0..<32]"
    using sl by simp
  also have "concat \<dots> = d" using concat_slices [of 32 d] assms(2) by simp
  finally show ?thesis .
qed

lemma sector_place_nat: "i < 2 ^ 23 \<Longrightarrow> sector_place buf (word_of_nat i) = buf + i * 512"
proof -
  assume i: "i < 2 ^ 23"
  then have "unat (word_of_nat i :: u32) = i" by (simp add: unsigned_of_nat take_bit_nat_eq_self)
  then have "unat (word_of_nat i * 512 :: u32) = i * 512" using i by (subst unat_mult_lem [THEN iffD1]) auto
  then show ?thesis by (simp add: sector_place_def)
qed

lemma read_sectors_eq:
  assumes "\<And>i j. i < unat n \<Longrightarrow> j < 32 \<Longrightarrow>
      holographic_fetch (ss_manifold s) (sector_vaddr lba (word_of_nat i) + word_of_nat (16 * j)) =
      atom_of_bytes (take 16 (drop (16 * j) (f i)))"
    and "\<And>i. i < unat n \<Longrightarrow> length (f i) = 512"
    and "\<And>i. i < unat n \<Longrightarrow> sector_vaddr lba (word_of_nat i) < virtual_capacity_bytes s"
    and "unat n \<le> 2 ^ 23" "unat i \<le> unat n"
  shows "read_sectors s lba n buf i m =
    (mem_write m (buf + unat i * 512) (concat (map f [unat i..<unat n])), True)"
  using assms(5)
proof (induction "unat n - unat i" arbitrary: i m)
  case 0
  then have "\<not> i < n" by (simp add: word_less_nat_alt)
  then show ?case using 0 by (simp add: read_sectors.simps [of s lba n buf i m])
next
  case (Suc k)
  then have less: "i < n" "unat i < unat n" by (simp_all add: word_less_nat_alt)
  note nxt = unat_next_u32 [OF less(1)]
  have place: "sector_place buf i = buf + unat i * 512"
    using sector_place_nat [of "unat i" buf] less assms(4) by simp
  have rd: "read_sector (ss_manifold s) (sector_vaddr lba i) (sector_place buf i) m =
      mem_write m (buf + unat i * 512) (f (unat i))"
    unfolding place by (rule read_sector_eq) (use assms(1,2) [of "unat i"] less in auto)
  have cap: "\<not> virtual_capacity_bytes s \<le> sector_vaddr lba i"
    using assms(3) [of "unat i"] less by (simp add: not_le)
  have "read_sectors s lba n buf i m =
      read_sectors s lba n buf (i + 1) (mem_write m (buf + unat i * 512) (f (unat i)))"
    using less cap by (simp add: read_sectors.simps [of s lba n buf i m] Let_def rd)
  also have "\<dots> = (mem_write (mem_write m (buf + unat i * 512) (f (unat i))) (buf + unat (i + 1) * 512)
      (concat (map f [unat (i + 1)..<unat n])), True)"
    by (rule Suc.hyps(1)) (use Suc.hyps(2) nxt less in auto)
  also have "mem_write (mem_write m (buf + unat i * 512) (f (unat i))) (buf + unat (i + 1) * 512)
      (concat (map f [unat (i + 1)..<unat n])) =
      mem_write m (buf + unat i * 512) (concat (map f [unat i..<unat n]))"
    using less assms(2) [of "unat i"] nxt by (simp add: mem_write_append upt_conv_Cons algebra_simps)
  finally show ?case .
qed

lemma concat_sectors: "concat (map (\<lambda>i. mem_read m (buf + i * 512) 512) [0..<n]) = mem_read m buf (n * 512)"
proof (induction n)
  case (Suc n)
  then show ?case using mem_read_append [of m buf "n * 512" 512] by (simp add: add.commute)
qed (simp add: mem_read_def)

text \<open>The storage contract, from any manifold with room for the blocks written.\<close>

lemma write_then_read:
  fixes lba :: u64 and n :: u32
  assumes "physical_disk s = None" "holds_store (ss_manifold s) q st"
    and "(unat lba + unat n) * 512 \<le> unat (virtual_capacity_bytes s)" "unat n \<le> 2 ^ 23"
    and "card (set q \<union> (vblock_of \<circ> fst) ` set (sector_ops lba src m 0 (unat n))) \<le> 1024"
  shows "\<exists>s' s'' q' st'. serve_write res0 lba n src m s = Some (s', True) \<and>
    holds_store (ss_manifold s') q' st' \<and>
    serve_read lba n dst m' s' = (s'', mem_write m' dst (mem_read m src (unat n * 512)), True)"
proof -
  let ?ops = "sector_ops lba src m 0 (unat n)"
  let ?d = "\<lambda>i. mem_read m (sector_place src (word_of_nat i)) 512"
  have cap64: "(unat lba + unat n) * 512 \<le> 2 ^ 64"
    using assms(3) unat_u64_lt [of "virtual_capacity_bytes s"] by simp
  have n32: "unat n < 2 ^ 32" using assms(4) by simp
  obtain mf q' where mf: "materialize_all (ss_manifold s) ?ops = Some mf"
    "holds_store mf q' (store_after st ?ops)"
    using materialize_all_store [OF assms(2) sector_ops_ok [OF cap64 n32] assms(5)] by blast
  let ?s = "s\<lparr>ss_manifold := mf\<rparr>"
  have w: "serve_write res0 lba n src m s = Some (?s, True)"
    using write_sectors_ops [OF assms(1), of 0 n res0 lba src m] mf(1) by (simp add: serve_write_def)
  let ?s1 = "fst (serve_read lba n dst m' ?s)"
  have s1: "ss_manifold ?s1 = mf" "virtual_capacity_bytes ?s1 = virtual_capacity_bytes s"
    by (simp_all add: serve_read_def Let_def case_prod_beta)
  have v: "unat (sector_vaddr lba (word_of_nat i)) = (unat lba + i) * 512" if "i < unat n" for i
    by (rule sector_vaddr_nat [OF cap64 that n32])
  have "read_sectors ?s1 lba n dst 0 m' =
      (mem_write m' (dst + unat (0 :: u32) * 512) (concat (map ?d [unat (0 :: u32)..<unat n])), True)"
  proof (rule read_sectors_eq)
    fix i j :: nat assume i: "i < unat n" and j: "j < 32"
    have k: "unat lba + i < 2 ^ 55" using cap64 i by simp
    have "unat (sector_vaddr lba (word_of_nat i) + word_of_nat (16 * j)) div 16 = 32 * (unat lba + i) + j"
      by (rule sector_atom_nat [OF v [OF i] j k])
    then show "holographic_fetch (ss_manifold ?s1) (sector_vaddr lba (word_of_nat i) + word_of_nat (16 * j)) =
        atom_of_bytes (take 16 (drop (16 * j) (?d i)))"
      using mf(2) store_after_sectors [OF cap64 n32 i j, of st src m] unfolding s1 holds_store_def by metis
  next
    fix i assume i: "i < unat n"
    then have "(unat lba + i) * 512 < unat (virtual_capacity_bytes s)" using assms(3) by simp
    then show "sector_vaddr lba (word_of_nat i) < virtual_capacity_bytes ?s1"
      by (simp add: s1 word_less_nat_alt v [OF i])
  qed (use assms(4) in simp_all)
  also have "map ?d [unat (0 :: u32)..<unat n] = map (\<lambda>i. mem_read m (src + i * 512) 512) [0..<unat n]"
    using assms(4) by (simp add: sector_place_nat)
  also have "concat \<dots> = mem_read m src (unat n * 512)" by (rule concat_sectors)
  finally have "serve_read lba n dst m' ?s = (?s1, mem_write m' dst (mem_read m src (unat n * 512)), True)"
    by (simp add: serve_read_def Let_def case_prod_beta)
  then show ?thesis using w mf(2) by auto
qed

lemma sector_blocks_card:
  assumes "(unat lba + n) * 512 \<le> 2 ^ 64" "n \<le> 32704"
  shows "card ((vblock_of \<circ> fst) ` set (sector_ops lba src m 0 n)) \<le> 1024"
proof -
  let ?B = "(vblock_of \<circ> fst) ` set (sector_ops lba src m 0 n)"
  have "unat ` ?B \<subseteq> {unat lba div 32 .. (unat lba + n) div 32}"
  proof
    fix x assume "x \<in> unat ` ?B"
    then obtain i where i: "i < n" "x = unat (vblock_of (sector_vaddr lba (word_of_nat i)))"
      by (auto simp: sector_ops_def)
    have "x = (unat lba + i) * 512 div 16384"
      using sector_vaddr_nat [OF assms(1) i(1)] assms(2) i by (simp add: vblock_of_unat)
    then have "x = (unat lba + i) div 32" by simp
    then show "x \<in> {unat lba div 32 .. (unat lba + n) div 32}" using i(1) by (simp add: div_le_mono)
  qed
  then have "card (unat ` ?B) \<le> card {unat lba div 32 .. (unat lba + n) div 32}" by (rule card_mono [rotated]) simp
  moreover have "card (unat ` ?B) = card ?B" by (rule card_image) (simp add: inj_on_def word_unat_eq_iff)
  moreover have "card {unat lba div 32 .. (unat lba + n) div 32} \<le> 1024" using assms(2) by simp
  ultimately show ?thesis by linarith
qed

lemma fetch_absent: "find_slot mf (vblock_of a) = None \<Longrightarrow> holographic_fetch mf a = val128 0 0"
  by (simp add: fetch_find_slot)

lemma zero_slice: "atom_of_bytes (take 16 (drop (16 * j) (replicate 512 0))) = val128 0 0"
proof -
  have z: "of_le (replicate n 0) = (0 :: u64)" for n by (induction n) simp_all
  show ?thesis by (simp add: atom_of_bytes_def z)
qed

lemma read_absent_sector:
  fixes lba :: u64
  assumes "find_slot (ss_manifold s) (vblock_of (lba * 512)) = None"
    and "(unat lba + 1) * 512 \<le> unat (virtual_capacity_bytes s)"
  shows "\<exists>s'. serve_read lba 1 dst m s = (s', mem_write m dst (replicate 512 0), True)"
proof -
  let ?s1 = "fst (serve_read lba 1 dst m s)"
  have s1: "ss_manifold ?s1 = ss_manifold s" "virtual_capacity_bytes ?s1 = virtual_capacity_bytes s"
    by (simp_all add: serve_read_def Let_def case_prod_beta)
  have cap: "(unat lba + 1) * 512 \<le> 2 ^ 64"
    using assms(2) unat_u64_lt [of "virtual_capacity_bytes s"] by simp
  have v: "unat (sector_vaddr lba (word_of_nat i)) = (unat lba + i) * 512" if "i < 1" for i
    by (rule sector_vaddr_nat [OF cap that]) simp
  have v0: "sector_vaddr lba 0 = lba * 512" by (simp add: sector_vaddr_def)
  have "read_sectors ?s1 lba 1 dst 0 m =
      (mem_write m (dst + unat (0 :: u32) * 512) (concat (map (\<lambda>i. replicate 512 0) [unat (0 :: u32)..<unat (1 :: u32)])), True)"
  proof (rule read_sectors_eq)
    fix i j :: nat assume i: "i < unat (1 :: u32)" and j: "j < 32"
    let ?a = "sector_vaddr lba (word_of_nat i) + word_of_nat (16 * j)"
    have "unat ?a div 16 = 32 * (unat lba + i) + j"
      by (rule sector_atom_nat [OF v]) (use i j cap in auto)
    then have "unat ?a div 16 div 1024 = unat (lba * 512) div 16 div 1024"
      using v [of 0] i j v0 by simp
    then have "unat ?a div 16384 = unat (lba * 512) div 16384" by (simp only: div16_div1024)
    then have "vblock_of ?a = vblock_of (lba * 512)" by (simp only: same_vblock)
    then have "holographic_fetch (ss_manifold s) ?a = val128 0 0"
      using assms(1) by (intro fetch_absent) simp
    then show "holographic_fetch (ss_manifold ?s1) ?a = atom_of_bytes (take 16 (drop (16 * j) (replicate 512 0)))"
      unfolding s1 zero_slice .
  next
    fix i assume "i < unat (1 :: u32)"
    then show "sector_vaddr lba (word_of_nat i) < virtual_capacity_bytes ?s1"
      using assms(2) v [of 0] v0 by (simp add: s1 word_less_nat_alt)
  qed simp_all
  then show ?thesis by (simp add: serve_read_def Let_def case_prod_beta)
qed

lemma one_sector_write:
  assumes "physical_disk s = None" "(unat lba + 1) * 512 \<le> 2 ^ 64"
  shows "\<exists>mf. materialize_range (ss_manifold s) (lba * 512) (mem_read m src 512) = Some mf \<and>
    write_ok (lba * 512, mem_read m src 512) \<and> unat (lba * 512) = unat lba * 512 \<and>
    serve_write res0 lba 1 src m s = Some (s\<lparr>ss_manifold := mf\<rparr>, True)"
proof -
  have ops: "sector_ops lba src m 0 1 = [(lba * 512, mem_read m src 512)]"
    by (simp add: sector_ops_def sector_vaddr_def sector_place_def)
  have v: "unat (lba * 512) = unat lba * 512"
    using assms(2) by (subst unat_mult_lem [THEN iffD1]) auto
  have ok: "write_ok (lba * 512, mem_read m src 512)"
    by (rule sector_in_block [OF v]) simp
  then obtain mf where mf: "materialize_range (ss_manifold s) (lba * 512) (mem_read m src 512) = Some mf"
    using materialize_in_block unfolding write_ok_def by fastforce
  have "serve_write res0 lba 1 src m s = Some (s\<lparr>ss_manifold := mf\<rparr>, True)"
    using write_sectors_ops [OF assms(1), of 0 1 res0 lba src m] mf ops by (simp add: serve_write_def)
  with mf ok v show ?thesis by blast
qed

section \<open>Idle cycles\<close>

lemma idle_target_bounds:
  "unat t + 16 * n + unat c < 2 ^ 64 \<Longrightarrow>
     unat t \<le> unat (idle_target c n t) \<and>
     (unat (idle_target c n t) = unat t + 16 * n \<or> unat c \<le> unat (idle_target c n t)) \<and>
     unat (idle_target c n t) < max (unat t + 1) (unat c + 16)"
proof (induction n arbitrary: t)
  case 0
  then show ?case by simp
next
  case (Suc n)
  show ?case
  proof (cases "c \<le> t")
    case True
    then show ?thesis by (simp add: word_le_nat_alt)
  next
    case False
    have "unat (t + 16) = unat t + 16" using Suc.prems by (subst unat_add_lem [THEN iffD1]) auto
    moreover from this have "unat (t + 16) + 16 * n + unat c < 2 ^ 64" using Suc.prems by simp
    ultimately show ?thesis using Suc.IH [of "t + 16"] False by (auto simp: word_le_nat_alt)
  qed
qed

lemma fresh_roundtrip:
  fixes lba :: u64 and n :: u32
  assumes "(unat lba + unat n) * 512 \<le> unat (virtual_capacity b)" "unat n \<le> 32704"
  shows "\<exists>s' s''. serve_write res0 lba n src m
        (SubstrateService b (fst (SubstrateManifold g pool0 map0)) False) = Some (s', True) \<and>
    serve_read lba n dst m' s' = (s'', mem_write m' dst (mem_read m src (unat n * 512)), True)"
proof -
  let ?s = "SubstrateService b (fst (SubstrateManifold g pool0 map0)) False"
  have cap64: "(unat lba + unat n) * 512 \<le> 2 ^ 64"
    using assms(1) unat_u64_lt [of "virtual_capacity b"] by simp
  have "\<exists>s' s'' q' st'. serve_write res0 lba n src m ?s = Some (s', True) \<and>
      holds_store (ss_manifold s') q' st' \<and>
      serve_read lba n dst m' s' = (s'', mem_write m' dst (mem_read m src (unat n * 512)), True)"
    by (rule write_then_read [where q = "[]" and st = Map.empty])
      (use assms sector_blocks_card [OF cap64 assms(2), of src m] holds_store_empty in
        \<open>simp_all add: SubstrateService_def\<close>)
  then show ?thesis by blast
qed

text \<open>A service whose cache is full.\<close>

lemma unat_of_nat_u64: "k < 2 ^ 64 \<Longrightarrow> unat (word_of_nat k :: u64) = k"
  by (simp add: unsigned_of_nat take_bit_nat_eq_self)

lemma full_cache_exists:
  "\<exists>mf q. fifo_rel mf q \<and> length q = 1024 \<and> set q = word_of_nat ` {0..<1024}"
proof -
  define N :: nat where "N = 1024"
  define addr where "addr k = (word_of_nat (k * 16384) :: u64)" for k
  define ops where "ops = map (\<lambda>k. (addr k, replicate 512 (0 :: u8))) [0..<N]"
  let ?B = "(word_of_nat :: nat \<Rightarrow> u64) ` {0..<N}"
  have u: "unat (addr k) = (32 * k) * 512" if "k < N" for k
    unfolding addr_def using that by (subst unat_of_nat_u64) (simp_all add: N_def)
  have vb: "vblock_of (addr k) = word_of_nat k" if "k < N" for k
    unfolding word_unat_eq_iff vblock_of_unat u [OF that]
    using that by (subst unat_of_nat_u64) (simp_all add: N_def)
  have ok: "list_all write_ok ops"
    unfolding list_all_iff ops_def by (auto intro: sector_in_block [OF u])
  have blocks: "(vblock_of \<circ> fst) ` set ops = ?B"
    unfolding ops_def by (auto simp: image_image vb intro!: image_cong)
  have "inj_on (word_of_nat :: nat \<Rightarrow> u64) {0..<N}"
  proof (rule inj_onI)
    fix x y assume h: "x \<in> {0..<N}" "y \<in> {0..<N}" "word_of_nat x = (word_of_nat y :: u64)"
    then have "x < 2 ^ 64" "y < 2 ^ 64" by (simp_all add: N_def)
    then show "x = y" using unat_of_nat_u64 [of x] unat_of_nat_u64 [of y] h(3) by metis
  qed
  then have card: "card ?B = N" by (simp add: card_image)
  obtain mf q st where q: "holds_store mf q st" "set q = ?B"
    using materialize_all_store [OF holds_store_empty [of "PhysicalMemory 0x2000000 0x40000000" "\<lambda>_. 0" "\<lambda>_. 0"] ok]
    unfolding blocks using card by (auto simp: N_def)
  then have "fifo_rel mf q" "distinct q" by (simp_all add: holds_store_def fifo_rel_def)
  moreover from this have "length q = 1024" using card q(2) distinct_card [of q] by (simp add: N_def)
  ultimately show ?thesis using q(2) unfolding N_def by blast
qed

section \<open>Properties\<close>

definition example_service :: substrate_service where
  "example_service =
    SubstrateService DEFAULT_BUILD (fst (SubstrateManifold (PhysicalMemory 0x2000000 0x40000000) (\<lambda>_. 7) (\<lambda>_. 3))) False"

text \<open>C4: the storage contract: on a fresh service without a disk, a write of up to 32704 sectors inside
  the capacity succeeds, and a read of the same sectors gives exactly the bytes written, into any
  other place of any memory.\<close>
theorem sectors_roundtrip:
  fixes lba :: u64 and n :: u32
  assumes "(unat lba + unat n) * 512 \<le> unat (virtual_capacity b)" "unat n \<le> 32704"
  shows "\<exists>s' s''. serve_write res0 lba n src m
        (SubstrateService b (fst (SubstrateManifold g pool0 map0)) False) = Some (s', True) \<and>
    serve_read lba n dst m' s' = (s'', mem_write m' dst (mem_read m src (unat n * 512)), True)"
  using assms by (rule fresh_roundtrip)

lemma sectors_roundtrip_witness:
  "\<exists>s' s''. serve_write [] 40 3 0x8000 (\<lambda>i. of_nat i) example_service = Some (s', True) \<and>
     serve_read 40 3 0x9000 (\<lambda>_. 0) s' =
       (s'', mem_write (\<lambda>_. 0) 0x9000 (mem_read (\<lambda>i. of_nat i) 0x8000 1536), True)"
  using sectors_roundtrip [of 40 3 DEFAULT_BUILD "[]" "0x8000" "\<lambda>i. of_nat i" "PhysicalMemory 0x2000000 0x40000000" "\<lambda>_. 7" "\<lambda>_. 3" "0x9000" "\<lambda>_. 0"]
  by (simp add: example_service_def)

text \<open>C34: acknowledged writes get lost: without a disk, once 1024 blocks are cached, writing one sector of a new block
  evicts the oldest block, and a read of a sector of it reports success and gives zeros. A read never
  goes to the disk.\<close>
theorem eviction_loses_acknowledged_write:
  fixes lba old :: u64
  assumes "fifo_rel (ss_manifold s) q" "length q = 1024" "physical_disk s = None"
    and "vblock_of (old * 512) = last q" "vblock_of (lba * 512) \<notin> set q"
    and "(unat lba + 1) * 512 \<le> 2 ^ 64" "(unat old + 1) * 512 \<le> unat (virtual_capacity_bytes s)"
  shows "\<exists>s' s''. serve_write res0 lba 1 src m s = Some (s', True) \<and>
    serve_read old 1 dst m' s' = (s'', mem_write m' dst (replicate 512 0), True)"
proof -
  obtain mf where mf: "materialize_range (ss_manifold s) (lba * 512) (mem_read m src 512) = Some mf"
    "serve_write res0 lba 1 src m s = Some (s\<lparr>ss_manifold := mf\<rparr>, True)"
    using one_sector_write [OF assms(3,6)] by blast
  have q: "distinct q" "q \<noteq> []" using assms(1,2) by (auto simp: fifo_rel_def)
  have "fifo_touch q (vblock_of (lba * 512)) = vblock_of (lba * 512) # butlast q"
    using assms(2,5) by (simp add: fifo_touch_def butlast_conv_take)
  then have "fifo_rel mf (vblock_of (lba * 512) # butlast q)"
    using fifo_rel_materialize [OF assms(1) mf(1)] by simp
  moreover have "last q \<notin> set (vblock_of (lba * 512) # butlast q)"
    using q assms(5) by (metis append_butlast_last_id distinct_append disjoint_iff
        last_in_set list.set_intros(1) set_ConsD)
  ultimately have "find_slot mf (vblock_of (old * 512)) = None"
    by (simp add: fifo_find_slot_None assms(4))
  then show ?thesis
    using mf(2) read_absent_sector [of "s\<lparr>ss_manifold := mf\<rparr>" old dst m'] assms(7) by auto
qed

lemma eviction_loses_acknowledged_write_witness:
  "\<exists>s old s' s''. serve_write [] 32768 1 0 (\<lambda>_. 5) s = Some (s', True) \<and>
     serve_read old 1 0 (\<lambda>_. 5) s' = (s'', mem_write (\<lambda>_. 5) 0 (replicate 512 0), True)"
proof -
  obtain mf q where q: "fifo_rel mf q" "length q = 1024" "set q = word_of_nat ` {0..<1024}"
    using full_cache_exists by blast
  then have "last q \<in> word_of_nat ` {0..<1024}" by (metis last_in_set list.size(3) zero_neq_numeral)
  then obtain k where k: "k < 1024" "last q = word_of_nat k" by auto
  let ?s = "SubstrateService DEFAULT_BUILD mf False" and ?old = "word_of_nat (k * 32) :: u64"
  have u: "unat ?old = k * 32" using k by (simp add: unsigned_of_nat take_bit_nat_eq_self del: of_nat_mult)
  then have "unat (?old * 512) = k * 16384" using k by (subst unat_mult_lem [THEN iffD1]) auto
  then have old: "vblock_of (?old * 512) = last q"
    unfolding k(2) word_unat_eq_iff vblock_of_unat using k(1)
    by (simp add: unsigned_of_nat take_bit_nat_eq_self)
  have "vblock_of (32768 * 512) \<notin> set q"
    unfolding q(3) by (auto simp: vblock_of_def word_unat_eq_iff unsigned_of_nat take_bit_nat_eq_self)
  then show ?thesis
    using eviction_loses_acknowledged_write [of ?s q ?old 32768 "[]" 0 "\<lambda>_. 5" 0 "\<lambda>_. 5"] q old u k
    by (auto simp: SubstrateService_def)
qed

text \<open>Only reads check the capacity: a sector at or beyond it is refused by a read, which leaves the
  buffer alone, but a write of it succeeds and puts its bytes into the manifold.\<close>
theorem capacity_checked_on_read_only:
  fixes lba :: u64
  assumes "virtual_capacity_bytes s \<le> lba * 512" "(unat lba + 1) * 512 \<le> 2 ^ 64" "physical_disk s = None"
  shows "(\<exists>s'. serve_read lba 1 dst m' s = (s', m', False)) \<and>
    (\<exists>s'. serve_write res0 lba 1 src m s = Some (s', True) \<and>
       holographic_fetch (ss_manifold s') (lba * 512) = atom_of_bytes (mem_read m src 16))"
proof -
  obtain mf where mf: "materialize_range (ss_manifold s) (lba * 512) (mem_read m src 512) = Some mf"
    "write_ok (lba * 512, mem_read m src 512)"
    "serve_write res0 lba 1 src m s = Some (s\<lparr>ss_manifold := mf\<rparr>, True)"
    using one_sector_write [OF assms(3,2)] by blast
  have "take 16 (mem_read m src 512) = mem_read m src 16" by (rule nth_equalityI) auto
  then have "holographic_fetch mf (lba * 512) = atom_of_bytes (mem_read m src 16)"
    using fetch_materialized [OF _ mf(1), of "lba * 512" 0] mf(2) by (simp add: write_ok_def)
  moreover have "\<exists>s'. serve_read lba 1 dst m' s = (s', m', False)"
    using assms(1) by (simp add: serve_read_def Let_def read_sectors.simps [of _ lba 1 dst 0 m'] sector_vaddr_def)
  ultimately show ?thesis using mf(3) by auto
qed

lemma capacity_checked_on_read_only_witness:
  "\<exists>s'. serve_read 0x500000000 1 0 (\<lambda>_. 0) example_service = (s', \<lambda>_. 0, False)"
  using capacity_checked_on_read_only [of example_service "0x500000000" 0 "\<lambda>_. 0" "[]" 0 "\<lambda>_. 0"]
  by (simp add: example_service_def SubstrateService_def)

text \<open>Idling moves the read-ahead horizon forward by 16 bytes per cycle and stops within one atom of
  the capacity.\<close>
theorem idle_horizon_bounded:
  assumes "unat (preemption_horizon s) + 16 * unat hint + unat (virtual_capacity_bytes s) < 2 ^ 64"
  shows "let h = unat (preemption_horizon (utilize_idle_cycles hint s)); h0 = unat (preemption_horizon s);
             c = unat (virtual_capacity_bytes s)
    in h0 \<le> h \<and> (h = h0 + 16 * unat hint \<or> c \<le> h) \<and> h < max (h0 + 1) (c + 16)"
  using idle_target_bounds [OF assms] by (simp add: utilize_idle_cycles_def Let_def)

lemma idle_horizon_bounded_witness:
  "unat (preemption_horizon (utilize_idle_cycles 128 example_service)) < 10995116277776"
  using idle_horizon_bounded [of example_service 128]
  by (simp add: example_service_def SubstrateService_def Let_def)

end
