(* ===== verification/VirtioBlk.thy ===== *)
theory VirtioBlk
  imports SubstrateService
begin

text \<open>
  \<open>VirtIOBlock\<close> of \<open>src/vdev/virtio_blk.hpp\<close>: a request is read out of the descriptor table in guest
  memory and served by the substrate. Guest memory is one byte memory indexed by address; pointers
  are addresses, and the table pointer is null exactly for address 0. A write that the substrate model
  does not finish (\<open>None\<close> there) makes the whole step \<open>None\<close>.
\<close>

unbundle bit_operations_syntax

record virtq_desc =
  vd_addr :: u64
  vd_len :: u32
  vd_flags :: u16
  vd_next :: u16

record virtio_blk_req =
  vr_type :: u32
  vr_reserved :: u32
  vr_sector :: u64

text \<open>\<open>desc[idx]\<close>: 16 bytes per entry, fields at 0, 8, 12 and 14.\<close>

definition read_desc :: "mem \<Rightarrow> nat \<Rightarrow> u16 \<Rightarrow> virtq_desc" where
  "read_desc m tbl idx =
    (let a = tbl + 16 * unat idx
     in \<lparr>vd_addr = of_le (mem_read m a 8), vd_len = of_le (mem_read m (a + 8) 4),
         vd_flags = of_le (mem_read m (a + 12) 2), vd_next = of_le (mem_read m (a + 14) 2)\<rparr>)"

definition read_req :: "mem \<Rightarrow> nat \<Rightarrow> virtio_blk_req" where
  "read_req m a =
    \<lparr>vr_type = of_le (mem_read m a 4), vr_reserved = of_le (mem_read m (a + 4) 4),
     vr_sector = of_le (mem_read m (a + 8) 8)\<rparr>"

text \<open>The messages of \<open>initialize\<close>, printed when there is a console.\<close>

definition virtio_initialize :: "bool \<Rightarrow> cstr list" where
  "virtio_initialize console =
    (if console then [lit ''[VirtIO] Block Device Emulator Online.\<newline>'',
                      lit ''[VirtIO] Mapping Substrate to Virtual PCI ID 0x1042.\<newline>'']
     else [])"

text \<open>The result holds the service and guest memory. The body of \<open>inject_guest_interrupt\<close> is empty: no request leads to an
  interrupt, whatever its comment says.\<close>

definition handle_guest_notify ::
    "u8 list \<Rightarrow> u16 \<Rightarrow> u64 \<Rightarrow> u16 \<Rightarrow> substrate_service \<times> mem \<Rightarrow>
     (substrate_service \<times> mem) option" where
  "handle_guest_notify residue0 queue_index desc_table_paddr desc_idx = (\<lambda>(s, m).
    if queue_index \<noteq> 0 then Some (s, m)
    else if desc_table_paddr = 0 then Some (s, m)
    else
      let tbl = unat desc_table_paddr;
          req = read_req m (unat (vd_addr (read_desc m tbl desc_idx)));
          nxt = vd_next (read_desc m tbl desc_idx);
          buffer = unat (vd_addr (read_desc m tbl nxt));
          sector_count = vd_len (read_desc m tbl nxt) div 512
      in if vr_type req = 0 then
           (case serve_read (vr_sector req) sector_count buffer m s of
              (s', m', ok) \<Rightarrow> Some (s', m'))
         else if vr_type req = 1 then
           (case serve_write residue0 (vr_sector req) sector_count buffer m s of
              None \<Rightarrow> None | Some (s', ok) \<Rightarrow> Some (s', m))
         else Some (s, m))"

section \<open>Placing a request in guest memory\<close>

text \<open>What a guest driver lays out: a header descriptor that points at the request and chains to a
  data descriptor.\<close>

definition request_at :: "mem \<Rightarrow> u64 \<Rightarrow> u16 \<Rightarrow> u32 \<Rightarrow> u64 \<Rightarrow> nat \<Rightarrow> u32 \<Rightarrow> bool" where
  "request_at m tbl idx ty sector buffer len \<longleftrightarrow> tbl \<noteq> 0 \<and>
     vr_type (read_req m (unat (vd_addr (read_desc m (unat tbl) idx)))) = ty \<and>
     vr_sector (read_req m (unat (vd_addr (read_desc m (unat tbl) idx)))) = sector \<and>
     unat (vd_addr (read_desc m (unat tbl) (vd_next (read_desc m (unat tbl) idx)))) = buffer \<and>
     vd_len (read_desc m (unat tbl) (vd_next (read_desc m (unat tbl) idx))) = len"

lemma notify_read:
  assumes "request_at m tbl idx 0 sector buffer len"
  shows "handle_guest_notify residue0 0 tbl idx (s, m) =
    (case serve_read sector (len div 512) buffer m s of (s', m', ok) \<Rightarrow> Some (s', m'))"
  using assms by (simp add: handle_guest_notify_def request_at_def Let_def)

lemma notify_write:
  assumes "request_at m tbl idx 1 sector buffer len"
  shows "handle_guest_notify residue0 0 tbl idx (s, m) =
    (case serve_write residue0 sector (len div 512) buffer m s of
       None \<Rightarrow> None | Some (s', ok) \<Rightarrow> Some (s', m))"
  using assms by (simp add: handle_guest_notify_def request_at_def Let_def)

section \<open>Properties\<close>

text \<open>C9: the block device contract: on a fresh service without a disk, a guest write request of at most 32704 sectors
  inside the capacity, followed by a guest read request of the same sectors, puts exactly the written bytes into the read
  buffer, whole sectors only, and leaves the rest of guest memory alone.\<close>
theorem virtio_write_then_read:
  assumes w: "request_at m tbl idx 1 sector src len" and r: "request_at m2 tbl2 idx2 0 sector dst len"
    and "(unat sector + unat (len div 512)) * 512 \<le> unat (virtual_capacity b)" "unat (len div 512) \<le> 32704"
  shows "\<exists>s' s''. handle_guest_notify residue0 0 tbl idx
        (SubstrateService b (fst (SubstrateManifold g pool0 map0)) False, m) = Some (s', m) \<and>
    handle_guest_notify residue0 0 tbl2 idx2 (s', m2) =
      Some (s'', mem_write m2 dst (mem_read m src (unat (len div 512) * 512)))"
proof -
  obtain s' s'' where "serve_write residue0 sector (len div 512) src m
        (SubstrateService b (fst (SubstrateManifold g pool0 map0)) False) = Some (s', True)"
    "serve_read sector (len div 512) dst m2 s' =
        (s'', mem_write m2 dst (mem_read m src (unat (len div 512) * 512)), True)"
    using fresh_roundtrip [OF assms(3,4)] by blast
  then show ?thesis by (simp add: notify_write [OF w] notify_read [OF r])
qed

text \<open>A guest memory with a request: the table at 0x100, the header at 0x200.\<close>

definition example_request :: "u32 \<Rightarrow> mem" where
  "example_request ty = mem_write (mem_write (\<lambda>i. word_of_nat i) 0x100
     (to_le 8 (0x200 :: u64) @ to_le 4 (16 :: u32) @ to_le 2 (1 :: u16) @ to_le 2 (1 :: u16) @
      to_le 8 (0x1000 :: u64) @ to_le 4 (1024 :: u32) @ to_le 2 (0 :: u16) @ to_le 2 (0 :: u16)))
     0x200 (to_le 4 ty @ to_le 4 (0 :: u32) @ to_le 8 (40 :: u64))"

lemma example_request_at: "request_at (example_request ty) 0x100 0 ty 40 0x1000 1024"
proof -
  let ?d = "to_le 8 (0x200 :: u64) @ to_le 4 (16 :: u32) @ to_le 2 (1 :: u16) @ to_le 2 (1 :: u16) @
      to_le 8 (0x1000 :: u64) @ to_le 4 (1024 :: u32) @ to_le 2 (0 :: u16) @ to_le 2 (0 :: u16)"
  let ?r = "to_le 4 ty @ to_le 4 (0 :: u32) @ to_le 8 (40 :: u64)"
  have d: "mem_read (example_request ty) (0x100 + off) n = take n (drop off ?d)" if "off + n \<le> 32" for off n
  proof -
    have "mem_read (example_request ty) (0x100 + off) n =
        mem_read (mem_write (\<lambda>i. word_of_nat i) 0x100 ?d) (0x100 + off) n"
      unfolding example_request_def by (rule mem_read_write_disjoint) (use that in simp)
    also have "\<dots> = take n (drop off ?d)" by (rule mem_read_write_sub) (use that in simp)
    finally show ?thesis .
  qed
  have r: "mem_read (example_request ty) (0x200 + off) n = take n (drop off ?r)" if "off + n \<le> 16" for off n
    unfolding example_request_def by (rule mem_read_write_sub) (use that in simp)
  have "vd_addr (read_desc (example_request ty) 0x100 0) = 0x200"
    "vd_next (read_desc (example_request ty) 0x100 0) = 1"
    "vd_addr (read_desc (example_request ty) 0x100 1) = 0x1000"
    "vd_len (read_desc (example_request ty) 0x100 1) = 1024"
    using d [of 0 8] d [of 14 2] d [of 16 8] d [of 24 4] by (simp_all add: read_desc_def Let_def)
  moreover have "vr_type (read_req (example_request ty) 0x200) = ty"
    "vr_sector (read_req (example_request ty) 0x200) = 40"
    using r [of 0 4] r [of 8 8] by (simp_all add: read_req_def)
  ultimately show ?thesis by (simp add: request_at_def)
qed

lemma virtio_write_then_read_witness:
  "\<exists>s' s''. handle_guest_notify [] 0 0x100 0 (example_service, example_request 1) =
      Some (s', example_request 1) \<and>
    handle_guest_notify [] 0 0x100 0 (s', example_request 0) =
      Some (s'', mem_write (example_request 0) 0x1000 (mem_read (example_request 1) 0x1000 1024))"
  using virtio_write_then_read [OF example_request_at example_request_at, of DEFAULT_BUILD "[]"
      "PhysicalMemory 0x2000000 0x40000000" "\<lambda>_. 7" "\<lambda>_. 3"]
  by (simp add: example_service_def)

end
