(* ===== verification/ResidueJournal.thy ===== *)
theory ResidueJournal
  imports AtomStore
begin

text \<open>
  \<open>PersistenceController\<close> of \<open>src/vdev/residue_persistence.hpp\<close>: blocks are journalled as the atoms that
  differ from an expected noise, and recovered by reading the journal sector by sector. The file uses
  names the repository does not define with \<open>topology.hpp\<close>: \<open>SPECULATIVE_ROUTE\<close>, \<open>ENTRIES_PER_BLOCK\<close>,
  the type of the block and \<open>inject_restored_atom\<close>. The first two are parameters, the block is the
  function of its entries, and the injected atoms are listed in order. The upper words of
  \<open>expected_noise\<close> and \<open>baseline\<close> and the batch array on the stack are not initialised: parameters.
  The disk is a byte memory of 512-byte sectors.
\<close>

unbundle bit_operations_syntax

section \<open>Records\<close>

record residue_record =
  rr_vblock_idx :: u64
  rr_local_atom_idx :: u16
  rr_delta :: value128
  rr_checksum :: u32

text \<open>The packed layout, 30 bytes.\<close>

definition residue_bytes :: "residue_record \<Rightarrow> u8 list" where
  "residue_bytes r = to_le 8 (rr_vblock_idx r) @ to_le 2 (rr_local_atom_idx r) @
     atom_bytes (rr_delta r) @ to_le 4 (rr_checksum r)"

definition residue_of_bytes :: "u8 list \<Rightarrow> residue_record" where
  "residue_of_bytes bs = \<lparr>rr_vblock_idx = of_le (take 8 bs), rr_local_atom_idx = of_le (take 2 (drop 8 bs)),
     rr_delta = atom_of_bytes (take 16 (drop 10 bs)), rr_checksum = of_le (take 4 (drop 26 bs))\<rparr>"

definition calculate_checksum :: "residue_record \<Rightarrow> u32" where
  "calculate_checksum r = ucast (rr_vblock_idx r XOR ucast (rr_local_atom_idx r) XOR
     v_hi (rr_delta r) XOR v_lo (rr_delta r))"

definition JOURNAL_START_LBA :: u64 where "JOURNAL_START_LBA = 8192"
definition MAX_RESIDUES :: nat where "MAX_RESIDUES = 1000000"

record persistence =
  current_journal_tail :: u64
  pc_disk :: "mem option"
  pc_master_seed :: seed

definition PersistenceController :: "mem option \<Rightarrow> seed \<Rightarrow> persistence" where
  "PersistenceController disk master =
    \<lparr>current_journal_tail = 0, pc_disk = disk, pc_master_seed = master\<rparr>"

section \<open>Committing\<close>

text \<open>\<open>expected_noise\<close> and \<open>baseline\<close>, with the stale upper word.\<close>

definition noise_atom :: "u16 \<Rightarrow> seed \<Rightarrow> u64 \<Rightarrow> u64 \<Rightarrow> u16 \<Rightarrow> value128" where
  "noise_atom spec_route master uninit vblock j =
    pack_route (val128 uninit (s_lo master XOR (vblock * PHI_LO) XOR ucast j)) spec_route"

definition residue_of :: "value128 \<Rightarrow> value128 \<Rightarrow> value128" where
  "residue_of a e = val128 (v_hi a XOR v_hi e) (v_lo a XOR v_lo e)"

definition make_record :: "u64 \<Rightarrow> u16 \<Rightarrow> value128 \<Rightarrow> residue_record" where
  "make_record vblock j residue =
    (let rec = \<lparr>rr_vblock_idx = vblock, rr_local_atom_idx = j, rr_delta = residue, rr_checksum = 0\<rparr>
     in rec\<lparr>rr_checksum := calculate_checksum rec\<rparr>)"

text \<open>The batch loop over the first \<open>n\<close> entries.\<close>

fun batch_of :: "u16 \<Rightarrow> seed \<Rightarrow> (nat \<Rightarrow> u64) \<Rightarrow> u64 \<Rightarrow> (nat \<Rightarrow> value128) \<Rightarrow> nat \<Rightarrow> residue_record list" where
  "batch_of spec_route master uninit vblock entries 0 = []"
| "batch_of spec_route master uninit vblock entries (Suc n) =
    batch_of spec_route master uninit vblock entries n @
    (let residue = residue_of (entries n) (noise_atom spec_route master (uninit n) vblock (word_of_nat n))
     in if v_hi residue \<noteq> 0 \<or> v_lo residue \<noteq> 0 then [make_record vblock (word_of_nat n) residue] else [])"

definition batch_bytes :: "residue_record list \<Rightarrow> u8 list" where
  "batch_bytes batch = concat (map residue_bytes batch)"

text \<open>\<open>stack\<close> is what the batch array held before; sectors past its end are out of bounds.\<close>

definition write_batch :: "u8 list \<Rightarrow> residue_record list \<Rightarrow> u64 \<Rightarrow> mem \<Rightarrow> mem option" where
  "write_batch stack batch tail disk =
    (let start_lba = JOURNAL_START_LBA + tail div 16;
         sectors_needed = length batch div 16 + 1;
         journal_batch = batch_bytes batch @ drop (30 * length batch) stack
     in if sectors_needed * 512 \<le> length journal_batch
        then Some (mem_write disk (unat start_lba * 512) (take (sectors_needed * 512) journal_batch))
        else None)"

definition commit_residue ::
    "u16 \<Rightarrow> nat \<Rightarrow> (nat \<Rightarrow> u64) \<Rightarrow> u8 list \<Rightarrow> u64 \<Rightarrow> (nat \<Rightarrow> value128) \<Rightarrow> persistence \<Rightarrow> persistence option" where
  "commit_residue spec_route entries_per_block uninit stack vblock entries p =
    (case pc_disk p of
       None \<Rightarrow> Some p
     | Some disk \<Rightarrow>
         let batch = batch_of spec_route (pc_master_seed p) uninit vblock entries entries_per_block
         in if 0 < length batch then
              (case write_batch stack batch (current_journal_tail p) disk of
                 None \<Rightarrow> None
               | Some disk' \<Rightarrow>
                   Some (p\<lparr>pc_disk := Some disk',
                           current_journal_tail := current_journal_tail p + word_of_nat (length batch)\<rparr>))
            else Some p)"

section \<open>Recovery\<close>

datatype recovery =
    Resurrected u64
  | Halted
  | Scanned_all

type_synonym injection = "u64 \<times> u16 \<times> value128"

definition record_at :: "mem \<Rightarrow> nat \<Rightarrow> nat \<Rightarrow> residue_record" where
  "record_at disk off i =
    residue_of_bytes (mem_read disk ((unat JOURNAL_START_LBA + off) * 512 + 30 * i) 30)"

definition is_end :: "residue_record \<Rightarrow> bool" where
  "is_end r \<longleftrightarrow> rr_vblock_idx r = 0 \<and> rr_local_atom_idx r = 0 \<and> v_lo (rr_delta r) = 0"

definition restore :: "u16 \<Rightarrow> seed \<Rightarrow> u64 \<Rightarrow> residue_record \<Rightarrow> injection" where
  "restore spec_route master uninit r =
    (let baseline = noise_atom spec_route master uninit (rr_vblock_idx r) (rr_local_atom_idx r)
     in (rr_vblock_idx r, rr_local_atom_idx r, residue_of baseline (rr_delta r)))"

text \<open>The two loops as one scan: \<open>k\<close> records are left from record number \<open>pos\<close> on, 16 to a sector.\<close>

fun recover_from ::
    "u16 \<Rightarrow> seed \<Rightarrow> (nat \<Rightarrow> u64) \<Rightarrow> mem \<Rightarrow> nat \<Rightarrow> nat \<Rightarrow> injection list \<Rightarrow> recovery \<times> injection list" where
  "recover_from spec_route master uninit disk 0 pos acc = (Scanned_all, acc)"
| "recover_from spec_route master uninit disk (Suc k) pos acc =
    (let r = record_at disk (pos div 16) (pos mod 16)
     in if is_end r then (Resurrected (word_of_nat (pos div 16 * 16 + pos mod 16)), acc)
        else if calculate_checksum r \<noteq> rr_checksum r then (Halted, acc)
        else recover_from spec_route master uninit disk k (pos + 1)
               (acc @ [restore spec_route master (uninit pos) r]))"

definition recover_state ::
    "u16 \<Rightarrow> (nat \<Rightarrow> u64) \<Rightarrow> persistence \<Rightarrow> (persistence \<times> recovery \<times> injection list) option" where
  "recover_state spec_route uninit p =
    (case pc_disk p of
       None \<Rightarrow> None
     | Some disk \<Rightarrow>
         let (out, acc) = recover_from spec_route (pc_master_seed p) uninit disk (MAX_RESIDUES div 16 * 16) 0 []
         in Some (case out of Resurrected t \<Rightarrow> p\<lparr>current_journal_tail := t\<rparr> | _ \<Rightarrow> p, out, acc))"

section \<open>Layout\<close>

lemma length_residue_bytes [simp]: "length (residue_bytes r) = 30"
  by (simp add: residue_bytes_def)

lemma residue_bytes_roundtrip: "residue_of_bytes (residue_bytes r) = r"
  by (simp add: residue_of_bytes_def residue_bytes_def)

lemma length_batch_bytes [simp]: "length (batch_bytes batch) = 30 * length batch"
  by (induction batch) (simp_all add: batch_bytes_def)

lemma batch_bytes_nth:
  "i < length batch \<Longrightarrow> take 30 (drop (30 * i) (batch_bytes batch)) = residue_bytes (batch ! i)"
proof (induction batch arbitrary: i)
  case (Cons r batch)
  then show ?case by (cases i) (simp_all add: batch_bytes_def)
qed simp

lemma checksum_make_record: "calculate_checksum (make_record vblock j d) = rr_checksum (make_record vblock j d)"
  by (simp add: make_record_def calculate_checksum_def Let_def)

lemma batch_checksums: "r \<in> set (batch_of sr ms un vb es n) \<Longrightarrow> calculate_checksum r = rr_checksum r"
  by (induction n) (auto simp: Let_def checksum_make_record split: if_splits)

lemma length_batch_of: "length (batch_of sr ms un vb es n) \<le> n"
  by (induction n) (auto simp: Let_def)

section \<open>Journals of one batch\<close>

definition live :: "u16 \<Rightarrow> seed \<Rightarrow> u64 \<Rightarrow> u64 \<Rightarrow> (nat \<Rightarrow> value128) \<Rightarrow> nat \<Rightarrow> bool" where
  "live sr ms u vb es j \<longleftrightarrow> es j \<noteq> noise_atom sr ms u vb (word_of_nat j)"

lemma xor_eq_zero_iff: "a XOR b = 0 \<longleftrightarrow> a = (b :: u64)"
  by (metis xor_cancel_left xor.right_neutral xor_self_eq)

lemma batch_of_eq:
  "batch_of sr ms (\<lambda>_. u) vb es n =
     map (\<lambda>j. make_record vb (word_of_nat j) (residue_of (es j) (noise_atom sr ms u vb (word_of_nat j))))
       (filter (live sr ms u vb es) [0..<n])"
proof (induction n)
  case (Suc n)
  have "v_hi (residue_of a e) \<noteq> 0 \<or> v_lo (residue_of a e) \<noteq> 0 \<longleftrightarrow> a \<noteq> e" for a e
    by (cases a; cases e) (auto simp: residue_of_def xor_eq_zero_iff)
  with Suc show ?case by (auto simp: Let_def live_def)
qed simp

lemma restore_make_record:
  "restore sr ms u (make_record vb j (residue_of a (noise_atom sr ms u vb j))) = (vb, j, a)"
  by (cases a) (simp add: restore_def make_record_def residue_of_def Let_def xor.commute xor.left_commute)

text \<open>The bytes a batch of at most 16 records puts on the disk, over a zeroed stack.\<close>

definition journal_image :: "residue_record list \<Rightarrow> u8 list" where
  "journal_image batch = take ((length batch div 16 + 1) * 512)
     (batch_bytes batch @ replicate (30720 - 30 * length batch) 0)"

lemma write_batch_image:
  assumes "length batch \<le> 16"
  shows "write_batch (replicate 30720 0) batch tail disk =
    Some (mem_write disk (unat (JOURNAL_START_LBA + tail div 16) * 512) (journal_image batch))"
proof -
  have "(length batch div 16 + 1) * 512 \<le> 1024" using assms by simp
  then show ?thesis using assms by (simp add: write_batch_def Let_def journal_image_def)
qed

lemma length_journal_image: "length batch \<le> 16 \<Longrightarrow> length (journal_image batch) = (length batch div 16 + 1) * 512"
  by (simp add: journal_image_def min_def)

lemma journal_record:
  assumes "length batch \<le> 16" "i < length batch"
  shows "record_at (mem_write disk (8192 * 512) (journal_image batch)) 0 i = batch ! i"
proof -
  have fit: "30 * i + 30 \<le> length (journal_image batch)"
    using assms by (simp add: length_journal_image)
  have l: "30 * i + 30 \<le> length (batch_bytes batch)" using assms by simp
  have sub: "30 * i + 30 \<le> (length batch div 16 + 1) * 512" using assms by simp
  have "take 30 (drop (30 * i) (journal_image batch)) = take 30 (drop (30 * i) (batch_bytes batch))"
    using l sub by (simp add: journal_image_def drop_take min_def)
  then have "mem_read (mem_write disk (8192 * 512) (journal_image batch)) (8192 * 512 + 30 * i) 30 = residue_bytes (batch ! i)"
    using mem_read_write_sub [OF fit, of disk "8192 * 512"] batch_bytes_nth [OF assms(2)] by simp
  then show ?thesis by (simp add: record_at_def JOURNAL_START_LBA_def residue_bytes_roundtrip)
qed

lemma of_le_zeros [simp]: "of_le (replicate n 0) = (0 :: 'a::len word)"
  by (induction n) simp_all

lemma is_end_zeros: "is_end (residue_of_bytes (replicate 30 0))"
  by (simp add: is_end_def residue_of_bytes_def atom_of_bytes_def)

lemma journal_end:
  assumes "length batch \<le> 16"
  shows "is_end (record_at (mem_write disk (8192 * 512) (journal_image batch))
    (length batch div 16) (length batch mod 16))"
proof -
  let ?n = "length batch"
  let ?q = "?n div 16 * 512 + 30 * (?n mod 16)"
  have m: "?n mod 16 < 16" by simp
  have q: "30 * ?n \<le> ?q"
  proof -
    have "?n = 16 * (?n div 16) + ?n mod 16" by simp
    then show ?thesis by linarith
  qed
  have fit: "?q + 30 \<le> length (journal_image batch)"
    unfolding length_journal_image [OF assms] using m by simp
  have small: "?q + 30 \<le> 1024" using fit assms by (simp add: length_journal_image)
  have "take 30 (drop ?q (journal_image batch)) = replicate 30 0"
  proof (rule nth_equalityI)
    fix k assume "k < length (take 30 (drop ?q (journal_image batch)))"
    then have k: "k < 30" by simp
    define z where "z = ?q + k"
    have "z < (?n div 16 + 1) * 512"
    proof -
      define a b where "a = ?n div 16" and "b = ?n mod 16"
      have "z = a * 512 + 30 * b + k" "b < 16" using m by (simp_all add: z_def a_def b_def)
      then show ?thesis using k unfolding a_def [symmetric] by simp
    qed
    moreover have "\<not> z < 30 * ?n" using q unfolding z_def by linarith
    moreover have "z < 1024" using k small unfolding z_def by linarith
    ultimately have z: "z < (?n div 16 + 1) * 512" "\<not> z < 30 * ?n" "z < 1024" .
    have "journal_image batch ! z = 0"
      using z assms by (simp add: journal_image_def nth_append)
    moreover have "take 30 (drop ?q (journal_image batch)) ! k = journal_image batch ! z"
      unfolding z_def using k fit by (subst nth_take) (auto intro: nth_drop)
    ultimately show "take 30 (drop ?q (journal_image batch)) ! k = replicate 30 0 ! k"
      using k by simp
  qed (use fit in simp)
  then have "mem_read (mem_write disk (8192 * 512) (journal_image batch)) (8192 * 512 + ?q) 30 = replicate 30 0"
    using mem_read_write_sub [OF fit, of disk "8192 * 512"] by simp
  moreover have "(unat JOURNAL_START_LBA + ?n div 16) * 512 + 30 * (?n mod 16) = 8192 * 512 + ?q"
    by (simp add: JOURNAL_START_LBA_def add_mult_distrib)
  ultimately show ?thesis using is_end_zeros by (simp only: record_at_def)
qed

lemma recover_batch:
  assumes "length batch \<le> 16" "\<forall>r \<in> set batch. calculate_checksum r = rr_checksum r \<and> \<not> is_end r"
    and "i \<le> length batch" "length batch < k + i"
  shows "recover_from sr ms un (mem_write disk (8192 * 512) (journal_image batch)) k i acc =
    (Resurrected (word_of_nat (length batch)), acc @ map (\<lambda>j. restore sr ms (un j) (batch ! j)) [i..<length batch])"
  using assms(3,4)
proof (induction "length batch - i" arbitrary: i k acc)
  case 0
  then obtain k' where k: "k = Suc k'" "i = length batch" by (cases k) auto
  then show ?case using journal_end [OF assms(1), of disk] by (simp add: Let_def)
next
  case (Suc d)
  then have i: "i < length batch" by simp
  then obtain k' where k: "k = Suc k'" using Suc.prems by (cases k) auto
  have "i < 16" using i assms(1) by simp
  then have r: "record_at (mem_write disk (8192 * 512) (journal_image batch)) (i div 16) (i mod 16) = batch ! i"
    using journal_record [OF assms(1) i] by simp
  have ok: "calculate_checksum (batch ! i) = rr_checksum (batch ! i)" "\<not> is_end (batch ! i)"
    using assms(2) i by auto
  have "recover_from sr ms un (mem_write disk (8192 * 512) (journal_image batch)) k i acc =
      recover_from sr ms un (mem_write disk (8192 * 512) (journal_image batch)) k' (i + 1)
        (acc @ [restore sr ms (un i) (batch ! i)])"
    unfolding k using r ok by (simp add: Let_def)
  also have "\<dots> = (Resurrected (word_of_nat (length batch)),
      (acc @ [restore sr ms (un i) (batch ! i)]) @ map (\<lambda>j. restore sr ms (un j) (batch ! j)) [i + 1..<length batch])"
    by (rule Suc.hyps(1)) (use Suc.hyps(2) Suc.prems k i in auto)
  also have "(acc @ [restore sr ms (un i) (batch ! i)]) @ map (\<lambda>j. restore sr ms (un j) (batch ! j)) [i + 1..<length batch] =
      acc @ map (\<lambda>j. restore sr ms (un j) (batch ! j)) [i..<length batch]"
    using i by (simp add: upt_conv_Cons)
  finally show ?case .
qed

text \<open>What recovery injects after a batch: the entries that differ from the noise.\<close>

lemma recover_committed:
  assumes "vb \<noteq> 0" "length (filter (live sr ms u vb es) [0..<1024]) \<le> 16"
  shows "recover_from sr ms (\<lambda>_. u)
      (mem_write disk (8192 * 512) (journal_image (batch_of sr ms (\<lambda>_. u) vb es 1024))) (MAX_RESIDUES div 16 * 16) 0 [] =
    (Resurrected (word_of_nat (length (filter (live sr ms u vb es) [0..<1024]))),
     map (\<lambda>j. (vb, word_of_nat j, es j)) (filter (live sr ms u vb es) [0..<1024]))"
proof -
  define js where "js = filter (live sr ms u vb es) [0..<1024]"
  let ?b = "batch_of sr ms (\<lambda>_. u) vb es 1024"
  have b: "?b = map (\<lambda>j. make_record vb (word_of_nat j) (residue_of (es j) (noise_atom sr ms u vb (word_of_nat j)))) js"
    by (simp add: batch_of_eq js_def)
  have len: "length ?b = length js" "length js \<le> 16" using assms(2) by (simp_all add: b js_def)
  have ok: "\<forall>r \<in> set ?b. calculate_checksum r = rr_checksum r \<and> \<not> is_end r"
    using assms(1) by (auto simp: b checksum_make_record) (auto simp: is_end_def make_record_def Let_def)
  have "recover_from sr ms (\<lambda>_. u) (mem_write disk (8192 * 512) (journal_image ?b)) (MAX_RESIDUES div 16 * 16) 0 [] =
      (Resurrected (word_of_nat (length ?b)), [] @ map (\<lambda>j. restore sr ms u (?b ! j)) [0..<length ?b])"
    by (rule recover_batch [OF _ ok]) (use len in \<open>simp_all add: MAX_RESIDUES_def\<close>)
  moreover have "map (\<lambda>j. restore sr ms u (?b ! j)) [0..<length ?b] = map (\<lambda>j. (vb, word_of_nat j, es j)) js"
    unfolding len by (rule nth_equalityI) (simp_all add: b restore_make_record)
  ultimately show ?thesis using len(1) unfolding js_def by simp
qed

lemma mem_write_twice: "length x = length y \<Longrightarrow> mem_write (mem_write m a x) a y = mem_write m a y"
  by (rule ext) (simp add: mem_write_def)

text \<open>A block that agrees with the noise except at entry \<open>k\<close>.\<close>

definition one_change :: "u64 \<Rightarrow> nat \<Rightarrow> nat \<Rightarrow> value128" where
  "one_change vb k j = (if j = k then val128 1 2 else noise_atom 5 \<lparr>s_hi = 3, s_lo = 4\<rparr> 0 vb (word_of_nat j))"

lemma filter_eq_upt: "filter (\<lambda>j. j = k) [0..<n] = (if k < n then [k] else [])"
  by (induction n) auto

lemma live_one_change:
  assumes "k < 1024"
  shows "filter (live 5 \<lparr>s_hi = 3, s_lo = 4\<rparr> 0 vb (one_change vb k)) [0..<1024] = [k]"
proof -
  have "v_hi (noise_atom 5 ms 0 vb j) \<noteq> 1" for ms j
    by (simp add: noise_atom_def pack_route_def Let_def LENS_MASK_def)
  then have "live 5 \<lparr>s_hi = 3, s_lo = 4\<rparr> 0 vb (one_change vb k) = (\<lambda>j. j = k)"
    by (auto simp: fun_eq_iff live_def one_change_def) (metis value128.select_convs(1))
  then show ?thesis using assms filter_eq_upt [of k 1024] by simp
qed

section \<open>Properties\<close>

text \<open>C22: a first commit of 1 to 16 changed atoms of a block other than block 0 is recovered exactly: the atoms that
  differed from the noise are injected in order with their values, and the tail is their number. Two things
  the code leaves to chance are assumed: the stack bytes behind the records are zero at the commit, and the
  upper word of the noise, which neither commit nor recovery initialises, has the same value in both.\<close>
theorem journal_roundtrip:
  assumes "vb \<noteq> 0" "0 < length (filter (live sr ms u vb es) [0..<1024])"
    and "length (filter (live sr ms u vb es) [0..<1024]) \<le> 16"
  shows "\<exists>p'. commit_residue sr 1024 (\<lambda>_. u) (replicate 30720 0) vb es (PersistenceController (Some disk) ms) = Some p' \<and>
    recover_state sr (\<lambda>_. u) p' =
      Some (p', Resurrected (current_journal_tail p'), map (\<lambda>j. (vb, word_of_nat j, es j)) (filter (live sr ms u vb es) [0..<1024]))"
proof -
  let ?b = "batch_of sr ms (\<lambda>_. u) vb es 1024"
  have len: "length ?b = length (filter (live sr ms u vb es) [0..<1024])" unfolding batch_of_eq by simp
  have w: "write_batch (replicate 30720 0) ?b 0 disk = Some (mem_write disk (8192 * 512) (journal_image ?b))"
    using write_batch_image [of ?b 0 disk] len assms(3) by (simp add: JOURNAL_START_LBA_def)
  have ne: "?b \<noteq> []" using len assms(2) by (metis length_0_conv less_irrefl)
  show ?thesis
    using w len ne recover_committed [OF assms(1,3), of disk]
    by (simp add: commit_residue_def recover_state_def PersistenceController_def Let_def del: batch_of.simps)
qed

lemma journal_roundtrip_witness:
  "\<exists>p'. commit_residue 5 1024 (\<lambda>_. 0) (replicate 30720 0) 9 (one_change 9 3)
      (PersistenceController (Some (\<lambda>_. 0)) \<lparr>s_hi = 3, s_lo = 4\<rparr>) = Some p' \<and>
    recover_state 5 (\<lambda>_. 0) p' = Some (p', Resurrected (current_journal_tail p'), [(9, 3, val128 1 2)])"
  using journal_roundtrip [of 9 5 "\<lparr>s_hi = 3, s_lo = 4\<rparr>" 0 "one_change 9 3" "\<lambda>_. 0"]
  by (simp add: live_one_change one_change_def)

text \<open>A second commit that starts inside a sector overwrites it from its first byte: after two commits
  of 1 to 15 atoms each, the disk is as if only the second had been made, and recovery gives only its
  atoms.\<close>
theorem second_commit_erases_first:
  assumes "vb2 \<noteq> 0"
    and "length (filter (live sr ms u vb1 es1) [0..<1024]) \<in> {1..15}"
    and "length (filter (live sr ms u vb2 es2) [0..<1024]) \<in> {1..15}"
  shows "\<exists>p1 p2. commit_residue sr 1024 (\<lambda>_. u) (replicate 30720 0) vb1 es1 (PersistenceController (Some disk) ms) = Some p1 \<and>
    commit_residue sr 1024 (\<lambda>_. u) (replicate 30720 0) vb2 es2 p1 = Some p2 \<and>
    (\<exists>p3 out. recover_state sr (\<lambda>_. u) p2 =
      Some (p3, out, map (\<lambda>j. (vb2, word_of_nat j, es2 j)) (filter (live sr ms u vb2 es2) [0..<1024])))"
proof -
  let ?b1 = "batch_of sr ms (\<lambda>_. u) vb1 es1 1024" and ?b2 = "batch_of sr ms (\<lambda>_. u) vb2 es2 1024"
  have len: "length ?b1 \<in> {1..15}" "length ?b2 \<in> {1..15}" unfolding batch_of_eq using assms(2,3) by simp_all
  define d1 where "d1 = mem_write disk (8192 * 512) (journal_image ?b1)"
  have w1: "write_batch (replicate 30720 0) ?b1 0 disk = Some d1"
    using write_batch_image [of ?b1 0 disk] len by (simp add: JOURNAL_START_LBA_def d1_def)
  define tl where "tl = (word_of_nat (length ?b1) :: u64)"
  have "unat tl < 16" using len by (simp add: tl_def unsigned_of_nat take_bit_nat_eq_self)
  then have "tl div 16 = 0" by (simp add: word_unat_eq_iff unat_div)
  then have "write_batch (replicate 30720 0) ?b2 tl d1 = Some (mem_write d1 (8192 * 512) (journal_image ?b2))"
    using write_batch_image [of ?b2 tl d1] len by (simp add: JOURNAL_START_LBA_def)
  moreover have "mem_write d1 (8192 * 512) (journal_image ?b2) = mem_write disk (8192 * 512) (journal_image ?b2)"
    unfolding d1_def by (rule mem_write_twice) (use len in \<open>simp add: length_journal_image\<close>)
  ultimately have w2: "write_batch (replicate 30720 0) ?b2 tl d1 = Some (mem_write disk (8192 * 512) (journal_image ?b2))"
    by simp
  have rec: "recover_from sr ms (\<lambda>_. u) (mem_write disk (8192 * 512) (journal_image ?b2)) (MAX_RESIDUES div 16 * 16) 0 [] =
    (Resurrected (word_of_nat (length (filter (live sr ms u vb2 es2) [0..<1024]))),
     map (\<lambda>j. (vb2, word_of_nat j, es2 j)) (filter (live sr ms u vb2 es2) [0..<1024]))"
    by (rule recover_committed) (use assms in auto)
  have ne: "?b1 \<noteq> []" "?b2 \<noteq> []" using len by auto
  show ?thesis
    using w1 w2 rec ne
    by (simp add: commit_residue_def recover_state_def PersistenceController_def Let_def tl_def [symmetric]
        del: batch_of.simps)
qed

lemma second_commit_erases_first_witness:
  "\<exists>p1 p2 p3 out. commit_residue 5 1024 (\<lambda>_. 0) (replicate 30720 0) 9 (one_change 9 3)
      (PersistenceController (Some (\<lambda>_. 0)) \<lparr>s_hi = 3, s_lo = 4\<rparr>) = Some p1 \<and>
    commit_residue 5 1024 (\<lambda>_. 0) (replicate 30720 0) 11 (one_change 11 6) p1 = Some p2 \<and>
    recover_state 5 (\<lambda>_. 0) p2 = Some (p3, out, [(11, 6, val128 1 2)])"
  using second_commit_erases_first [of 11 5 "\<lparr>s_hi = 3, s_lo = 4\<rparr>" 0 9 "one_change 9 3" "one_change 11 6" "\<lambda>_. 0"]
  by (simp add: live_one_change) (auto simp: one_change_def)

end
