(* ===== verification/Keyboard.thy ===== *)
theory Keyboard
  imports Prelude
begin

text \<open>
  \<open>Keyboard\<close> of \<open>src/hal/keyboard.hpp\<close>. The controller is a queue of bytes; what arrives is given as a
  list with one entry for each status poll the code makes, the bytes that have come in since the poll
  before. A function that still waits when that list is used up has the result \<open>None\<close>: it had not
  returned by then. The screen the reading functions echo to is the list of characters and colours
  given to \<open>put_char\<close>.
\<close>

unbundle bit_operations_syntax

section \<open>Controller\<close>

record keyboard =
  modifiers :: u8
  hotkey_triggered :: bool
  kb_queue :: "u8 list"
  kb_arrivals :: "u8 list list"

definition Keyboard :: "u8 list list \<Rightarrow> keyboard" where
  "Keyboard arrivals = \<lparr>modifiers = 0, hotkey_triggered = False, kb_queue = [], kb_arrivals = arrivals\<rparr>"

definition is_data_available :: "keyboard \<Rightarrow> (bool \<times> keyboard) option" where
  "is_data_available kb =
    (case kb_arrivals kb of
       [] \<Rightarrow> None
     | a # as \<Rightarrow> (let q = kb_queue kb @ a in Some (q \<noteq> [], kb\<lparr>kb_queue := q, kb_arrivals := as\<rparr>)))"

text \<open>\<open>inb(DATA_PORT)\<close>, only called when a byte is there.\<close>

definition inb_data :: "keyboard \<Rightarrow> u8 \<times> keyboard" where
  "inb_data kb = (hd (kb_queue kb), kb\<lparr>kb_queue := tl (kb_queue kb)\<rparr>)"

definition scancode_map :: "u8 list" where
  "scancode_map =
    [0, 27, 49, 50, 51, 52, 53, 54, 55, 56, 57, 48, 45, 61, 8,
     9, 113, 119, 101, 114, 116, 121, 117, 105, 111, 112, 91, 93, 10,
     0, 97, 115, 100, 102, 103, 104, 106, 107, 108, 59, 39, 96, 0,
     92, 122, 120, 99, 118, 98, 110, 109, 44, 46, 47, 0, 42,
     0, 32, 0, 0, 0, 0, 0, 0, 0, 0, 0, 0, 0, 0, 0, 0, 0, 0, 45, 0, 0, 0, 43] @ replicate 49 0"

definition KEY_TAB :: u8 where "KEY_TAB = 0x0F"
definition KEY_UP :: u8 where "KEY_UP = 0x48"
definition KEY_DOWN :: u8 where "KEY_DOWN = 0x50"
definition KEY_LEFT :: u8 where "KEY_LEFT = 0x4B"
definition KEY_RIGHT :: u8 where "KEY_RIGHT = 0x4D"
definition KEY_F1 :: u8 where "KEY_F1 = 0x3B"
definition KEY_F2 :: u8 where "KEY_F2 = 0x3C"

definition read_raw_scancode :: "keyboard \<Rightarrow> (u8 \<times> keyboard) option" where
  "read_raw_scancode kb =
    (case is_data_available kb of
       None \<Rightarrow> None
     | Some (ok, kb1) \<Rightarrow> if \<not> ok then Some (0, kb1) else Some (inb_data kb1))"

definition scancode_to_char :: "u8 \<Rightarrow> u8" where
  "scancode_to_char scancode =
    (if scancode AND 0x80 \<noteq> 0 then 0 else scancode_map ! unat scancode)"

section \<open>Modifiers and the hotkey\<close>

definition apply_scancode :: "u8 \<Rightarrow> keyboard \<Rightarrow> keyboard" where
  "apply_scancode scancode kb =
    (let m = modifiers kb;
         m' = (if scancode = 0x1D then m OR 0x01
               else if scancode = 0x9D then m AND NOT 0x01
               else if scancode = 0x38 then m OR 0x02
               else if scancode = 0xB8 then m AND NOT 0x02
               else if scancode = 0x2A \<or> scancode = 0x36 then m OR 0x04
               else if scancode = 0xAA \<or> scancode = 0xB6 then m AND NOT 0x04
               else m)
     in kb\<lparr>modifiers := m',
           hotkey_triggered := (if scancode = 0x12 \<and> m' = 0x07 then True else hotkey_triggered kb)\<rparr>)"

definition update_state :: "keyboard \<Rightarrow> keyboard option" where
  "update_state kb =
    (case is_data_available kb of
       None \<Rightarrow> None
     | Some (ok, kb1) \<Rightarrow>
         if \<not> ok then Some kb1
         else let (scancode, kb2) = inb_data kb1 in Some (apply_scancode scancode kb2))"

definition consume_hotkey :: "keyboard \<Rightarrow> bool \<times> keyboard" where
  "consume_hotkey kb = (hotkey_triggered kb, kb\<lparr>hotkey_triggered := False\<rparr>)"

section \<open>Reading characters\<close>

lemma available_arrivals:
  "is_data_available kb = Some (ok, kb1) \<Longrightarrow> length (kb_arrivals kb1) + 1 = length (kb_arrivals kb)"
  by (auto simp: is_data_available_def Let_def split: list.splits)

lemma update_arrivals:
  "update_state kb = Some kb1 \<Longrightarrow> length (kb_arrivals kb1) + 1 = length (kb_arrivals kb)"
  by (auto simp: update_state_def inb_data_def apply_scancode_def Let_def split: option.splits if_splits
      dest!: available_arrivals)

text \<open>\<open>c > 0\<close> on a signed \<open>char\<close>.\<close>

function read_char :: "keyboard \<Rightarrow> (u8 \<times> keyboard) option" where
  "read_char kb =
    (case update_state kb of
       None \<Rightarrow> None
     | Some kb1 \<Rightarrow>
         (case is_data_available kb1 of
            None \<Rightarrow> None
          | Some (ok, kb2) \<Rightarrow>
              if ok then
                let (scancode, kb3) = inb_data kb2
                in if scancode AND 0x80 \<noteq> 0 then read_char kb3
                   else let c = scancode_map ! unat scancode
                        in if 0 <s c then Some (c, kb3) else read_char kb3
              else read_char kb2))"
  by pat_completeness auto
termination
  by (relation "measure (\<lambda>kb. length (kb_arrivals kb))")
    (auto simp: inb_data_def dest!: update_arrivals available_arrivals)

declare read_char.simps [simp del]

definition read_char_nonblock :: "keyboard \<Rightarrow> (u8 \<times> keyboard) option" where
  "read_char_nonblock kb =
    (case update_state kb of
       None \<Rightarrow> None
     | Some kb1 \<Rightarrow>
         (case is_data_available kb1 of
            None \<Rightarrow> None
          | Some (ok, kb2) \<Rightarrow>
              if ok then
                let (scancode, kb3) = inb_data kb2
                in Some (if scancode AND 0x80 \<noteq> 0 then 0 else scancode_map ! unat scancode, kb3)
              else Some (0, kb2)))"

lemma read_char_arrivals:
  "read_char kb = Some (c, kb1) \<Longrightarrow> length (kb_arrivals kb1) < length (kb_arrivals kb)"
proof (induction kb arbitrary: c kb1 rule: read_char.induct)
  case (1 kb)
  obtain k1 where k1: "update_state kb = Some k1"
    using "1.prems" by (auto simp: read_char.simps [of kb] split: option.splits)
  obtain ok k2 where k2: "is_data_available k1 = Some (ok, k2)"
    using "1.prems" k1 by (auto simp: read_char.simps [of kb] split: option.splits)
  have len: "length (kb_arrivals k2) < length (kb_arrivals kb)"
    using update_arrivals [OF k1] available_arrivals [OF k2] by simp
  show ?case
  proof (cases ok)
    case False
    then have "read_char k2 = Some (c, kb1)"
      using "1.prems" k1 k2 by (simp add: read_char.simps [of kb])
    then show ?thesis using "1.IH"(3) [OF k1 k2 refl False] len by simp
  next
    case True
    obtain sc k3 where k3: "inb_data k2 = (sc, k3)" by fastforce
    then have len3: "length (kb_arrivals k3) < length (kb_arrivals kb)" using len by (auto simp: inb_data_def)
    show ?thesis
    proof (cases "sc AND 0x80 \<noteq> 0 \<or> \<not> 0 <s scancode_map ! unat sc")
      case again: True
      then have "read_char k3 = Some (c, kb1)"
        using "1.prems" k1 k2 k3 True by (auto simp: read_char.simps [of kb] Let_def split: if_splits)
      then show ?thesis
        using "1.IH"(1) [OF k1 k2 refl True k3 [symmetric]] "1.IH"(2) [OF k1 k2 refl True k3 [symmetric]] again len3
        by fastforce
    next
      case False
      then show ?thesis
        using "1.prems" k1 k2 k3 True len3 by (auto simp: read_char.simps [of kb] Let_def split: if_splits)
    qed
  qed
qed

text \<open>The echo of a key: the characters given to \<open>put_char\<close>, with their colour.\<close>

type_synonym echo = "(u8 \<times> u32) list"

function read_password_loop ::
    "nat \<Rightarrow> u8 list \<Rightarrow> nat \<Rightarrow> echo \<Rightarrow> keyboard \<Rightarrow> (u8 list \<times> nat \<times> echo \<times> keyboard) option" where
  "read_password_loop mx buf i out kb =
    (if i < mx - 1 then
       (case is_data_available kb of
          None \<Rightarrow> None
        | Some (ok, kb1) \<Rightarrow>
            if \<not> ok then read_password_loop mx buf i out kb1
            else
              (case read_char kb1 of
                 None \<Rightarrow> None
               | Some (c, kb2) \<Rightarrow>
                   if c = 10 \<or> c = 13 then Some (buf, i, out, kb2)
                   else if c = 8 \<and> i > 0 then
                     read_password_loop mx buf (i - 1) (out @ [(8, 0)]) kb2
                   else if 32 \<le>s c \<and> c \<le>s 126 then
                     read_password_loop mx (buf[i := c]) (i + 1) (out @ [(42, 0x00FFFF00)]) kb2
                   else read_password_loop mx buf i out kb2))
     else Some (buf, i, out, kb))"
  by pat_completeness auto
termination
  by (relation "measure (\<lambda>(mx, buf, i, out, kb). length (kb_arrivals kb))")
    (auto dest!: read_char_arrivals available_arrivals)

declare read_password_loop.simps [simp del]

text \<open>The buffer after the call, with its terminating NUL.\<close>

definition read_password :: "nat \<Rightarrow> u8 list \<Rightarrow> keyboard \<Rightarrow> (u8 list \<times> echo \<times> keyboard) option" where
  "read_password mx buf kb =
    (case read_password_loop mx buf 0 [] kb of
       None \<Rightarrow> None
     | Some (buf', i, out, kb') \<Rightarrow> Some (buf'[i := 0], out, kb'))"

function read_line_loop ::
    "nat \<Rightarrow> u8 list \<Rightarrow> nat \<Rightarrow> echo \<Rightarrow> keyboard \<Rightarrow> (u8 list \<times> nat \<times> echo \<times> keyboard) option" where
  "read_line_loop mx buf i out kb =
    (if i < mx - 1 then
       (case read_char kb of
          None \<Rightarrow> None
        | Some (c, kb1) \<Rightarrow>
            if c = 10 then Some (buf, i, out, kb1)
            else if c = 8 \<and> i > 0 then read_line_loop mx buf (i - 1) (out @ [(8, 0)]) kb1
            else read_line_loop mx (buf[i := c]) (i + 1) (out @ [(c, 0x00FFFFFF)]) kb1)
     else Some (buf, i, out, kb))"
  by pat_completeness auto
termination
  by (relation "measure (\<lambda>(mx, buf, i, out, kb). length (kb_arrivals kb))")
    (auto dest!: read_char_arrivals)

declare read_line_loop.simps [simp del]

definition read_line :: "nat \<Rightarrow> u8 list \<Rightarrow> keyboard \<Rightarrow> (u8 list \<times> echo \<times> keyboard) option" where
  "read_line mx buf kb =
    (case read_line_loop mx buf 0 [] kb of
       None \<Rightarrow> None
     | Some (buf', i, out, kb') \<Rightarrow> Some (buf'[i := 0], out, kb'))"

section \<open>Waiting for nothing\<close>

definition is_release :: "u8 \<Rightarrow> bool" where
  "is_release b \<longleftrightarrow> b AND 0x80 \<noteq> 0"

text \<open>Nothing but key releases is waiting or will come.\<close>

definition quiet :: "keyboard \<Rightarrow> bool" where
  "quiet kb \<longleftrightarrow> list_all is_release (kb_queue kb) \<and> list_all (list_all is_release) (kb_arrivals kb)"

lemma quiet_apply [simp]: "quiet (apply_scancode s kb) = quiet kb"
  by (simp add: quiet_def apply_scancode_def Let_def)

lemma quiet_available:
  assumes "is_data_available kb = Some (ok, kb1)" "quiet kb"
  shows "quiet kb1 \<and> (ok \<longleftrightarrow> kb_queue kb1 \<noteq> [])"
  using assms by (auto simp: is_data_available_def quiet_def Let_def split: list.splits)

lemma quiet_inb:
  assumes "quiet kb" "kb_queue kb \<noteq> []" "inb_data kb = (s, kb1)"
  shows "is_release s \<and> quiet kb1"
  using assms by (cases "kb_queue kb") (auto simp: inb_data_def quiet_def)

lemma quiet_update:
  assumes "quiet kb" "update_state kb = Some kb1"
  shows "quiet kb1"
proof -
  obtain ok k where k: "is_data_available kb = Some (ok, k)"
    using assms(2) by (auto simp: update_state_def split: option.splits)
  obtain s k' where k': "inb_data k = (s, k')" by fastforce
  show ?thesis
    using assms(2) k k' quiet_available [OF k assms(1)] quiet_inb [of k s k']
    by (cases ok) (auto simp: update_state_def)
qed

lemma read_char_quiet: "quiet kb \<Longrightarrow> read_char kb = None"
proof (induction kb rule: read_char.induct)
  case (1 kb)
  note simps = read_char.simps [of kb]
  show ?case
  proof (cases "update_state kb")
    case None
    then show ?thesis by (simp add: simps)
  next
    case k1: (Some k1)
    show ?thesis
    proof (cases "is_data_available k1")
      case None
      then show ?thesis using k1 by (simp add: simps)
    next
      case avail: (Some x)
      obtain ok k2 where x: "x = (ok, k2)" by fastforce
      have q2: "quiet k2 \<and> (ok \<longleftrightarrow> kb_queue k2 \<noteq> [])"
        using quiet_available avail x quiet_update [OF "1.prems" k1] by blast
      show ?thesis
      proof (cases ok)
        case False
        then have "read_char k2 = None" using "1.IH"(3) [OF k1 avail x [symmetric] False] q2 by blast
        then show ?thesis using k1 avail x False by (simp add: simps)
      next
        case True
        obtain sc k3 where k3: "inb_data k2 = (sc, k3)" by fastforce
        have q3: "is_release sc \<and> quiet k3" using quiet_inb [OF _ _ k3] q2 True by blast
        then have sc: "sc AND 0x80 \<noteq> 0" by (simp add: is_release_def)
        have "read_char k3 = None"
          using "1.IH"(1) [OF k1 avail x [symmetric] True refl k3 [symmetric] sc] q3 by blast
        then show ?thesis using k1 avail x True k3 sc by (simp add: simps)
      qed
    qed
  qed
qed

lemma read_char_swallows:
  assumes "kb_queue kb = [sc]" "list_all (list_all is_release) (kb_arrivals kb)"
  shows "read_char kb = None"
proof (cases "update_state kb")
  case None
  then show ?thesis by (simp add: read_char.simps [of kb])
next
  case u: (Some k1)
  then have q1: "quiet k1"
    using assms
    by (auto simp: update_state_def is_data_available_def inb_data_def Let_def quiet_def apply_scancode_def
        split: list.splits)
  show ?thesis
  proof (cases "is_data_available k1")
    case None
    then show ?thesis using u by (simp add: read_char.simps [of kb])
  next
    case avail: (Some x)
    obtain ok k2 where x: "x = (ok, k2)" by fastforce
    have q2: "quiet k2 \<and> (ok \<longleftrightarrow> kb_queue k2 \<noteq> [])" using quiet_available avail x q1 by blast
    obtain s k3 where k3: "inb_data k2 = (s, k3)" by fastforce
    have "ok \<Longrightarrow> s AND 0x80 \<noteq> 0 \<and> read_char k3 = None"
      using quiet_inb [OF _ _ k3] q2 read_char_quiet by (auto simp: is_release_def [symmetric])
    then show ?thesis
      using u avail x k3 read_char_quiet q2 by (cases ok) (simp_all add: read_char.simps [of kb])
  qed
qed

section \<open>Modifier tracking\<close>

text \<open>The last event of a group of keys decides whether it is held.\<close>

definition held :: "u8 set \<Rightarrow> u8 set \<Rightarrow> u8 list \<Rightarrow> bool" where
  "held press release scs =
    (case filter (\<lambda>s. s \<in> press \<union> release) (rev scs) of [] \<Rightarrow> False | s # _ \<Rightarrow> s \<in> press)"

abbreviation ctrl_held :: "u8 list \<Rightarrow> bool" where "ctrl_held \<equiv> held {0x1D} {0x9D}"
abbreviation alt_held :: "u8 list \<Rightarrow> bool" where "alt_held \<equiv> held {0x38} {0xB8}"
abbreviation shift_held :: "u8 list \<Rightarrow> bool" where "shift_held \<equiv> held {0x2A, 0x36} {0xAA, 0xB6}"

definition modifier_bits :: "u8 list \<Rightarrow> u8" where
  "modifier_bits scs = (if ctrl_held scs then 1 else 0) OR (if alt_held scs then 2 else 0) OR
     (if shift_held scs then 4 else 0)"

lemma held_snoc: "held P R (scs @ [s]) = (if s \<in> P then True else if s \<in> R then False else held P R scs)"
  by (simp add: held_def)

lemma apply_all_modifiers:
  "modifiers (fold apply_scancode scs (kb\<lparr>modifiers := 0\<rparr>)) = modifier_bits scs"
proof (induction scs rule: rev_induct)
  case Nil
  show ?case by (simp add: modifier_bits_def held_def)
next
  case (snoc s scs)
  then show ?case
    by (cases "ctrl_held scs"; cases "alt_held scs"; cases "shift_held scs")
      (simp_all add: apply_scancode_def Let_def modifier_bits_def held_snoc)
qed

lemma apply_all_hotkey:
  "hotkey_triggered (fold apply_scancode scs (kb\<lparr>modifiers := 0, hotkey_triggered := False\<rparr>)) \<longleftrightarrow>
    (\<exists>p q. scs = p @ 0x12 # q \<and> ctrl_held p \<and> alt_held p \<and> shift_held p)"
proof (induction scs rule: rev_induct)
  case Nil
  show ?case by simp
next
  case (snoc s scs)
  let ?k = "fold apply_scancode scs (kb\<lparr>modifiers := 0, hotkey_triggered := False\<rparr>)"
  have "kb\<lparr>modifiers := 0, hotkey_triggered := False\<rparr> = (kb\<lparr>hotkey_triggered := False\<rparr>)\<lparr>modifiers := 0\<rparr>"
    by (cases kb) simp
  then have m: "modifiers ?k = modifier_bits scs"
    using apply_all_modifiers [of scs "kb\<lparr>hotkey_triggered := False\<rparr>"] by (simp only:)
  have bits: "modifier_bits scs = 7 \<longleftrightarrow> ctrl_held scs \<and> alt_held scs \<and> shift_held scs"
    by (simp add: modifier_bits_def)
  have "hotkey_triggered (apply_scancode s ?k) \<longleftrightarrow> (s = 0x12 \<and> modifier_bits scs = 7) \<or> hotkey_triggered ?k"
    by (auto simp: apply_scancode_def Let_def m)
  moreover have "(\<exists>p q. scs @ [s] = p @ 0x12 # q \<and> ctrl_held p \<and> alt_held p \<and> shift_held p) \<longleftrightarrow>
      (s = 0x12 \<and> ctrl_held scs \<and> alt_held scs \<and> shift_held scs) \<or>
      (\<exists>p q. scs = p @ 0x12 # q \<and> ctrl_held p \<and> alt_held p \<and> shift_held p)"
    by (auto simp: append_eq_append_conv2 append_eq_Cons_conv Cons_eq_append_conv)
      (metis append_butlast_last_id append_self_conv butlast.simps(2) butlast_append butlast_snoc last_snoc list.distinct(1) last_ConsL last_append)+
  ultimately show ?case using snoc bits by simp
qed


section \<open>Properties\<close>

lemma read_char_idle:
  assumes "kb_queue kb = []" "kb_arrivals kb = replicate (2 * k) [] @ rest"
  shows "read_char kb = read_char (kb\<lparr>kb_arrivals := rest\<rparr>)"
  using assms
proof (induction k arbitrary: kb)
  case 0
  then show ?case by (cases kb) simp
next
  case (Suc k)
  let ?k2 = "kb\<lparr>kb_queue := [], kb_arrivals := replicate (2 * k) [] @ rest\<rparr>"
  have "read_char kb = read_char ?k2"
    using Suc.prems
    by (subst read_char.simps) (simp add: update_state_def is_data_available_def Let_def)
  also have "\<dots> = read_char (?k2\<lparr>kb_arrivals := rest\<rparr>)" by (rule Suc.IH) simp_all
  also have "?k2\<lparr>kb_arrivals := rest\<rparr> = kb\<lparr>kb_arrivals := rest\<rparr>" using Suc.prems(1) by (cases kb) simp
  finally show ?case .
qed

text \<open>Whether a typed key is ever delivered depends on the parity of the poll that sees it first. On
  an idle keyboard a press that comes in before the second poll of a round of \<open>read_char\<close> is returned
  as its character; the same press seen by the first poll is eaten by \<open>update_state\<close>, and \<open>read_char\<close>
  still waits when only key releases follow.\<close>
theorem read_char_poll_parity:
  assumes "kb_queue kb = []" "sc AND 0x80 = 0" "0 <s scancode_map ! unat sc"
  shows "read_char (kb\<lparr>kb_arrivals := replicate (2 * k) [] @ [] # [sc] # rest\<rparr>) =
      Some (scancode_map ! unat sc, kb\<lparr>kb_arrivals := rest\<rparr>) \<and>
    (list_all (list_all is_release) rest \<longrightarrow>
      read_char (kb\<lparr>kb_arrivals := replicate (2 * k) [] @ [sc] # rest\<rparr>) = None)"
proof (intro conjI impI)
  have "read_char (kb\<lparr>kb_arrivals := replicate (2 * k) [] @ [] # [sc] # rest\<rparr>) =
      read_char (kb\<lparr>kb_arrivals := [] # [sc] # rest\<rparr>)"
    by (subst read_char_idle [where k = k and rest = "[] # [sc] # rest"]) (simp_all add: assms(1))
  also have "\<dots> = Some (scancode_map ! unat sc, kb\<lparr>kb_arrivals := rest\<rparr>)"
    using assms
    by (subst read_char.simps) (cases kb, simp add: update_state_def is_data_available_def inb_data_def Let_def)
  finally show "read_char (kb\<lparr>kb_arrivals := replicate (2 * k) [] @ [] # [sc] # rest\<rparr>) =
      Some (scancode_map ! unat sc, kb\<lparr>kb_arrivals := rest\<rparr>)" .
next
  assume rest: "list_all (list_all is_release) rest"
  have "read_char (kb\<lparr>kb_arrivals := replicate (2 * k) [] @ [sc] # rest\<rparr>) =
      read_char (kb\<lparr>kb_arrivals := [sc] # rest\<rparr>)"
    by (subst read_char_idle [where k = k and rest = "[sc] # rest"]) (simp_all add: assms(1))
  also have "\<dots> = read_char (kb\<lparr>kb_queue := [sc], kb_arrivals := [] # rest\<rparr>)"
    using assms(1) by (subst (1 2) read_char.simps) (simp add: update_state_def is_data_available_def Let_def)
  also have "\<dots> = None" by (rule read_char_swallows) (simp_all add: rest)
  finally show "read_char (kb\<lparr>kb_arrivals := replicate (2 * k) [] @ [sc] # rest\<rparr>) = None" .
qed

lemma read_char_poll_parity_witness:
  "map_option fst (read_char (Keyboard [[], [], [], [0x1E], [0x9E]])) = Some 97 \<and>
   read_char (Keyboard [[], [], [0x1E], [0x9E], [0x9E]]) = None"
proof -
  have a: "kb_queue (Keyboard []) = []" "(0x1E :: u8) AND 0x80 = 0"
    "0 <s scancode_map ! unat (0x1E :: u8)" "list_all (list_all is_release) [[0x9E], [0x9E]]"
    by (simp add: Keyboard_def, simp, code_simp, simp add: is_release_def)
  note p = read_char_poll_parity [OF a(1-3), where k = 1]
  have "scancode_map ! unat (0x1E :: u8) = 97" by (simp add: scancode_map_def)
  then show ?thesis
    using p [of "[[0x9E]]"] p [of "[[0x9E], [0x9E]]"] a(4)
    by (simp add: Keyboard_def numeral_2_eq_2)
qed

text \<open>\<open>update_state\<close> called once for each of \<open>n\<close> polls.\<close>

fun poll_all :: "nat \<Rightarrow> keyboard \<Rightarrow> keyboard option" where
  "poll_all 0 kb = Some kb"
| "poll_all (Suc n) kb = (case update_state kb of None \<Rightarrow> None | Some kb' \<Rightarrow> poll_all n kb')"

lemma apply_scancode_io [simp]:
  "kb_queue (apply_scancode s kb) = kb_queue kb" "kb_arrivals (apply_scancode s kb) = kb_arrivals kb"
  by (simp_all add: apply_scancode_def Let_def)

lemma poll_all_fold:
  "kb_queue kb = [] \<Longrightarrow> kb_arrivals kb = map (\<lambda>s. [s]) scs \<Longrightarrow>
     poll_all (length scs) kb = Some (fold apply_scancode scs (kb\<lparr>kb_arrivals := []\<rparr>))"
proof (induction scs arbitrary: kb)
  case Nil
  then show ?case by (cases kb) simp
next
  case (Cons s scs)
  then have "update_state kb = Some (apply_scancode s (kb\<lparr>kb_arrivals := map (\<lambda>s. [s]) scs\<rparr>))"
    by (cases kb) (simp add: update_state_def is_data_available_def inb_data_def Let_def)
  moreover have "(apply_scancode s (kb\<lparr>kb_arrivals := as\<rparr>))\<lparr>kb_arrivals := []\<rparr> =
      apply_scancode s (kb\<lparr>kb_arrivals := []\<rparr>)" for as
    by (cases kb) (simp add: apply_scancode_def Let_def)
  ultimately show ?case using Cons.IH [of "apply_scancode s (kb\<lparr>kb_arrivals := map (\<lambda>s. [s]) scs\<rparr>)"] Cons.prems
    by simp
qed

text \<open>After any sequence of scancodes handled one per poll, the hotkey is triggered exactly when \<open>E\<close>
  was pressed at some point with Ctrl, Alt and Shift all held, each modifier held when the last event of
  its keys is a press.\<close>
theorem hotkey_iff_chord:
  "\<exists>kb. poll_all (length scs) (Keyboard (map (\<lambda>s. [s]) scs)) = Some kb \<and> modifiers kb = modifier_bits scs \<and>
    (fst (consume_hotkey kb) \<longleftrightarrow> (\<exists>p q. scs = p @ 0x12 # q \<and> ctrl_held p \<and> alt_held p \<and> shift_held p))"
proof -
  let ?k = "Keyboard (map (\<lambda>s. [s]) scs)"
  let ?kz = "?k\<lparr>kb_arrivals := []\<rparr>"
  have "poll_all (length scs) ?k = Some (fold apply_scancode scs ?kz)"
    by (rule poll_all_fold) (simp add: Keyboard_def, simp add: Keyboard_def)
  moreover have "?kz\<lparr>modifiers := 0\<rparr> = ?kz" "?kz\<lparr>modifiers := 0, hotkey_triggered := False\<rparr> = ?kz"
    by (simp_all add: Keyboard_def)
  ultimately show ?thesis
    using apply_all_modifiers [of scs ?kz] apply_all_hotkey [of scs ?kz]
    by (simp add: consume_hotkey_def)
qed

definition printable :: "u8 \<Rightarrow> bool" where
  "printable c \<longleftrightarrow> 32 \<le>s c \<and> c \<le>s 126"

lemma read_password_loop_invariant:
  assumes "read_password_loop mx buf i out kb = Some (buf', i', out', kb')" "P buf i out"
    and erase: "\<And>buf i out. P buf i out \<Longrightarrow> 0 < i \<Longrightarrow> P buf (i - 1) (out @ [(8, 0)])"
    and char: "\<And>buf i out c. P buf i out \<Longrightarrow> i < mx - 1 \<Longrightarrow> 32 \<le>s c \<and> c \<le>s 126 \<Longrightarrow>
      P (buf[i := c]) (i + 1) (out @ [(42, 0x00FFFF00)])"
  shows "P buf' i' out'"
  using assms
proof (induction mx buf i out kb arbitrary: buf' i' out' kb' rule: read_password_loop.induct)
  case (1 mx buf i out kb)
  note simps = read_password_loop.simps [of mx buf i out kb] and P = "1.prems"(2) and erase = "1.prems"(3) and char = "1.prems"(4)
  show ?case
  proof (cases "i < mx - 1")
    case False
    then show ?thesis using "1.prems"(1) P by (simp add: simps)
  next
    case lt: True
    obtain ok kb1 where av: "is_data_available kb = Some (ok, kb1)"
      using "1.prems"(1) lt by (auto simp: simps split: option.splits)
    show ?thesis
    proof (cases ok)
      case False
      then show ?thesis using "1.IH"(1) [OF lt av refl False _ P erase char] "1.prems"(1) av lt by (simp add: simps)
    next
      case ok: True
      then have nok: "\<not> \<not> ok" by simp
      obtain c kb2 where rc: "read_char kb1 = Some (c, kb2)"
        using "1.prems"(1) lt av ok by (auto simp: simps split: option.splits)
      note IH = "1.IH"(2-4) [OF lt av refl nok rc refl] and run = "1.prems"(1) [unfolded simps] and known = lt av ok rc
      consider "c = 10 \<or> c = 13" | "\<not> (c = 10 \<or> c = 13)" "c = 8 \<and> i > 0"
        | "\<not> (c = 10 \<or> c = 13)" "\<not> (c = 8 \<and> i > 0)" "32 \<le>s c \<and> c \<le>s 126"
        | "\<not> (c = 10 \<or> c = 13)" "\<not> (c = 8 \<and> i > 0)" "\<not> (32 \<le>s c \<and> c \<le>s 126)" by blast
      then show ?thesis
      proof cases
        case 1
        then show ?thesis using run P known by auto
      next
        case 2
        then show ?thesis using IH(1) [OF 2 _ erase [OF P] erase char] run known by auto
      next
        case 3
        then show ?thesis using IH(2) [OF 3 _ char [OF P lt] erase char] run known by auto
      next
        case 4
        then show ?thesis using IH(3) [OF 4 _ P erase char] run known by auto
      qed
    qed
  qed
qed

lemma read_password_loop_ok:
  assumes "read_password_loop mx buf i out kb = Some (buf', i', out', kb')"
    "i < mx" "mx \<le> length buf" "\<forall>j<i. printable (buf ! j)"
  shows "length buf' = length buf \<and> i' < mx \<and> (\<forall>j<i'. printable (buf' ! j)) \<and> (\<forall>j\<ge>mx. buf' ! j = buf ! j)"
  using assms(1)
proof (rule read_password_loop_invariant [where P = "\<lambda>b k out. length b = length buf \<and> k < mx \<and> (\<forall>j<k. printable (b ! j)) \<and>
    (\<forall>j\<ge>mx. b ! j = buf ! j)"])
  fix b k out and c :: u8
  assume "length b = length buf \<and> k < mx \<and> (\<forall>j<k. printable (b ! j)) \<and> (\<forall>j\<ge>mx. b ! j = buf ! j)" "k < mx - 1" "32 \<le>s c \<and> c \<le>s 126"
  then show "length (b[k := c]) = length buf \<and> k + 1 < mx \<and> (\<forall>j<k + 1. printable (b[k := c] ! j)) \<and> (\<forall>j\<ge>mx. b[k := c] ! j = buf ! j)"
    using assms(3) by (auto simp: nth_list_update printable_def)
qed (use assms in auto)

text \<open>C31: whatever is typed, the access key prompt never writes outside its buffer: a call that returns
  leaves a NUL-terminated string of fewer than \<open>max\<close> printable characters and keeps every byte from
  \<open>max\<close> on.\<close>
theorem read_password_bounded:
  assumes "read_password mx buf kb = Some (buf', out, kb')" "0 < mx" "mx \<le> length buf"
  shows "length buf' = length buf \<and> (\<forall>j\<ge>mx. buf' ! j = buf ! j) \<and>
    (\<exists>n<mx. buf' ! n = 0 \<and> (\<forall>j<n. printable (buf' ! j)))"
proof -
  obtain b i where loop: "read_password_loop mx buf 0 [] kb = Some (b, i, out, kb')" and b: "buf' = b[i := 0]"
    using assms(1) by (auto simp: read_password_def split: option.splits)
  have "length b = length buf \<and> i < mx \<and> (\<forall>j<i. printable (b ! j)) \<and> (\<forall>j\<ge>mx. b ! j = buf ! j)"
    by (rule read_password_loop_ok [OF loop]) (use assms in simp_all)
  then show ?thesis using assms(3) by (auto simp: b nth_list_update intro!: exI [of _ i])
qed

lemma read_password_bounded_witness:
  "\<exists>buf' out kb'. read_password 3 [1, 2, 3, 4] (Keyboard ([0x1C, 0x1E] # [] # [] # [[0x1C, 0x1C]] @ replicate 5 [])) =
      Some (buf', out, kb') \<and> length buf' = 4 \<and> (\<exists>n<3. buf' ! n = 0)"
proof -
  let ?kb = "Keyboard ([0x1C, 0x1E] # [] # [] # [[0x1C, 0x1C]] @ replicate 5 [])"
  have "read_password 3 [1, 2, 3, 4] ?kb \<noteq> None" by code_simp
  then obtain buf' out kb' where r: "read_password 3 [1, 2, 3, 4] ?kb = Some (buf', out, kb')" by auto
  show ?thesis using read_password_bounded [OF r] r by auto
qed

end
