(* ===== verification/Iommu.thy ===== *)
theory Iommu
  imports PhysMem Value128
begin

text \<open>
  \<open>IOMMUController\<close> of \<open>src/hal/iommu_hybrid.hpp\<close> in its x86-64 build: the fault registers are addresses,
  and the stores the controller makes to them are listed. Before \<open>initialize\<close> the register pointers
  hold whatever was in the object. \<open>map_page\<close> has an empty body.
\<close>

unbundle bit_operations_syntax

record iommu =
  root_table_phys :: u64
  spoofing_active :: bool
  dmar_fault_status :: u64
  dmar_fault_clear :: u64
  mmio_writes :: "(u64 \<times> u32) list"

definition IOMMUController :: "u64 \<Rightarrow> u64 \<Rightarrow> iommu" where
  "IOMMUController status0 clear0 =
    \<lparr>root_table_phys = 0, spoofing_active = True, dmar_fault_status = status0, dmar_fault_clear = clear0,
     mmio_writes = []\<rparr>"

definition allocate_page :: "phys_mem \<Rightarrow> u64 \<times> phys_mem" where
  "allocate_page pmm = allocate pmm 4096"

definition iommu_initialize :: "phys_mem \<Rightarrow> iommu \<Rightarrow> iommu \<times> phys_mem" where
  "iommu_initialize pmm c =
    (let (a, pmm') = allocate_page pmm
     in (c\<lparr>root_table_phys := a, dmar_fault_status := 0xFED91034, dmar_fault_clear := 0xFED91038\<rparr>, pmm'))"

definition calculate_emergent_route :: "u64 \<Rightarrow> u64" where
  "calculate_emergent_route vaddr = (vaddr XOR PHI_HI) AND 0xFFFFFFFFFFFFF000"

definition map_page :: "u16 \<Rightarrow> u64 \<Rightarrow> u64 \<Rightarrow> u32 \<Rightarrow> iommu \<Rightarrow> iommu" where
  "map_page source_id vaddr paddr flags c = c"

definition resume_dma_transaction :: "u16 \<Rightarrow> iommu \<Rightarrow> iommu" where
  "resume_dma_transaction source_id c =
    (if dmar_fault_clear c \<noteq> 0 then c\<lparr>mmio_writes := mmio_writes c @ [(dmar_fault_clear c, push_bit 31 1)]\<rparr>
     else c)"

definition handle_dma_fault :: "u64 \<Rightarrow> u16 \<Rightarrow> iommu \<Rightarrow> iommu" where
  "handle_dma_fault fault_vaddr source_id c =
    (if \<not> spoofing_active c then c
     else let emergent_phys = calculate_emergent_route fault_vaddr
          in resume_dma_transaction source_id (map_page source_id fault_vaddr emergent_phys 3 c))"

lemma page_mask: "(0xFFFFFFFFFFFFF000 :: u64) = NOT (mask 12)"
  by (simp add: mask_eq_decr_exp not_eq_complement)

lemma route_drop: "drop_bit 12 (calculate_emergent_route v) = drop_bit 12 v XOR drop_bit 12 PHI_HI"
  unfolding calculate_emergent_route_def page_mask
  by (rule bit_word_eqI) (auto simp: bit_simps dest: bit_imp_le_length)

section \<open>Properties\<close>

text \<open>The emergent route sends pages to whole pages one to one: two addresses get the same frame exactly
  when they are in the same page. But nothing is mapped: all a fault does, whatever its address and
  source, is to write the clear bit to the fault register.\<close>
theorem dma_fault_route:
  "calculate_emergent_route a AND 0xFFF = 0 \<and>
   (calculate_emergent_route a = calculate_emergent_route b \<longleftrightarrow> unat a div 4096 = unat b div 4096) \<and>
   (let c = fst (iommu_initialize pmm (IOMMUController s0 c0))
    in handle_dma_fault a src c = c\<lparr>mmio_writes := [(0xFED91038, 0x80000000)]\<rparr>)"
proof (intro conjI)
  have m: "(0xFFF :: u64) = mask 12" by (simp add: mask_eq_decr_exp)
  show "calculate_emergent_route a AND 0xFFF = 0"
    unfolding calculate_emergent_route_def page_mask m by (rule bit_word_eqI) (auto simp: bit_simps)
  have low: "calculate_emergent_route v = push_bit 12 (drop_bit 12 (calculate_emergent_route v))" for v
    unfolding calculate_emergent_route_def page_mask by (rule bit_word_eqI) (auto simp: bit_simps)
  have "calculate_emergent_route a = calculate_emergent_route b \<longleftrightarrow> drop_bit 12 a = drop_bit 12 b"
    using low [of a] low [of b] route_drop [of a] route_drop [of b] by (metis xor_cancel_right)
  also have "\<dots> \<longleftrightarrow> unat (drop_bit 12 a) = unat (drop_bit 12 b)" by (simp only: word_unat_eq_iff)
  also have "\<dots> \<longleftrightarrow> unat a div 4096 = unat b div 4096"
    by (simp only: unat_drop_bit_eq) (simp add: drop_bit_eq_div)
  finally show "calculate_emergent_route a = calculate_emergent_route b \<longleftrightarrow> unat a div 4096 = unat b div 4096" .
qed (simp add: handle_dma_fault_def iommu_initialize_def IOMMUController_def resume_dma_transaction_def
    map_page_def split_def Let_def push_bit_eq_mult)

end
