(* ===== verification/Tvm.thy ===== *)
theory Tvm
  imports SubstrateService
begin

text \<open>
  \<open>TopologicalVM\<close> of \<open>src/core/tvm.hpp\<close> in its x86-64 build, over the manifold. Running the guest
  (\<open>vmx_enter_guest\<close>, defined nowhere in the repository) is a parameter, a function on the context, and so
  are the exit handlers, which the code calls through addresses stored in atoms. A step relation with the
  kind of exit as its label says what an exit does, independently of the loop of \<open>run\<close>. Enabling the hardware in the
  constructor is left out.
\<close>

unbundle bit_operations_syntax

section \<open>State and one exit\<close>

record guest_context =
  gprs :: "u64 list"
  gc_rip :: u64
  gc_rsp :: u64
  exit_reason :: u32
  exit_qual :: u32

record tvm =
  tvm_substrate :: manifold
  tvm_service :: "substrate_service option"
  tvm_context :: guest_context
  vmexits :: u64
  is_active :: bool

definition TopologicalVM :: "manifold \<Rightarrow> substrate_service option \<Rightarrow> tvm" where
  "TopologicalVM topo srv =
    \<lparr>tvm_substrate = topo, tvm_service = srv,
     tvm_context = \<lparr>gprs = replicate 32 0, gc_rip = 0, gc_rsp = 0, exit_reason = 0, exit_qual = 0\<rparr>,
     vmexits = 0, is_active = False\<rparr>"

definition load_guest :: "u8 list \<Rightarrow> u64 \<Rightarrow> tvm \<Rightarrow> tvm option" where
  "load_guest img entry_point vm =
    (case materialize_range (tvm_substrate vm) 0x1000 img of
       None \<Rightarrow> None
     | Some m \<Rightarrow> Some (vm\<lparr>tvm_substrate := m, tvm_context := (tvm_context vm)\<lparr>gc_rip := entry_point\<rparr>, is_active := True\<rparr>))"

type_synonym exit_handler = "u64 \<Rightarrow> guest_context \<times> manifold \<Rightarrow> guest_context \<times> manifold"

definition HYPERVISOR_DISPATCH_ROOT :: u64 where "HYPERVISOR_DISPATCH_ROOT = 0x8000000000"

definition dispatch_vaddr :: "u32 \<Rightarrow> u64" where
  "dispatch_vaddr reason = HYPERVISOR_DISPATCH_ROOT OR push_bit 10 (ucast reason)"

definition halting :: "value128 \<Rightarrow> bool" where
  "halting v \<longleftrightarrow> route v = HALT_ROUTE \<or> route v = ERROR_ROUTE"

text \<open>What follows an exit that is not an idle one.\<close>

definition dispatch_exit :: "exit_handler \<Rightarrow> tvm \<Rightarrow> tvm" where
  "dispatch_exit handler vm =
    (let vm = vm\<lparr>vmexits := vmexits vm + 1\<rparr>;
         handler_state = holographic_fetch (tvm_substrate vm) (dispatch_vaddr (exit_reason (tvm_context vm)))
     in if halting handler_state then vm\<lparr>is_active := False\<rparr>
        else if v_lo handler_state \<noteq> 0 then
          (let (ctx, m) = handler (v_lo handler_state) (tvm_context vm, tvm_substrate vm)
           in vm\<lparr>tvm_context := ctx, tvm_substrate := m\<rparr>)
        else vm\<lparr>is_active := False\<rparr>)"

definition is_idle_exit :: "tvm \<Rightarrow> bool" where
  "is_idle_exit vm \<longleftrightarrow> exit_reason (tvm_context vm) = 12 \<and> tvm_service vm \<noteq> None"

definition vm_round :: "(guest_context \<Rightarrow> guest_context) \<Rightarrow> exit_handler \<Rightarrow> tvm \<Rightarrow> tvm" where
  "vm_round guest handler vm =
    (let vm = vm\<lparr>tvm_context := guest (tvm_context vm)\<rparr>
     in if is_idle_exit vm then vm\<lparr>tvm_service := map_option (utilize_idle_cycles 128) (tvm_service vm)\<rparr>
        else dispatch_exit handler vm)"

partial_function (option) run :: "(guest_context \<Rightarrow> guest_context) \<Rightarrow> exit_handler \<Rightarrow> tvm \<Rightarrow> tvm option" where
  "run guest handler vm = (if is_active vm then run guest handler (vm_round guest handler vm) else Some vm)"

section \<open>The exits as a step relation\<close>

datatype exit_kind =
    Idled
  | Dispatched
  | Stopped

text \<open>The rules say what each exit does to the machine, in numbers and without the functions of the loop. An
  exit for reason 12 with a service present is idle time. Any other exit is counted and looked up in the
  manifold under its reason: an atom whose upper ten bits are 0x3FF (halt) or 0x3FE (error), or without a
  handler address, stops the machine, any other atom has its handler called.\<close>

definition exit_atom :: "manifold \<Rightarrow> u32 \<Rightarrow> value128" where
  "exit_atom m reason = holographic_fetch m (0x8000000000 OR (1024 * ucast reason))"

definition atom_stops :: "value128 \<Rightarrow> bool" where
  "atom_stops v \<longleftrightarrow> unat (v_hi v) div 2 ^ 54 \<in> {0x3FE, 0x3FF} \<or> v_lo v = 0"

inductive vm_step :: "(guest_context \<Rightarrow> guest_context) \<Rightarrow> exit_handler \<Rightarrow> tvm \<Rightarrow> exit_kind \<Rightarrow> tvm \<Rightarrow> bool"
  for guest handler where
  idle: "\<lbrakk>is_active vm; guest (tvm_context vm) = c; exit_reason c = 12; tvm_service vm = Some srv\<rbrakk> \<Longrightarrow>
    vm_step guest handler vm Idled (vm\<lparr>tvm_context := c, tvm_service := Some (utilize_idle_cycles 128 srv)\<rparr>)"
| handled: "\<lbrakk>is_active vm; guest (tvm_context vm) = c; exit_reason c \<noteq> 12 \<or> tvm_service vm = None;
    exit_atom (tvm_substrate vm) (exit_reason c) = atom; \<not> atom_stops atom;
    handler (v_lo atom) (c, tvm_substrate vm) = (c', m')\<rbrakk> \<Longrightarrow>
    vm_step guest handler vm Dispatched (vm\<lparr>tvm_context := c', tvm_substrate := m', vmexits := vmexits vm + 1\<rparr>)"
| stopped: "\<lbrakk>is_active vm; guest (tvm_context vm) = c; exit_reason c \<noteq> 12 \<or> tvm_service vm = None;
    atom_stops (exit_atom (tvm_substrate vm) (exit_reason c))\<rbrakk> \<Longrightarrow>
    vm_step guest handler vm Stopped (vm\<lparr>tvm_context := c, vmexits := vmexits vm + 1, is_active := False\<rparr>)"

inductive_cases vm_stepE: "vm_step guest handler vm k vm'"

inductive vm_steps :: "(guest_context \<Rightarrow> guest_context) \<Rightarrow> exit_handler \<Rightarrow> tvm \<Rightarrow> exit_kind list \<Rightarrow> tvm \<Rightarrow> bool"
  for guest handler where
  none: "vm_steps guest handler vm [] vm"
| more: "\<lbrakk>vm_step guest handler vm k vm'; vm_steps guest handler vm' ks vm''\<rbrakk> \<Longrightarrow>
    vm_steps guest handler vm (k # ks) vm''"

inductive_cases vm_steps_ConsE: "vm_steps guest handler vm (k # ks) vm'"

text \<open>One round of the loop is the step of its exit.\<close>

lemma lens_mask_mask: "LENS_MASK = mask 10"
  by (simp add: LENS_MASK_def mask_eq_exp_minus_1)

lemma route_high: "unat (route v) = unat (v_hi v) div 2 ^ 54"
proof -
  have "unat (v_hi v) div 2 ^ 54 < 2 ^ 10" using unat_u64_lt [of "v_hi v"] by simp
  moreover have "unat (route v) = take_bit 10 (unat (v_hi v) div 2 ^ 54)"
    unfolding route_def lens_mask_mask take_bit_eq_mask [symmetric] unsigned_take_bit_eq unsigned_ucast_eq
      unsigned_drop_bit_eq drop_bit_eq_div by (simp add: unat_div)
  ultimately show ?thesis by (simp only: take_bit_nat_eq_self)
qed

lemma atom_stops_code: "atom_stops v \<longleftrightarrow> halting v \<or> v_lo v = 0"
proof -
  have "route v = HALT_ROUTE \<longleftrightarrow> unat (v_hi v) div 2 ^ 54 = 0x3FF" "route v = ERROR_ROUTE \<longleftrightarrow> unat (v_hi v) div 2 ^ 54 = 0x3FE"
    unfolding route_high [symmetric] by (simp_all add: HALT_ROUTE_def ERROR_ROUTE_def word_unat_eq_iff)
  then show ?thesis by (auto simp: atom_stops_def halting_def)
qed

lemma exit_atom_code: "exit_atom m reason = holographic_fetch m (dispatch_vaddr reason)"
  by (simp add: exit_atom_def dispatch_vaddr_def HYPERVISOR_DISPATCH_ROOT_def push_bit_eq_mult mult.commute)

lemma vm_step_round: "vm_step guest handler vm k vm' \<Longrightarrow> is_active vm \<and> vm' = vm_round guest handler vm"
  by (cases rule: vm_step.cases)
    (auto simp: vm_round_def is_idle_exit_def dispatch_exit_def atom_stops_code exit_atom_code Let_def)

text \<open>An active machine always takes exactly one step, and an inactive one none.\<close>

lemma vm_step_total: "is_active vm \<Longrightarrow> \<exists>k. vm_step guest handler vm k (vm_round guest handler vm)"
proof -
  assume a: "is_active vm"
  obtain c where c: "guest (tvm_context vm) = c" by blast
  obtain c' m' where h: "handler (v_lo (exit_atom (tvm_substrate vm) (exit_reason c))) (c, tvm_substrate vm) = (c', m')"
    by (meson surj_pair)
  have "\<exists>k vm'. vm_step guest handler vm k vm'"
  proof (cases "exit_reason c = 12 \<and> tvm_service vm \<noteq> None")
    case True
    then show ?thesis using vm_step.idle [of vm guest c] a c by blast
  next
    case False
    then show ?thesis using vm_step.handled [of vm guest c _ handler c' m'] vm_step.stopped [of vm guest c handler] a c h by blast
  qed
  then show ?thesis using vm_step_round by blast
qed

lemma vm_step_active: "vm_step guest handler vm k vm' \<Longrightarrow> is_active vm \<and> (is_active vm' \<longleftrightarrow> k \<noteq> Stopped)"
  by (auto elim!: vm_stepE)

lemma vm_step_exits: "vm_step guest handler vm k vm' \<Longrightarrow> vmexits vm' = vmexits vm + (if k = Idled then 0 else 1)"
  by (auto elim!: vm_stepE)

lemma vm_steps_run_eq: "vm_steps guest handler vm ks vm' \<Longrightarrow> run guest handler vm = run guest handler vm'"
proof (induction rule: vm_steps.induct)
  case (more vm k vm' ks vm'')
  have "is_active vm" "vm' = vm_round guest handler vm" using vm_step_round [OF more.hyps(1)] by simp_all
  then have "run guest handler vm = run guest handler vm'" by (subst run.simps) simp
  with more.IH show ?case by simp
qed simp

lemma vm_steps_run: "vm_steps guest handler vm ks vm' \<Longrightarrow> \<not> is_active vm' \<Longrightarrow> run guest handler vm = Some vm'"
proof -
  assume "vm_steps guest handler vm ks vm'" "\<not> is_active vm'"
  moreover from this(2) have "run guest handler vm' = Some vm'" by (subst run.simps) simp
  ultimately show ?thesis using vm_steps_run_eq [of guest handler vm ks vm'] by simp
qed

lemma run_vm_steps: "run guest handler vm = Some vm' \<Longrightarrow> \<not> is_active vm' \<and> (\<exists>ks. vm_steps guest handler vm ks vm')"
proof (rule run.raw_induct [where P = "\<lambda>guest handler vm vm'. \<not> is_active vm' \<and> (\<exists>ks. vm_steps guest handler vm ks vm')"])
  fix f and guest :: "guest_context \<Rightarrow> guest_context" and handler :: exit_handler and vm vm' :: tvm
  assume IH: "\<And>guest handler vm vm'. f guest handler vm = Some vm' \<Longrightarrow> \<not> is_active vm' \<and> (\<exists>ks. vm_steps guest handler vm ks vm')"
    and eq: "(if is_active vm then f guest handler (vm_round guest handler vm) else Some vm) = Some vm'"
  show "\<not> is_active vm' \<and> (\<exists>ks. vm_steps guest handler vm ks vm')"
  proof (cases "is_active vm")
    case True
    obtain k where "vm_step guest handler vm k (vm_round guest handler vm)" using vm_step_total [OF True, of guest handler] by blast
    then show ?thesis using IH [of guest handler "vm_round guest handler vm" vm'] eq True by (auto intro: vm_steps.more)
  next
    case False
    then show ?thesis using eq by (auto intro: vm_steps.none)
  qed
qed

lemma vm_steps_shape:
  "vm_steps guest handler vm ks vm' \<Longrightarrow> is_active vm \<Longrightarrow>
    vmexits vm' = vmexits vm + word_of_nat (length (filter (\<lambda>k. k \<noteq> Idled) ks)) \<and>
    (is_active vm' \<longleftrightarrow> Stopped \<notin> set ks) \<and> Stopped \<notin> set (butlast ks)"
proof (induction rule: vm_steps.induct)
  case (none vm)
  then show ?case by simp
next
  case (more vm k vm' ks vm'')
  note a = vm_step_active [OF more.hyps(1)] and e = vm_step_exits [OF more.hyps(1)]
  show ?case
  proof (cases "k = Stopped")
    case True
    then have "\<not> is_active vm'" using a by simp
    with more.hyps(2) have "ks = [] \<and> vm'' = vm'" by (cases rule: vm_steps.cases) (auto dest: vm_step_active)
    then show ?thesis using True a e by simp
  next
    case False
    then show ?thesis using more.IH a e by (cases k) auto
  qed
qed

section \<open>Properties\<close>

text \<open>C17: the loop of \<open>run\<close> implements the exits as the step relation lists them (idle time, an atom that halts,
  marks an error or names no handler, a handler called): it returns a machine if and only if some sequence
  of these steps leads to it and it is inactive. Only the last of those steps stops the machine,
  and the exit counter has counted every step but the idle ones.\<close>
theorem run_iff_steps:
  "(run guest handler vm = Some vm' \<longleftrightarrow> \<not> is_active vm' \<and> (\<exists>ks. vm_steps guest handler vm ks vm')) \<and>
   (is_active vm \<longrightarrow> vm_steps guest handler vm ks vm'' \<longrightarrow>
     vmexits vm'' = vmexits vm + word_of_nat (length (filter (\<lambda>k. k \<noteq> Idled) ks)) \<and>
     (is_active vm'' \<longleftrightarrow> Stopped \<notin> set ks) \<and> Stopped \<notin> set (butlast ks))"
  using run_vm_steps vm_steps_run vm_steps_shape by blast

lemma run_iff_steps_witness:
  "let vm = (TopologicalVM (fst (SubstrateManifold (PhysicalMemory 0x2000000 0x40000000) (\<lambda>_. 0) (\<lambda>_. 0))) None)\<lparr>is_active := True\<rparr>
   in \<exists>k vm'. vm_steps (\<lambda>c. c\<lparr>exit_reason := 12\<rparr>) (\<lambda>_ s. s) vm [k] vm' \<and> k \<noteq> Idled \<and> vmexits vm' = 1"
proof -
  define m where "m = fst (SubstrateManifold (PhysicalMemory 0x2000000 0x40000000) (\<lambda>_. 0) (\<lambda>_. 0))"
  define guest where "guest = (\<lambda>c. c\<lparr>exit_reason := 12\<rparr> :: guest_context)"
  define handler where "handler = (\<lambda>(_ :: u64) (s :: guest_context \<times> manifold). s)"
  define vm where "vm = (TopologicalVM m None)\<lparr>is_active := True\<rparr>"
  have a: "is_active vm" "vmexits vm = 0" "tvm_service vm = None" by (simp_all add: vm_def TopologicalVM_def)
  obtain k where k: "vm_step guest handler vm k (vm_round guest handler vm)" using vm_step_total [OF a(1)] by blast
  then have "k \<noteq> Idled" using a(3) by (auto elim!: vm_stepE)
  moreover have s: "vm_steps guest handler vm [k] (vm_round guest handler vm)" using vm_steps.intros k by blast
  moreover have "vmexits (vm_round guest handler vm) = 1"
    using conjunct2 [OF run_iff_steps [of guest handler vm vm "[k]" "vm_round guest handler vm"]] a s \<open>k \<noteq> Idled\<close> by simp
  ultimately show ?thesis unfolding Let_def m_def [symmetric] vm_def [symmetric] guest_def [symmetric] handler_def [symmetric] by blast
qed

lemma guest_power: "(guest ^^ n) (guest c) = (guest ^^ Suc n) c"
  by (simp add: funpow_swap1)

lemma idle_rounds:
  assumes "is_active vm" "tvm_service vm = Some srv" "\<forall>j \<in> {1..k}. exit_reason ((guest ^^ j) (tvm_context vm)) = 12"
  shows "vm_steps guest handler vm (replicate k Idled)
    (vm\<lparr>tvm_context := (guest ^^ k) (tvm_context vm), tvm_service := Some ((utilize_idle_cycles 128 ^^ k) srv)\<rparr>)"
  using assms
proof (induction k arbitrary: vm srv)
  case 0
  then show ?case by (cases vm) (auto intro: vm_steps.none)
next
  case (Suc k)
  let ?vm1 = "vm\<lparr>tvm_context := guest (tvm_context vm), tvm_service := Some (utilize_idle_cycles 128 srv)\<rparr>"
  have r: "exit_reason (guest (tvm_context vm)) = 12" using Suc.prems(3) by (auto dest: bspec [of _ _ 1])
  then have i: "is_idle_exit (vm\<lparr>tvm_context := guest (tvm_context vm)\<rparr>)" using Suc.prems(2) by (simp add: is_idle_exit_def)
  then have v: "vm_round guest handler vm = ?vm1" using Suc.prems(2) by (simp add: vm_round_def Let_def)
  have "vm_step guest handler vm Idled ?vm1" using vm_step.idle [where guest = guest and vm = vm, OF Suc.prems(1) refl r Suc.prems(2)] .
  moreover have "\<forall>j \<in> {1..k}. exit_reason ((guest ^^ j) (tvm_context ?vm1)) = 12"
  proof
    fix j assume "j \<in> {1..k}"
    then have "Suc j \<in> {1..Suc k}" by simp
    then show "exit_reason ((guest ^^ j) (tvm_context ?vm1)) = 12"
      using bspec [OF Suc.prems(3), of "Suc j"] by (simp add: funpow_swap1)
  qed
  then have "vm_steps guest handler ?vm1 (replicate k Idled)
    (?vm1\<lparr>tvm_context := (guest ^^ k) (tvm_context ?vm1), tvm_service := Some ((utilize_idle_cycles 128 ^^ k) (utilize_idle_cycles 128 srv))\<rparr>)"
    using Suc.prems(1) by (intro Suc.IH) simp_all
  ultimately have "vm_steps guest handler vm (Idled # replicate k Idled)
    (?vm1\<lparr>tvm_context := (guest ^^ k) (tvm_context ?vm1), tvm_service := Some ((utilize_idle_cycles 128 ^^ k) (utilize_idle_cycles 128 srv))\<rparr>)"
    by (rule vm_steps.more)
  then show ?case by (simp add: funpow_swap1)
qed

text \<open>C35: a guest that halts \<open>k\<close> times and then exits for a reason whose handler atom says halt, or that has
  no handler at all, ends the run: \<open>run\<close> returns an inactive machine that counted this one exit and gave
  the service \<open>k\<close> times 128 idle cycles.\<close>
theorem run_returns:
  assumes "is_active vm" "tvm_service vm = Some srv" "\<forall>j \<in> {1..k}. exit_reason ((guest ^^ j) (tvm_context vm)) = 12"
    and "exit_reason ((guest ^^ Suc k) (tvm_context vm)) = r" "r \<noteq> 12"
    and "halting (holographic_fetch (tvm_substrate vm) (dispatch_vaddr r)) \<or>
         v_lo (holographic_fetch (tvm_substrate vm) (dispatch_vaddr r)) = 0"
  shows "run guest handler vm = Some (vm\<lparr>tvm_context := (guest ^^ Suc k) (tvm_context vm),
    tvm_service := Some ((utilize_idle_cycles 128 ^^ k) srv), vmexits := vmexits vm + 1, is_active := False\<rparr>)"
proof -
  let ?vm1 = "vm\<lparr>tvm_context := (guest ^^ k) (tvm_context vm), tvm_service := Some ((utilize_idle_cycles 128 ^^ k) srv)\<rparr>"
  let ?vm2 = "vm\<lparr>tvm_context := (guest ^^ Suc k) (tvm_context vm), tvm_service := Some ((utilize_idle_cycles 128 ^^ k) srv),
    vmexits := vmexits vm + 1, is_active := False\<rparr>"
  have steps: "vm_steps guest handler vm (replicate k Idled) ?vm1" by (rule idle_rounds [OF assms(1-3)])
  have v: "vm_round guest handler ?vm1 = ?vm2"
    using assms(4-6) by (auto simp: vm_round_def is_idle_exit_def dispatch_exit_def Let_def)
  have "run guest handler ?vm1 = Some ?vm2"
    using assms(1) by (subst run.simps) (simp add: v, subst run.simps, simp)
  then show ?thesis using vm_steps_run_eq [OF steps] by simp
qed

lemma run_returns_witness:
  "let vm = (TopologicalVM (fst (SubstrateManifold (PhysicalMemory 0x2000000 0x40000000) (\<lambda>_. 0) (\<lambda>_. 0)))
        (Some example_service))\<lparr>is_active := True\<rparr>;
       guest = (\<lambda>c. c\<lparr>gc_rip := gc_rip c + 1, exit_reason := if gc_rip c < 2 then 12 else 10\<rparr>)
   in \<exists>vm'. run guest (\<lambda>_ s. s) vm = Some vm' \<and> vmexits vm' = 1 \<and> gc_rip (tvm_context vm') = 3"
proof -
  define m where "m = fst (SubstrateManifold (PhysicalMemory 0x2000000 0x40000000) (\<lambda>_. 0) (\<lambda>_. 0))"
  define vm where "vm = (TopologicalVM m (Some example_service))\<lparr>is_active := True\<rparr>"
  define guest where "guest = (\<lambda>c. c\<lparr>gc_rip := gc_rip c + 1, exit_reason := if gc_rip c < 2 then 12 else 10\<rparr> :: guest_context)"
  have a: "is_active vm" "tvm_service vm = Some example_service" by (simp_all add: vm_def TopologicalVM_def)
  have g: "(guest ^^ 1) (tvm_context vm) = (tvm_context vm)\<lparr>gc_rip := 1, exit_reason := 12\<rparr>"
    "(guest ^^ 2) (tvm_context vm) = (tvm_context vm)\<lparr>gc_rip := 2, exit_reason := 12\<rparr>"
    "(guest ^^ Suc 2) (tvm_context vm) = (tvm_context vm)\<lparr>gc_rip := 3, exit_reason := 10\<rparr>"
    by (simp_all add: numeral_2_eq_2 guest_def vm_def TopologicalVM_def)
  have i: "\<forall>j \<in> {1..2}. exit_reason ((guest ^^ j) (tvm_context vm)) = 12"
  proof
    fix j :: nat assume "j \<in> {1..2}"
    then have "j = 1 \<or> j = 2" by auto
    then show "exit_reason ((guest ^^ j) (tvm_context vm)) = 12" using g by auto
  qed
  have "find_slot m b = None" for b
    by (simp add: m_def find_slot_def SubstrateManifold_def split_def Let_def find_None_iff)
  then have "holographic_fetch m a = val128 0 0" for a by (simp add: fetch_find_slot)
  then have f: "v_lo (holographic_fetch (tvm_substrate vm) (dispatch_vaddr 10)) = 0"
    by (simp add: vm_def TopologicalVM_def)
  have "exit_reason ((guest ^^ Suc 2) (tvm_context vm)) = 10" unfolding g by simp
  from run_returns [OF a i this _ disjI2 [OF f], of "\<lambda>_ s. s"]
  show ?thesis unfolding Let_def m_def [symmetric] vm_def [symmetric] guest_def [symmetric]
    unfolding g by (simp add: vm_def TopologicalVM_def)
qed

end
