(* ===== verification/Multiboot.thy ===== *)
theory Multiboot
  imports Prelude
begin

text \<open>
  The walk over the Multiboot 2 information in \<open>kmain\<close> of \<open>src/boot/kmain.cpp\<close>: it looks for the
  framebuffer tag. Physical memory is a byte memory; a walk that never ends is \<open>None\<close>. The second part is
  the layout a boot loader writes, against which the walk is proved.
\<close>

unbundle bit_operations_syntax

section \<open>The walk\<close>

definition load_u32 :: "mem \<Rightarrow> u64 \<Rightarrow> u32" where
  "load_u32 m a = of_le (mem_read m (unat a) 4)"

definition load_u64 :: "mem \<Rightarrow> u64 \<Rightarrow> u64" where
  "load_u64 m a = of_le (mem_read m (unat a) 8)"

record framebuffer =
  fb_lfb :: u64
  fb_p :: u32
  fb_w :: u32
  fb_h :: u32

definition framebuffer_at :: "mem \<Rightarrow> u64 \<Rightarrow> framebuffer" where
  "framebuffer_at m tag =
    \<lparr>fb_lfb = load_u64 m (tag + 8), fb_p = load_u32 m (tag + 16), fb_w = load_u32 m (tag + 20),
     fb_h = load_u32 m (tag + 24)\<rparr>"

text \<open>\<open>tag\<close> is a 64-bit pointer, the size and its rounding are 32 bits wide.\<close>

definition tag_step :: "u32 \<Rightarrow> u64" where
  "tag_step sz = ucast ((sz + 7) AND NOT 7)"

partial_function (option) tag_walk :: "mem \<Rightarrow> u64 \<Rightarrow> u64 \<Rightarrow> framebuffer option \<Rightarrow> framebuffer option option" where
  "tag_walk m limit tag fb =
    (if tag < limit then
       let type = load_u32 m tag; sz = load_u32 m (tag + 4)
       in if type = 0 then Some fb
          else tag_walk m limit (tag + tag_step sz) (if type = 8 then Some (framebuffer_at m tag) else fb)
     else Some fb)"

text \<open>The sums with \<open>info_addr\<close> are 32 bits wide.\<close>

definition find_framebuffer :: "mem \<Rightarrow> u32 \<Rightarrow> framebuffer option option" where
  "find_framebuffer m info_addr =
    (let total_size = load_u32 m (ucast info_addr)
     in tag_walk m (ucast (info_addr + total_size)) (ucast (info_addr + 8)) None)"

section \<open>What a boot loader writes\<close>

text \<open>A tag is its type and what follows its size.\<close>

type_synonym mb_tag = "u32 \<times> u8 list"

definition padding :: "nat \<Rightarrow> nat" where
  "padding n = (n + 7) div 8 * 8 - n"

definition tag_bytes :: "mb_tag \<Rightarrow> u8 list" where
  "tag_bytes = (\<lambda>(type, payload).
    to_le 4 type @ to_le 4 (word_of_nat (8 + length payload) :: u32) @ payload @ replicate (padding (length payload)) 0)"

definition body_bytes :: "mb_tag list \<Rightarrow> u8 list" where
  "body_bytes tags = concat (map tag_bytes tags) @ tag_bytes (0, [])"

definition info_bytes :: "mb_tag list \<Rightarrow> u8 list" where
  "info_bytes tags =
    to_le 4 (word_of_nat (8 + length (body_bytes tags)) :: u32) @ to_le 4 (0 :: u32) @ body_bytes tags"

definition framebuffer_of :: "u8 list \<Rightarrow> framebuffer" where
  "framebuffer_of p =
    \<lparr>fb_lfb = of_le (take 8 p), fb_p = of_le (take 4 (drop 8 p)), fb_w = of_le (take 4 (drop 12 p)),
     fb_h = of_le (take 4 (drop 16 p))\<rparr>"

text \<open>No tag but the last is an end tag, a framebuffer tag holds its fields, and sizes fit.\<close>

definition tag_ok :: "mb_tag \<Rightarrow> bool" where
  "tag_ok = (\<lambda>(type, payload). type \<noteq> 0 \<and> length payload < 2 ^ 31 \<and> (type = 8 \<longrightarrow> 20 \<le> length payload))"

definition last_framebuffer :: "mb_tag list \<Rightarrow> framebuffer option" where
  "last_framebuffer tags =
    (case filter (\<lambda>t. fst t = 8) tags of [] \<Rightarrow> None | ts \<Rightarrow> Some (framebuffer_of (snd (last ts))))"

section \<open>The walk finds it\<close>

lemma and_not_7: "x AND NOT 7 = push_bit 3 (drop_bit 3 (x :: u32))"
proof -
  have m: "(7 :: u32) = mask 3" by (simp add: mask_eq_decr_exp)
  show ?thesis unfolding m by (rule bit_word_eqI) (auto simp: bit_simps dest: bit_imp_le_length)
qed

lemma unat_tag_step: "unat sz + 7 < 2 ^ 32 \<Longrightarrow> unat (tag_step sz) = (unat sz + 7) div 8 * 8"
proof -
  assume a: "unat sz + 7 < 2 ^ 32"
  define x where "x = sz + 7"
  have x: "unat x = unat sz + 7" unfolding x_def using a by (subst unat_add_lem [THEN iffD1]) simp_all
  have "x AND NOT 7 = x - take_bit 3 x"
    unfolding and_not_7 using bits_ident [of 3 x] by (simp add: algebra_simps)
  moreover have "unat (take_bit 3 x) = unat x mod 8" by (simp add: unsigned_take_bit_eq take_bit_nat_def)
  moreover have "take_bit 3 x \<le> x" by (simp add: word_le_nat_alt unsigned_take_bit_eq take_bit_nat_less_eq_self)
  ultimately have "unat (x AND NOT 7) = unat x - unat x mod 8" by (simp add: unat_sub)
  also have "\<dots> = unat x div 8 * 8" by (simp add: minus_mod_eq_div_mult)
  finally have u: "unat (x AND NOT 7) = (unat sz + 7) div 8 * 8" by (simp only: x)
  have "unat (ucast (x AND NOT 7) :: u64) = unat (x AND NOT 7)"
    using unsigned_less [of "x AND NOT 7", where ?'a = nat] by (simp add: unsigned_ucast_eq take_bit_nat_eq_self)
  then show ?thesis using u by (simp only: tag_step_def x_def)
qed

lemma length_tag_bytes: "length (tag_bytes (type, payload)) = (8 + length payload + 7) div 8 * 8"
proof -
  have "(8 + length payload + 7) div 8 * 8 = 8 + (length payload + 7) div 8 * 8" by presburger
  moreover have "length payload \<le> (length payload + 7) div 8 * 8" by linarith
  ultimately show ?thesis by (simp only: tag_bytes_def padding_def prod.case length_append length_to_le length_replicate)
qed

lemma mem_read_part: "mem_read m a n = bs \<Longrightarrow> off + k \<le> n \<Longrightarrow> mem_read m (a + off) k = take k (drop off bs)"
  by (rule nth_equalityI) (auto simp: mem_read_def add.assoc)

lemma load_part:
  assumes "mem_read m (unat a) n = bs" "unat a + n < 2 ^ 64" "off + 8 \<le> n"
  shows "load_u64 m (a + word_of_nat off) = of_le (take 8 (drop off bs))"
    and "load_u32 m (a + word_of_nat off) = of_le (take 4 (drop off bs))"
proof -
  have "unat (a + word_of_nat off) = unat a + off"
    using assms(2,3) by (subst unat_add_lem [THEN iffD1]) (simp_all add: unat_of_nat take_bit_nat_eq_self unsigned_of_nat)
  then show "load_u64 m (a + word_of_nat off) = of_le (take 8 (drop off bs))"
    "load_u32 m (a + word_of_nat off) = of_le (take 4 (drop off bs))"
    using mem_read_part [OF assms(1), of off 8] mem_read_part [OF assms(1), of off 4] assms(3)
    by (simp_all add: load_u64_def load_u32_def)
qed

lemma load_tag:
  assumes "mem_read m (unat a) (length (tag_bytes (type, payload))) = tag_bytes (type, payload)"
    and "unat a + length (tag_bytes (type, payload)) < 2 ^ 64"
  shows "load_u32 m a = type" "load_u32 m (a + 4) = word_of_nat (8 + length payload)"
    and "20 \<le> length payload \<Longrightarrow> framebuffer_at m a = framebuffer_of payload"
proof -
  have len: "8 + length payload \<le> length (tag_bytes (type, payload))" by (simp add: tag_bytes_def)
  have off: "load_u32 m (a + 4) = of_le (take 4 (drop 4 (tag_bytes (type, payload))))"
    unfolding load_u32_def
    using mem_read_part [OF assms(1), of 4 4] len assms(2) by (subst unat_add_lem [THEN iffD1]) simp_all
  show "load_u32 m a = type"
    using load_part(2) [OF assms, of 0] len by (simp add: tag_bytes_def)
  show "load_u32 m (a + 4) = word_of_nat (8 + length payload)"
    unfolding off by (simp add: tag_bytes_def del: of_nat_add)
  assume p: "20 \<le> length payload"
  have q: "(8 :: u64) = word_of_nat 8" "(16 :: u64) = word_of_nat 16" "(20 :: u64) = word_of_nat 20" "(24 :: u64) = word_of_nat 24"
    by simp_all
  have d: "take k (drop (8 + j) (tag_bytes (type, payload))) = take k (drop j payload)" if "j + k \<le> length payload" for j k
    using that by (simp add: tag_bytes_def)
  have g: "load_u32 m (a + 24) = of_le (take 4 (drop 24 (tag_bytes (type, payload))))"
    unfolding load_u32_def
    using mem_read_part [OF assms(1), of 24 4] len p assms(2) by (subst unat_add_lem [THEN iffD1]) simp_all
  show "framebuffer_at m a = framebuffer_of payload"
    unfolding framebuffer_at_def framebuffer_of_def g
    using load_part(1) [OF assms, of 8] load_part(2) [OF assms, of 16] load_part(2) [OF assms, of 20] len p
      d [of 0 8] d [of 8 4] d [of 12 4] d [of 16 4] by simp
qed

lemma tag_walk_tags:
  assumes "list_all tag_ok tags" "mem_read m (unat a) (length (body_bytes tags)) = body_bytes tags"
    and "unat a + length (body_bytes tags) \<le> unat limit" "unat limit < 2 ^ 32"
  shows "tag_walk m limit a fb =
    Some (fold (\<lambda>t fb. if fst t = 8 then Some (framebuffer_of (snd t)) else fb) tags fb)"
  using assms
proof (induction tags arbitrary: a fb)
  case Nil
  have "load_u32 m a = 0" using load_tag(1) [of m a 0 "[]"] Nil.prems by (simp add: body_bytes_def)
  moreover have "a < limit" using Nil.prems by (simp add: body_bytes_def tag_bytes_def word_less_nat_alt)
  ultimately show ?case by (subst tag_walk.simps) simp
next
  case (Cons t tags)
  obtain type payload where t: "t = (type, payload)" by fastforce
  let ?tb = "tag_bytes t"
  have body: "body_bytes (t # tags) = ?tb @ body_bytes tags" by (simp add: body_bytes_def)
  have split: "mem_read m (unat a) (length ?tb) = ?tb" "mem_read m (unat a + length ?tb) (length (body_bytes tags)) = body_bytes tags"
    using Cons.prems(2) unfolding body length_append mem_read_append by simp_all
  have ok: "type \<noteq> 0" "length payload < 2 ^ 31" "type = 8 \<Longrightarrow> 20 \<le> length payload"
    using Cons.prems(1) by (simp_all add: tag_ok_def t)
  have lim: "unat a + length ?tb + length (body_bytes tags) \<le> unat limit" using Cons.prems(3) by (simp add: body)
  note load = load_tag [of m a type payload, folded t, OF split(1)]
  have fit: "unat a + length ?tb < 2 ^ 64" using lim Cons.prems(4) by simp
  have size: "unat (word_of_nat (8 + length payload) :: u32) = 8 + length payload"
    using ok(2) by (simp add: unsigned_of_nat take_bit_nat_eq_self del: of_nat_add)
  have "unat (tag_step (word_of_nat (8 + length payload))) = length ?tb"
    unfolding t length_tag_bytes using ok(2) by (subst unat_tag_step) (simp_all only: size, simp_all)
  then have next_tag: "unat (a + tag_step (word_of_nat (8 + length payload))) = unat a + length ?tb"
    using fit by (subst unat_add_lem [THEN iffD1]) simp_all
  have "0 < length ?tb" by (simp add: t tag_bytes_def)
  then have "unat a < unat limit" using lim by linarith
  then have "a < limit" by (simp only: word_less_nat_alt)
  then have "tag_walk m limit a fb = tag_walk m limit (a + tag_step (word_of_nat (8 + length payload)))
      (if type = 8 then Some (framebuffer_of payload) else fb)"
    using load [OF fit] ok by (subst tag_walk.simps) (simp add: Let_def del: of_nat_add)
  also have "\<dots> = Some (fold (\<lambda>t fb. if fst t = 8 then Some (framebuffer_of (snd t)) else fb) tags
      (if type = 8 then Some (framebuffer_of payload) else fb))"
    using Cons.prems(1,4) split(2) lim by (intro Cons.IH) (simp_all add: next_tag del: of_nat_add)
  finally show ?case by (simp add: t)
qed

lemma fold_last_framebuffer:
  "fold (\<lambda>t fb. if fst t = 8 then Some (framebuffer_of (snd t)) else fb) tags fb =
    (if last_framebuffer tags = None then fb else last_framebuffer tags)"
proof (induction tags rule: rev_induct)
  case (snoc t tags)
  then show ?case by (auto simp: last_framebuffer_def split: list.splits)
qed (simp add: last_framebuffer_def)

lemma framebuffer_walk:
  assumes "list_all tag_ok tags" "mem_read m (unat info_addr) (length (info_bytes tags)) = info_bytes tags"
    and "unat info_addr + length (info_bytes tags) < 2 ^ 32"
  shows "find_framebuffer m info_addr = Some (last_framebuffer tags)"
proof -
  let ?n = "8 + length (body_bytes tags)"
  have len: "length (info_bytes tags) = ?n" by (simp add: info_bytes_def)
  have size: "unat (word_of_nat ?n :: u32) = ?n"
    using assms(3) unfolding len by (simp add: unsigned_of_nat take_bit_nat_eq_self del: of_nat_add)
  have u: "unat (ucast x :: u64) = unat x" for x :: u32
    using unsigned_less [of x, where ?'a = nat] by (simp add: unsigned_ucast_eq take_bit_nat_eq_self)
  have total: "load_u32 m (ucast info_addr) = word_of_nat ?n"
    using mem_read_part [OF assms(2), of 0 4] by (simp add: load_u32_def u info_bytes_def del: of_nat_add)
  have lim: "unat (ucast (info_addr + word_of_nat ?n) :: u64) = unat info_addr + ?n"
    unfolding u using assms(3) unfolding len by (subst unat_add_lem [THEN iffD1]) (simp_all only: size, simp_all)
  have start: "unat (ucast (info_addr + 8) :: u64) = unat info_addr + 8"
    unfolding u using assms(3) unfolding len by (subst unat_add_lem [THEN iffD1]) simp_all
  have "mem_read m (unat info_addr + 8) (length (body_bytes tags)) = body_bytes tags"
    using mem_read_part [OF assms(2), of 8 "length (body_bytes tags)"] by (simp add: info_bytes_def)
  then have "tag_walk m (ucast (info_addr + word_of_nat ?n)) (ucast (info_addr + 8)) None =
      Some (fold (\<lambda>t fb. if fst t = 8 then Some (framebuffer_of (snd t)) else fb) tags None)"
    using tag_walk_tags [where m = m and a = "ucast (info_addr + 8)" and limit = "ucast (info_addr + word_of_nat ?n)", OF assms(1)] assms(3)
    unfolding start lim len by simp
  then show ?thesis
    unfolding find_framebuffer_def total Let_def fold_last_framebuffer by (cases "last_framebuffer tags") simp_all
qed

section \<open>Properties\<close>

text \<open>C18: the kernel reads the boot information the boot loader wrote: whatever tags of whatever sizes it
  holds, the walk ends and gives address, pitch, width and height of the last framebuffer tag, or
  nothing when there is none.\<close>
theorem framebuffer_found:
  assumes "list_all tag_ok tags" "mem_read m (unat info_addr) (length (info_bytes tags)) = info_bytes tags"
    and "unat info_addr + length (info_bytes tags) < 2 ^ 32"
  shows "find_framebuffer m info_addr = Some (last_framebuffer tags)"
  by (rule framebuffer_walk [OF assms])

lemma framebuffer_found_witness:
  "let tags = [(6, [1, 2, 3]), (8, to_le 8 (0xFD000000 :: u64) @ to_le 4 (4096 :: u32) @ to_le 4 (1024 :: u32) @ to_le 4 (768 :: u32) @ [32, 1])]
   in find_framebuffer (mem_write (\<lambda>_. 0) 0x10000 (info_bytes tags)) 0x10000 =
     Some (Some \<lparr>fb_lfb = 0xFD000000, fb_p = 4096, fb_w = 1024, fb_h = 768\<rparr>)"
proof -
  define tags :: "mb_tag list" where "tags =
    [(6, [1, 2, 3]), (8, to_le 8 (0xFD000000 :: u64) @ to_le 4 (4096 :: u32) @ to_le 4 (1024 :: u32) @ to_le 4 (768 :: u32) @ [32, 1])]"
  have "list_all tag_ok tags" by (simp add: tags_def tag_ok_def)
  moreover have "mem_read (mem_write (\<lambda>_. 0) 0x10000 (info_bytes tags)) (unat (0x10000 :: u32)) (length (info_bytes tags)) = info_bytes tags"
    using mem_read_write_same by simp
  moreover have "length (info_bytes tags) < 100"
    by (simp add: tags_def info_bytes_def body_bytes_def tag_bytes_def padding_def)
  ultimately have "find_framebuffer (mem_write (\<lambda>_. 0) 0x10000 (info_bytes tags)) 0x10000 = Some (last_framebuffer tags)"
    by (intro framebuffer_found) simp_all
  moreover have "last_framebuffer tags = Some \<lparr>fb_lfb = 0xFD000000, fb_p = 4096, fb_w = 1024, fb_h = 768\<rparr>"
    by (simp add: tags_def last_framebuffer_def framebuffer_of_def)
  ultimately show ?thesis unfolding tags_def Let_def by simp
qed

text \<open>The walk trusts the sizes it reads: a tag of size 0 that is not the end tag, or one of the seven
  largest sizes, makes the kernel hang before it has drawn anything.\<close>
theorem zero_size_tag_hangs:
  assumes "tag < limit" "load_u32 m tag \<noteq> 0" "load_u32 m (tag + 4) = 0 \<or> 2 ^ 32 \<le> unat (load_u32 m (tag + 4)) + 7"
  shows "tag_walk m limit tag fb = None"
proof -
  have stay: "tag_step (load_u32 m (tag + 4)) = 0"
    using assms(3)
  proof
    assume "2 ^ 32 \<le> unat (load_u32 m (tag + 4)) + 7"
    moreover have "unat (load_u32 m (tag + 4)) < 2 ^ 32" using unsigned_less [of "load_u32 m (tag + 4)", where ?'a = nat] by simp
    ultimately obtain k where k: "unat (load_u32 m (tag + 4)) + 7 = 2 ^ 32 + k" "k < 7"
      by (metis add_less_cancel_left add.commute le_Suc_ex add_less_mono1)
    have "unat (load_u32 m (tag + 4) + 7) = k" using k by (simp add: unat_word_ariths)
    then have "load_u32 m (tag + 4) + 7 < 8" using k(2) by (simp add: word_less_nat_alt)
    moreover have "x AND NOT 7 = 0" if "x < 8" for x :: u32
    proof -
      have "drop_bit 3 x = 0" using that by (simp add: drop_bit_eq_div word_less_nat_alt div_word_less)
      then show ?thesis unfolding and_not_7 by simp
    qed
    ultimately show ?thesis by (simp add: tag_step_def)
  qed (simp add: tag_step_def)
  have "\<not> (tag < limit \<and> load_u32 m tag \<noteq> 0 \<and> tag_step (load_u32 m (tag + 4)) = 0)" if "tag_walk m limit tag fb = Some y" for y
  proof (rule tag_walk.raw_induct [where P = "\<lambda>m limit tag fb y. \<not> (tag < limit \<and> load_u32 m tag \<noteq> 0 \<and> tag_step (load_u32 m (tag + 4)) = 0)", OF _ that])
    fix walk :: "mem \<Rightarrow> u64 \<Rightarrow> u64 \<Rightarrow> framebuffer option \<Rightarrow> framebuffer option option" and m limit tag fb y
    assume IH: "\<And>m limit tag fb y. walk m limit tag fb = Some y \<Longrightarrow>
        \<not> (tag < limit \<and> load_u32 m tag \<noteq> 0 \<and> tag_step (load_u32 m (tag + 4)) = 0)"
      and eq: "(if tag < limit then let type = load_u32 m tag; sz = load_u32 m (tag + 4)
               in if type = 0 then Some fb
                  else walk m limit (tag + tag_step sz) (if type = 8 then Some (framebuffer_at m tag) else fb)
          else Some fb) = Some y"
    show "\<not> (tag < limit \<and> load_u32 m tag \<noteq> 0 \<and> tag_step (load_u32 m (tag + 4)) = 0)"
    proof
      assume a: "tag < limit \<and> load_u32 m tag \<noteq> 0 \<and> tag_step (load_u32 m (tag + 4)) = 0"
      then have "walk m limit tag (if load_u32 m tag = 8 then Some (framebuffer_at m tag) else fb) = Some y"
        using eq by (simp add: Let_def)
      from IH [OF this] a show False by blast
    qed
  qed
  then show ?thesis using assms(1,2) stay by (cases "tag_walk m limit tag fb") auto
qed

lemma zero_size_tag_hangs_witness: "tag_walk (mem_write (\<lambda>_. 0) 16 [1]) 32 16 None = None"
proof (rule zero_size_tag_hangs)
  show "load_u32 (mem_write (\<lambda>_. 0) 16 [1]) 16 \<noteq> 0" by code_simp
  have "load_u32 (mem_write (\<lambda>_. 0) 16 [1]) (16 + 4) = 0" by code_simp
  then show "load_u32 (mem_write (\<lambda>_. 0) 16 [1]) (16 + 4) = 0 \<or> 2 ^ 32 \<le> unat (load_u32 (mem_write (\<lambda>_. 0) 16 [1]) (16 + 4)) + 7" ..
qed simp

end
