(* ===== verification/Font.thy ===== *)
theory Font
  imports Prelude
begin

text \<open>
  The 8 by 8 font of \<open>src/hal/font.cpp\<close>: one row of eight bytes for each character from 32 to 126, the
  most significant bit of a byte leftmost.
\<close>

definition font8x8_basic :: "u8 list list" where
  "font8x8_basic =
    [[0x00, 0x00, 0x00, 0x00, 0x00, 0x00, 0x00, 0x00],
     [0x18, 0x3C, 0x3C, 0x18, 0x18, 0x00, 0x18, 0x00],
     [0x6C, 0x6C, 0x6C, 0x00, 0x00, 0x00, 0x00, 0x00],
     [0x6C, 0x6C, 0xFE, 0x6C, 0xFE, 0x6C, 0x6C, 0x00],
     [0x18, 0x7E, 0xC0, 0x7C, 0x06, 0xFC, 0x18, 0x00],
     [0x00, 0xC6, 0xCC, 0x18, 0x30, 0x66, 0xC6, 0x00],
     [0x38, 0x6C, 0x38, 0x76, 0xDC, 0xCC, 0x76, 0x00],
     [0x30, 0x30, 0x60, 0x00, 0x00, 0x00, 0x00, 0x00],
     [0x18, 0x30, 0x60, 0x60, 0x60, 0x30, 0x18, 0x00],
     [0x30, 0x18, 0x0C, 0x0C, 0x0C, 0x18, 0x30, 0x00],
     [0x00, 0x66, 0x3C, 0xFF, 0x3C, 0x66, 0x00, 0x00],
     [0x00, 0x18, 0x18, 0x7E, 0x18, 0x18, 0x00, 0x00],
     [0x00, 0x00, 0x00, 0x00, 0x00, 0x18, 0x18, 0x30],
     [0x00, 0x00, 0x00, 0x7E, 0x00, 0x00, 0x00, 0x00],
     [0x00, 0x00, 0x00, 0x00, 0x00, 0x18, 0x18, 0x00],
     [0x06, 0x0C, 0x18, 0x30, 0x60, 0xC0, 0x80, 0x00],
     [0x7C, 0xC6, 0xCE, 0xDE, 0xF6, 0xE6, 0x7C, 0x00],
     [0x30, 0x70, 0x30, 0x30, 0x30, 0x30, 0xFC, 0x00],
     [0x7C, 0xC6, 0x06, 0x3C, 0x60, 0xC0, 0xFE, 0x00],
     [0x7C, 0xC6, 0x06, 0x3C, 0x06, 0xC6, 0x7C, 0x00],
     [0x1C, 0x3C, 0x6C, 0xCC, 0xFE, 0x0C, 0x1E, 0x00],
     [0xFE, 0xC0, 0xFC, 0x06, 0x06, 0xC6, 0x7C, 0x00],
     [0x3C, 0x60, 0xC0, 0xFC, 0xC6, 0xC6, 0x7C, 0x00],
     [0xFE, 0x06, 0x0C, 0x18, 0x30, 0x60, 0xC0, 0x00],
     [0x7C, 0xC6, 0xC6, 0x7C, 0xC6, 0xC6, 0x7C, 0x00],
     [0x7C, 0xC6, 0xC6, 0x7E, 0x06, 0x0C, 0x78, 0x00],
     [0x00, 0x18, 0x18, 0x00, 0x18, 0x18, 0x00, 0x00],
     [0x00, 0x18, 0x18, 0x00, 0x18, 0x18, 0x30, 0x00],
     [0x18, 0x30, 0x60, 0xC0, 0x60, 0x30, 0x18, 0x00],
     [0x00, 0x00, 0x7E, 0x00, 0x7E, 0x00, 0x00, 0x00],
     [0x60, 0x30, 0x18, 0x0C, 0x18, 0x30, 0x60, 0x00],
     [0x7C, 0xC6, 0x0C, 0x18, 0x30, 0x00, 0x18, 0x00],
     [0x7C, 0xC6, 0xDE, 0xDE, 0xDE, 0xC0, 0x78, 0x00],
     [0x30, 0x78, 0xCC, 0xCC, 0xFC, 0xCC, 0xCC, 0x00],
     [0xFC, 0x66, 0x66, 0x7C, 0x66, 0x66, 0xFC, 0x00],
     [0x3C, 0x66, 0xC0, 0xC0, 0xC0, 0x66, 0x3C, 0x00],
     [0xF8, 0x6C, 0x66, 0x66, 0x66, 0x6C, 0xF8, 0x00],
     [0xFE, 0x62, 0x68, 0x78, 0x68, 0x62, 0xFE, 0x00],
     [0xFE, 0x62, 0x68, 0x78, 0x68, 0x60, 0xF0, 0x00],
     [0x3C, 0x66, 0xC0, 0xCE, 0xC6, 0x66, 0x3E, 0x00],
     [0xCC, 0xCC, 0xCC, 0xFC, 0xCC, 0xCC, 0xCC, 0x00],
     [0x78, 0x30, 0x30, 0x30, 0x30, 0x30, 0x78, 0x00],
     [0x1E, 0x0C, 0x0C, 0x0C, 0x0C, 0xCC, 0x78, 0x00],
     [0xE6, 0x66, 0x6C, 0x78, 0x6C, 0x66, 0xE6, 0x00],
     [0xF0, 0x60, 0x60, 0x60, 0x62, 0x66, 0xFE, 0x00],
     [0xC6, 0xEE, 0xFE, 0xFE, 0xD6, 0xC6, 0xC6, 0x00],
     [0xC6, 0xE6, 0xF6, 0xDE, 0xCE, 0xC6, 0xC6, 0x00],
     [0x38, 0x6C, 0xC6, 0xC6, 0xC6, 0x6C, 0x38, 0x00],
     [0xFC, 0x66, 0x66, 0x7C, 0x60, 0x60, 0xF0, 0x00],
     [0x7C, 0xC6, 0xC6, 0xC6, 0xDE, 0xCC, 0x7A, 0x00],
     [0xFC, 0x66, 0x66, 0x7C, 0x6C, 0x66, 0xE6, 0x00],
     [0x7C, 0xC6, 0x60, 0x38, 0x0C, 0xC6, 0x7C, 0x00],
     [0x7E, 0x18, 0x18, 0x18, 0x18, 0x18, 0x18, 0x00],
     [0xCC, 0xCC, 0xCC, 0xCC, 0xCC, 0xCC, 0x78, 0x00],
     [0xCC, 0xCC, 0xCC, 0xCC, 0xCC, 0x78, 0x30, 0x00],
     [0xC6, 0xC6, 0xC6, 0xD6, 0xFE, 0xEE, 0xC6, 0x00],
     [0xC6, 0xC6, 0x6C, 0x38, 0x6C, 0xC6, 0xC6, 0x00],
     [0xCC, 0xCC, 0xCC, 0x78, 0x30, 0x30, 0x78, 0x00],
     [0xFE, 0xC6, 0x8C, 0x18, 0x32, 0x66, 0xFE, 0x00],
     [0x78, 0x60, 0x60, 0x60, 0x60, 0x60, 0x78, 0x00],
     [0xC0, 0x60, 0x30, 0x18, 0x0C, 0x06, 0x02, 0x00],
     [0x1E, 0x06, 0x06, 0x06, 0x06, 0x06, 0x1E, 0x00],
     [0x10, 0x38, 0x6C, 0xC6, 0x00, 0x00, 0x00, 0x00],
     [0x00, 0x00, 0x00, 0x00, 0x00, 0x00, 0x00, 0xFF],
     [0x30, 0x30, 0x18, 0x00, 0x00, 0x00, 0x00, 0x00],
     [0x00, 0x00, 0x78, 0x0C, 0x7C, 0xCC, 0x76, 0x00],
     [0xE0, 0x60, 0x7C, 0x66, 0x66, 0x66, 0x7C, 0x00],
     [0x00, 0x00, 0x3C, 0x66, 0x60, 0x66, 0x3C, 0x00],
     [0x1C, 0x0C, 0x7C, 0xCC, 0xCC, 0xCC, 0x76, 0x00],
     [0x00, 0x00, 0x7C, 0xC6, 0xFE, 0xC0, 0x7C, 0x00],
     [0x3C, 0x66, 0x60, 0xF8, 0x60, 0x60, 0xF0, 0x00],
     [0x00, 0x00, 0x76, 0xCC, 0xCC, 0x7C, 0x0C, 0xF8],
     [0xE0, 0x60, 0x6C, 0x76, 0x66, 0x66, 0xE6, 0x00],
     [0x30, 0x00, 0x30, 0x30, 0x30, 0x30, 0x78, 0x00],
     [0x0C, 0x00, 0x0C, 0x0C, 0x0C, 0xCC, 0x78, 0x00],
     [0xE0, 0x60, 0x66, 0x6C, 0x78, 0x6C, 0xE6, 0x00],
     [0x30, 0x30, 0x30, 0x30, 0x30, 0x30, 0x1C, 0x00],
     [0x00, 0x00, 0xCC, 0xFE, 0xFE, 0xD6, 0xC6, 0x00],
     [0x00, 0x00, 0xF8, 0xCC, 0xCC, 0xCC, 0xCC, 0x00],
     [0x00, 0x00, 0x38, 0x6C, 0xC6, 0x6C, 0x38, 0x00],
     [0x00, 0x00, 0xFC, 0x66, 0x66, 0x7C, 0x60, 0xF0],
     [0x00, 0x00, 0x76, 0xCC, 0xCC, 0x7C, 0x0C, 0x1E],
     [0x00, 0x00, 0xDC, 0x76, 0x60, 0x60, 0xF0, 0x00],
     [0x00, 0x00, 0x7C, 0xC0, 0x78, 0x06, 0xFC, 0x00],
     [0x30, 0x30, 0x7C, 0x30, 0x30, 0x30, 0x1C, 0x00],
     [0x00, 0x00, 0xCC, 0xCC, 0xCC, 0xCC, 0x76, 0x00],
     [0x00, 0x00, 0xCC, 0xCC, 0xCC, 0x78, 0x30, 0x00],
     [0x00, 0x00, 0xC6, 0xD6, 0xFE, 0xFE, 0x6C, 0x00],
     [0x00, 0x00, 0xC6, 0x6C, 0x38, 0x6C, 0xC6, 0x00],
     [0x00, 0x00, 0xCC, 0xCC, 0xCC, 0x7C, 0x0C, 0xF8],
     [0x00, 0x00, 0xFE, 0x8C, 0x18, 0x32, 0xFE, 0x00],
     [0x18, 0x30, 0x30, 0x60, 0x30, 0x30, 0x18, 0x00],
     [0x18, 0x18, 0x18, 0x00, 0x18, 0x18, 0x18, 0x00],
     [0x30, 0x18, 0x18, 0x0C, 0x18, 0x18, 0x30, 0x00],
     [0x00, 0x00, 0x00, 0x3E, 0x5D, 0x00, 0x00, 0x00]]"

lemma font_size: "length font8x8_basic = 95"
  by (simp add: font8x8_basic_def)

lemma font_rows: "r \<in> set font8x8_basic \<Longrightarrow> length r = 8"
  by (auto simp: font8x8_basic_def)

lemma font_row: "i < 95 \<Longrightarrow> length (font8x8_basic ! i) = 8"
  by (simp add: font_rows font_size)

end
