(* ===== verification/Graphics.thy ===== *)
theory Graphics
  imports Font PhysMem "HOL-Library.Monad_Syntax"
begin

text \<open>
  \<open>Graphics\<close> of \<open>src/hal/vga.hpp\<close>: the back buffer and the framebuffer are lists of 32-bit pixels; a
  store past their end is \<open>None\<close>, as is a character without a glyph and the overflow of an \<open>int\<close>. Loops that go through a range in
  order are \<open>fold_opt\<close> over the list of the values their counter takes.
\<close>

unbundle bit_operations_syntax

section \<open>Loops that can fail\<close>

fun fold_opt :: "('a \<Rightarrow> 's \<Rightarrow> 's option) \<Rightarrow> 'a list \<Rightarrow> 's \<Rightarrow> 's option" where
  "fold_opt f [] s = Some s"
| "fold_opt f (x # xs) s = (case f x s of None \<Rightarrow> None | Some s' \<Rightarrow> fold_opt f xs s')"

lemma fold_opt_append:
  "fold_opt f (xs @ ys) s = (case fold_opt f xs s of None \<Rightarrow> None | Some s' \<Rightarrow> fold_opt f ys s')"
  by (induction xs arbitrary: s) (auto split: option.split)

text \<open>A loop whose body never fails on states with \<open>P\<close> and keeps \<open>P\<close>.\<close>

lemma fold_opt_inv:
  assumes "P s" "\<And>x s. x \<in> set xs \<Longrightarrow> P s \<Longrightarrow> \<exists>s'. f x s = Some s' \<and> P s'"
  shows "\<exists>s'. fold_opt f xs s = Some s' \<and> P s'"
  using assms
proof (induction xs arbitrary: s)
  case (Cons x xs)
  then obtain s' where "f x s = Some s'" "P s'" by (meson list.set_intros(1))
  with Cons.IH [of s'] Cons.prems(2) show ?case by simp
qed simp

section \<open>State\<close>

record graphics =
  lfb_px :: "u32 list"
  back_px :: "u32 list"
  width_px :: u32
  height_px :: u32
  pitch :: u32
  cursor_x :: u32
  cursor_y :: u32

definition Graphics :: graphics where
  "Graphics = \<lparr>lfb_px = [], back_px = [], width_px = 0, height_px = 0, pitch = 0, cursor_x = 0, cursor_y = 0\<rparr>"

text \<open>The number of 64-bit stores \<open>clear\<close> and \<open>swap_buffers\<close> make.\<close>

definition word_count :: "graphics \<Rightarrow> nat" where
  "word_count g = unat (height_px g * pitch g) div 8"

definition store_pixel :: "nat \<Rightarrow> u32 \<Rightarrow> graphics \<Rightarrow> graphics option" where
  "store_pixel i color g = (if i < length (back_px g) then Some (g\<lparr>back_px := (back_px g)[i := color]\<rparr>) else None)"

definition clear_word :: "u32 \<Rightarrow> nat \<Rightarrow> graphics \<Rightarrow> graphics option" where
  "clear_word color i g =
    (let c64 = push_bit 32 (ucast color) OR ucast color :: u64
     in case store_pixel (2 * i) (ucast c64) g of
          None \<Rightarrow> None
        | Some g' \<Rightarrow> store_pixel (2 * i + 1) (ucast (drop_bit 32 c64)) g')"

definition clear :: "u32 \<Rightarrow> graphics \<Rightarrow> graphics option" where
  "clear color g =
    (case fold_opt (clear_word color) [0..<word_count g] g of
       None \<Rightarrow> None | Some g' \<Rightarrow> Some (g'\<lparr>cursor_x := 0, cursor_y := 0\<rparr>))"

definition swap_word :: "nat \<Rightarrow> graphics \<Rightarrow> graphics option" where
  "swap_word i g =
    (if 2 * i + 1 < length (back_px g) \<and> 2 * i + 1 < length (lfb_px g)
     then Some (g\<lparr>lfb_px := (lfb_px g)[2 * i := back_px g ! (2 * i), 2 * i + 1 := back_px g ! (2 * i + 1)]\<rparr>)
     else None)"

definition swap_buffers :: "graphics \<Rightarrow> graphics option" where
  "swap_buffers g = fold_opt swap_word [0..<word_count g] g"

text \<open>\<open>mem0\<close> is what the allocated back buffer holds, \<open>lfb\<close> the framebuffer at \<open>addr\<close>; a failed
  allocation leaves a null buffer.\<close>

definition graphics_initialize ::
    "phys_mem \<Rightarrow> (nat \<Rightarrow> u32) \<Rightarrow> u32 list \<Rightarrow> u32 \<Rightarrow> u32 \<Rightarrow> u32 \<Rightarrow> graphics \<Rightarrow> (graphics \<times> phys_mem) option" where
  "graphics_initialize pmm mem0 lfb w h p g =
    (let sz = h * p;
         (a, pmm') = allocate pmm (ucast sz);
         g = g\<lparr>lfb_px := lfb, width_px := w, height_px := h, pitch := p,
               back_px := (if a = 0 then [] else map mem0 [0..<unat sz div 4])\<rparr>
     in case clear 0x00080808 g of
          None \<Rightarrow> None
        | Some g \<Rightarrow> (case swap_buffers g of None \<Rightarrow> None | Some g \<Rightarrow> Some (g, pmm')))"

section \<open>Drawing\<close>

text \<open>\<open>y * (pitch_ / 4) + x\<close> in 32 bits.\<close>

definition pixel_index :: "graphics \<Rightarrow> u32 \<Rightarrow> u32 \<Rightarrow> nat" where
  "pixel_index g x y = unat (y * (pitch g div 4) + x)"

definition put_pixel :: "u32 \<Rightarrow> u32 \<Rightarrow> u32 \<Rightarrow> graphics \<Rightarrow> graphics option" where
  "put_pixel x y color g =
    (if width_px g \<le> x \<or> height_px g \<le> y then Some g else store_pixel (pixel_index g x y) color g)"

definition rect_row :: "u32 \<Rightarrow> u32 \<Rightarrow> u32 \<Rightarrow> nat \<Rightarrow> graphics \<Rightarrow> graphics option" where
  "rect_row x w color i g =
    fold_opt (\<lambda>j. store_pixel (pixel_index g (word_of_nat j) (word_of_nat i)) color)
      [unat x..<min (unat (x + w)) (unat (width_px g))] g"

definition draw_rect :: "u32 \<Rightarrow> u32 \<Rightarrow> u32 \<Rightarrow> u32 \<Rightarrow> u32 \<Rightarrow> graphics \<Rightarrow> graphics option" where
  "draw_rect x y w h color g =
    (if width_px g \<le> x \<or> height_px g \<le> y then Some g
     else fold_opt (rect_row x w color) [unat y..<min (unat (y + h)) (unat (height_px g))] g)"

text \<open>\<open>glyph\<close> is the row of the table for \<open>c - 32\<close>, an index on a signed \<open>char\<close>.\<close>

definition glyph_of :: "u8 \<Rightarrow> u8 list option" where
  "glyph_of c = (let i = sint c - 32 in if 0 \<le> i \<and> i < 95 then Some (font8x8_basic ! nat i) else None)"

definition draw_glyph :: "u8 list \<Rightarrow> u32 \<Rightarrow> u32 \<Rightarrow> u32 \<Rightarrow> graphics \<Rightarrow> graphics option" where
  "draw_glyph glyph x y color g =
    fold_opt (\<lambda>(gy, gx) g.
        if glyph ! gy AND drop_bit gx 0x80 \<noteq> 0
        then put_pixel (x + word_of_nat gx) (y + word_of_nat gy) color g else Some g)
      (List.product [0..<8] [0..<8]) g"

fun print_from :: "u32 \<Rightarrow> u32 \<Rightarrow> u32 \<Rightarrow> u32 \<Rightarrow> cstr \<Rightarrow> graphics \<Rightarrow> graphics option" where
  "print_from x cx y color [] g = Some g"
| "print_from x cx y color (c # s) g =
    (if c = 10 then print_from x x (y + 12) color s g
     else case glyph_of c of
       None \<Rightarrow> None
     | Some glyph \<Rightarrow>
         (case draw_glyph glyph cx y color g of
            None \<Rightarrow> None | Some g' \<Rightarrow> print_from x (cx + 8) y color s g'))"

definition print_at :: "cstr \<Rightarrow> u32 \<Rightarrow> u32 \<Rightarrow> u32 \<Rightarrow> graphics \<Rightarrow> graphics option" where
  "print_at str x y color g = print_from x x y color str g"

definition set_cursor :: "u32 \<Rightarrow> u32 \<Rightarrow> graphics \<Rightarrow> graphics" where
  "set_cursor x y g = g\<lparr>cursor_x := x, cursor_y := y\<rparr>"

definition put_char :: "u8 \<Rightarrow> u32 \<Rightarrow> graphics \<Rightarrow> graphics option" where
  "put_char c color g =
    (if c = 10 then Some (g\<lparr>cursor_x := 0, cursor_y := cursor_y g + 12\<rparr>)
     else if c = 8 then
       let g = (if 8 \<le> cursor_x g then g\<lparr>cursor_x := cursor_x g - 8\<rparr> else g)
       in draw_rect (cursor_x g) (cursor_y g) 8 8 0x00080808 g
     else case glyph_of c of
       None \<Rightarrow> None
     | Some glyph \<Rightarrow>
         (case draw_glyph glyph (cursor_x g) (cursor_y g) color g of
            None \<Rightarrow> None
          | Some g \<Rightarrow>
              let g = g\<lparr>cursor_x := cursor_x g + 8\<rparr>
              in Some (if width_px g \<le> cursor_x g then g\<lparr>cursor_x := 0, cursor_y := cursor_y g + 12\<rparr> else g)))"

text \<open>The result of an operation on 32-bit \<open>int\<close>s: overflow is undefined behaviour of C++, here \<open>None\<close>.\<close>

definition int32 :: "int \<Rightarrow> int option" where
  "int32 x = (if - (2 ^ 31) \<le> x \<and> x < 2 ^ 31 then Some x else None)"

text \<open>One round of the loop of \<open>draw_line\<close> after its pixel: new coordinates and error term.\<close>

definition line_step :: "int \<Rightarrow> int \<Rightarrow> int \<Rightarrow> int \<Rightarrow> int \<times> int \<times> int \<Rightarrow> (int \<times> int \<times> int) option" where
  "line_step dx dy sx sy = (\<lambda>(x0, y0, err). do {
     e2 \<leftarrow> int32 (2 * err);
     (err, x0) \<leftarrow> (if e2 > - dy then do { err \<leftarrow> int32 (err - dy); x0 \<leftarrow> int32 (x0 + sx); Some (err, x0) } else Some (err, x0));
     (err, y0) \<leftarrow> (if e2 < dx then do { err \<leftarrow> int32 (err + dx); y0 \<leftarrow> int32 (y0 + sy); Some (err, y0) } else Some (err, y0));
     Some (x0, y0, err) })"

partial_function (option) line_loop ::
    "int \<Rightarrow> int \<Rightarrow> int \<Rightarrow> int \<Rightarrow> int \<Rightarrow> int \<Rightarrow> u32 \<Rightarrow> int \<Rightarrow> int \<Rightarrow> int \<Rightarrow> graphics \<Rightarrow> graphics option" where
  "line_loop dx dy sx sy x1 y1 color x0 y0 err g =
    (case put_pixel (word_of_int x0) (word_of_int y0) color g of
       None \<Rightarrow> None
     | Some g' \<Rightarrow>
         if x0 = x1 \<and> y0 = y1 then Some g'
         else
           (case line_step dx dy sx sy (x0, y0, err) of
              None \<Rightarrow> None
            | Some (x0', y0', err') \<Rightarrow> line_loop dx dy sx sy x1 y1 color x0' y0' err' g'))"

definition draw_line :: "int \<Rightarrow> int \<Rightarrow> int \<Rightarrow> int \<Rightarrow> u32 \<Rightarrow> graphics \<Rightarrow> graphics option" where
  "draw_line x0 y0 x1 y1 color g = do {
     dx \<leftarrow> int32 (if x1 > x0 then x1 - x0 else x0 - x1);
     dy \<leftarrow> int32 (if y1 > y0 then y1 - y0 else y0 - y1);
     err \<leftarrow> int32 (dx - dy);
     line_loop dx dy (if x0 < x1 then 1 else - 1) (if y0 < y1 then 1 else - 1) x1 y1 color x0 y0 err g }"

section \<open>Drawing calls\<close>

text \<open>The calls other components make, so that their output is a list of calls.\<close>

datatype gfx_call =
    Clear u32
  | DrawRect u32 u32 u32 u32 u32
  | PrintAt cstr u32 u32 u32
  | DrawLine int int int int u32
  | PutChar u8 u32
  | SetCursor u32 u32
  | SwapBuffers

fun run_call :: "gfx_call \<Rightarrow> graphics \<Rightarrow> graphics option" where
  "run_call (Clear c) g = clear c g"
| "run_call (DrawRect x y w h c) g = draw_rect x y w h c g"
| "run_call (PrintAt s x y c) g = print_at s x y c g"
| "run_call (DrawLine x0 y0 x1 y1 c) g = draw_line x0 y0 x1 y1 c g"
| "run_call (PutChar ch c) g = put_char ch c g"
| "run_call (SetCursor x y) g = Some (set_cursor x y g)"
| "run_call SwapBuffers g = swap_buffers g"

definition run_calls :: "gfx_call list \<Rightarrow> graphics \<Rightarrow> graphics option" where
  "run_calls cs g = fold_opt run_call cs g"

definition draw_border :: "u32 \<Rightarrow> u32 \<Rightarrow> u32 \<Rightarrow> u32 \<Rightarrow> u32 \<Rightarrow> u32 \<Rightarrow> gfx_call list" where
  "draw_border x y w h color thickness =
    [DrawRect x y w thickness color,
     DrawRect x (y + h - thickness) w thickness color,
     DrawRect x y thickness h color,
     DrawRect (x + w - thickness) y thickness h color]"

section \<open>Numbers\<close>

text \<open>The two digit loops: the digits of \<open>tmp\<close>, least significant first, then copied backwards. The
  result is the string without its NUL.\<close>

fun digits_rev :: "nat \<Rightarrow> u64 \<Rightarrow> cstr" where
  "digits_rev 0 n = []"
| "digits_rev (Suc f) n = (if n > 0 then (ucast (n mod 10) + 48) # digits_rev f (n div 10) else [])"

text \<open>20 rounds are the most a 64-bit number needs, and \<open>tmp\<close> has 20 places.\<close>

definition int_to_str :: "u64 \<Rightarrow> cstr" where
  "int_to_str n = (if n = 0 then [48] else rev (digits_rev 20 n))"

end
