(* ===== verification/GraphicsPaint.thy ===== *)
theory GraphicsPaint
  imports Graphics
begin

text \<open>
  What the drawing operations of \<open>Graphics\<close> do to a well-formed screen: they never leave the back
  buffer, keep the shape of the state, and paint exactly a set of pixels. \<open>paints\<close> relates a state to
  the one after a call; painting composes by union, so loops paint the union over their iterations.
\<close>

unbundle bit_operations_syntax

section \<open>Well-formed screens\<close>

definition stride :: "graphics \<Rightarrow> nat" where
  "stride g = unat (pitch g) div 4"

definition gfx_ok :: "graphics \<Rightarrow> bool" where
  "gfx_ok g \<longleftrightarrow> unat (width_px g) \<le> stride g \<and> unat (height_px g) * unat (pitch g) < 2 ^ 32 \<and>
     length (back_px g) = unat (height_px g) * unat (pitch g) div 4 \<and> length (lfb_px g) = length (back_px g)"

definition same_shape :: "graphics \<Rightarrow> graphics \<Rightarrow> bool" where
  "same_shape g g' \<longleftrightarrow> width_px g' = width_px g \<and> height_px g' = height_px g \<and> pitch g' = pitch g \<and>
     length (back_px g') = length (back_px g) \<and> length (lfb_px g') = length (lfb_px g)"

definition on_screen :: "graphics \<Rightarrow> nat \<Rightarrow> nat \<Rightarrow> bool" where
  "on_screen g x y \<longleftrightarrow> x < unat (width_px g) \<and> y < unat (height_px g)"

definition pixel :: "graphics \<Rightarrow> nat \<Rightarrow> nat \<Rightarrow> u32" where
  "pixel g x y = back_px g ! (y * stride g + x)"

definition paints :: "(nat \<times> nat) set \<Rightarrow> u32 \<Rightarrow> graphics \<Rightarrow> graphics \<Rightarrow> bool" where
  "paints S color g g' \<longleftrightarrow> same_shape g g' \<and> lfb_px g' = lfb_px g \<and> cursor_x g' = cursor_x g \<and> cursor_y g' = cursor_y g \<and>
     (\<forall>x y. on_screen g x y \<longrightarrow> pixel g' x y = (if (x, y) \<in> S then color else pixel g x y))"

lemma paints_shape: "\<exists>g'. r = Some g' \<and> paints S color g g' \<Longrightarrow> \<exists>g'. r = Some g' \<and> same_shape g g'"
  by (auto simp: paints_def)

lemma same_shape_refl [simp]: "same_shape g g"
  by (simp add: same_shape_def)

lemma same_shape_trans: "same_shape g g' \<Longrightarrow> same_shape g' g'' \<Longrightarrow> same_shape g g''"
  by (simp add: same_shape_def)

lemma same_shape_ok: "same_shape g g' \<Longrightarrow> gfx_ok g \<Longrightarrow> gfx_ok g'"
  by (simp add: same_shape_def gfx_ok_def stride_def)

lemma same_shape_screen: "same_shape g g' \<Longrightarrow> on_screen g' = on_screen g"
  by (simp add: same_shape_def on_screen_def fun_eq_iff)

lemma paints_none [intro]: "paints {} color g g"
  by (simp add: paints_def)

lemma paints_union:
  "paints S color g g' \<Longrightarrow> paints T color g' g'' \<Longrightarrow> paints (S \<union> T) color g g''"
  using same_shape_screen [of g g'] by (auto simp: paints_def intro: same_shape_trans)

lemma paints_ok: "paints S color g g' \<Longrightarrow> gfx_ok g \<Longrightarrow> gfx_ok g'"
  using same_shape_ok by (auto simp: paints_def)

text \<open>Only the pixels on the screen count.\<close>

lemma paints_cong:
  "paints S color g g' \<Longrightarrow> (\<And>x y. on_screen g x y \<Longrightarrow> (x, y) \<in> S \<longleftrightarrow> (x, y) \<in> T) \<Longrightarrow> paints T color g g'"
  by (auto simp: paints_def)

lemma fold_opt_paints:
  assumes "gfx_ok g" "\<And>x g. x \<in> set xs \<Longrightarrow> gfx_ok g \<Longrightarrow> same_shape g0 g \<Longrightarrow> \<exists>g'. f x g = Some g' \<and> paints (S x) color g g'"
    "same_shape g0 g"
  shows "\<exists>g'. fold_opt f xs g = Some g' \<and> paints (\<Union>x\<in>set xs. S x) color g g'"
  using assms
proof (induction xs arbitrary: g)
  case Nil
  show ?case by auto
next
  case (Cons x xs)
  obtain g1 where g1: "f x g = Some g1" "paints (S x) color g g1"
    using Cons.prems(2) [of x g] Cons.prems(1,3) by auto
  have "same_shape g0 g1" using g1(2) Cons.prems(3) same_shape_trans by (auto simp: paints_def)
  then obtain g2 where "fold_opt f xs g1 = Some g2" "paints (\<Union>x\<in>set xs. S x) color g1 g2"
    using Cons.IH [OF paints_ok [OF g1(2) Cons.prems(1)]] Cons.prems(2) by auto
  then show ?case using g1 paints_union by auto
qed

section \<open>Pixels, rectangles, glyphs\<close>

lemma index_inj:
  assumes "x < s" "x' < s" "y * s + x = y' * s + (x' :: nat)"
  shows "x = x' \<and> y = y'"
proof -
  have "(y * s + x) div s = y" "(y' * s + x') div s = y'" using assms(1,2) by simp_all
  then have "y = y'" using assms(3) by metis
  then show ?thesis using assms(3) by simp
qed

lemma on_screen_index:
  assumes "gfx_ok g" "on_screen g x y"
  shows "y * stride g + x < length (back_px g)" "x < stride g" "y * stride g + x < 2 ^ 32"
proof -
  have x: "x < stride g" and y: "y < unat (height_px g)"
    using assms by (simp_all add: gfx_ok_def on_screen_def)
  have "y * stride g + x < Suc y * stride g" using x by simp
  also have "Suc y * stride g \<le> unat (height_px g) * stride g" using y by (intro mult_le_mono1) simp
  also have "\<dots> \<le> unat (height_px g) * unat (pitch g) div 4"
    unfolding stride_def by (metis div_mult1_eq div_le_mono le_add1 mult_le_mono2 times_div_less_eq_dividend mult.commute nonzero_mult_div_cancel_left zero_neq_numeral mult.assoc)
  finally have i: "y * stride g + x < unat (height_px g) * unat (pitch g) div 4" .
  then show "y * stride g + x < length (back_px g)" using assms(1) by (simp add: gfx_ok_def)
  show "x < stride g" by (rule x)
  have "unat (height_px g) * unat (pitch g) div 4 < 2 ^ 32"
    using assms(1) by (intro le_less_trans [OF div_le_dividend]) (simp add: gfx_ok_def)
  then show "y * stride g + x < 2 ^ 32" using i by simp
qed

lemma pixel_index_eq:
  assumes "gfx_ok g" "on_screen g (unat x) (unat y)"
  shows "pixel_index g x y = unat y * stride g + unat x"
proof -
  have lim: "unat y * stride g + unat x < 2 ^ 32" using on_screen_index(3) [OF assms] .
  have s: "unat (pitch g div 4) = stride g" by (simp add: stride_def unat_div)
  have m: "unat (y * (pitch g div 4)) = unat y * stride g"
    using lim by (subst unat_mult_lem [THEN iffD1]) (simp_all add: s)
  show ?thesis unfolding pixel_index_def using lim m by (subst unat_add_lem [THEN iffD1]) simp_all
qed

lemma store_pixel_paints:
  assumes "gfx_ok g" "on_screen g (unat x) (unat y)"
  shows "\<exists>g'. store_pixel (pixel_index g x y) color g = Some g' \<and> paints {(unat x, unat y)} color g g'"
proof -
  let ?g = "g\<lparr>back_px := (back_px g)[unat y * stride g + unat x := color]\<rparr>"
  have "pixel ?g x' y' = (if (x', y') = (unat x, unat y) then color else pixel g x' y')" if "on_screen g x' y'" for x' y'
  proof -
    have "(unat y * stride g + unat x = y' * stride g + x') \<longleftrightarrow> (x', y') = (unat x, unat y)"
      using index_inj [OF on_screen_index(2) [OF assms] on_screen_index(2) [OF assms(1) that]] by auto
    then show ?thesis using on_screen_index(1) [OF assms]
      by (simp add: pixel_def stride_def nth_list_update)
  qed
  then have "paints {(unat x, unat y)} color g ?g" by (auto simp: paints_def same_shape_def)
  then show ?thesis
    using on_screen_index(1) [OF assms] by (simp add: store_pixel_def pixel_index_eq [OF assms])
qed

lemma put_pixel_paints:
  assumes "gfx_ok g"
  shows "\<exists>g'. put_pixel x y color g = Some g' \<and> paints {(unat x, unat y)} color g g'"
proof (cases "width_px g \<le> x \<or> height_px g \<le> y")
  case True
  then have "\<not> on_screen g (unat x) (unat y)" by (auto simp: on_screen_def word_le_nat_alt)
  then have "paints {(unat x, unat y)} color g g" by (auto simp: paints_def)
  then show ?thesis using True by (simp add: put_pixel_def)
next
  case False
  then have "on_screen g (unat x) (unat y)" by (simp add: on_screen_def word_le_nat_alt not_le)
  then show ?thesis using store_pixel_paints [OF assms] False by (simp add: put_pixel_def)
qed

definition rect_set :: "u32 \<Rightarrow> u32 \<Rightarrow> u32 \<Rightarrow> u32 \<Rightarrow> (nat \<times> nat) set" where
  "rect_set x y w h = {unat x..<unat (x + w)} \<times> {unat y..<unat (y + h)}"

lemma rect_row_paints:
  assumes "gfx_ok g" "i < unat (height_px g)"
  shows "\<exists>g'. rect_row x w color i g = Some g' \<and> paints ({unat x..<unat (x + w)} \<times> {i}) color g g'"
proof -
  let ?f = "\<lambda>j. store_pixel (pixel_index g (word_of_nat j) (word_of_nat i)) color"
  let ?js = "[unat x..<min (unat (x + w)) (unat (width_px g))]"
  have u: "unat (word_of_nat j :: u32) = j" if "j < unat (w :: u32)" for j w
    using that unat_u32_lt [of w] by (simp add: unsigned_of_nat take_bit_nat_eq_self)
  have "\<exists>g2. ?f j g1 = Some g2 \<and> paints {(j, i)} color g1 g2"
    if "j \<in> set ?js" "gfx_ok g1" "same_shape g g1" for j g1
  proof -
    have "on_screen g1 (unat (word_of_nat j :: u32)) (unat (word_of_nat i :: u32))"
      using that assms(2) by (simp add: on_screen_def same_shape_def u [of j "width_px g"] u [of i "height_px g"])
    moreover have "pixel_index g1 = pixel_index g" using that(3) by (simp add: same_shape_def pixel_index_def fun_eq_iff)
    ultimately show ?thesis
      using store_pixel_paints [OF that(2)] that(1) assms(2) u [of j "width_px g"] u [of i "height_px g"] by force
  qed
  then obtain g' where "rect_row x w color i g = Some g'" "paints (\<Union>j\<in>set ?js. {(j, i)}) color g g'"
    unfolding rect_row_def using fold_opt_paints [OF assms(1), of ?js g ?f "\<lambda>j. {(j, i)}" color] by auto
  moreover from this(2) have "paints ({unat x..<unat (x + w)} \<times> {i}) color g g'"
    by (rule paints_cong) (auto simp: on_screen_def)
  ultimately show ?thesis by blast
qed

lemma draw_rect_paints:
  assumes "gfx_ok g"
  shows "\<exists>g'. draw_rect x y w h color g = Some g' \<and> paints (rect_set x y w h) color g g'"
proof (cases "width_px g \<le> x \<or> height_px g \<le> y")
  case True
  then have "paints (rect_set x y w h) color g g"
    by (auto simp: paints_def rect_set_def on_screen_def word_le_nat_alt)
  then show ?thesis using True by (simp add: draw_rect_def)
next
  case False
  let ?is = "[unat y..<min (unat (y + h)) (unat (height_px g))]"
  have "\<exists>g2. rect_row x w color i g1 = Some g2 \<and> paints ({unat x..<unat (x + w)} \<times> {i}) color g1 g2"
    if "i \<in> set ?is" "gfx_ok g1" "same_shape g g1" for i g1
    using rect_row_paints [OF that(2), of i] that(1,3) by (simp add: same_shape_def)
  then obtain g' where "fold_opt (rect_row x w color) ?is g = Some g'"
    "paints (\<Union>i\<in>set ?is. {unat x..<unat (x + w)} \<times> {i}) color g g'"
    using fold_opt_paints [OF assms, of ?is g "rect_row x w color" "\<lambda>i. {unat x..<unat (x + w)} \<times> {i}" color] by auto
  moreover from this(2) have "paints (rect_set x y w h) color g g'"
    by (rule paints_cong) (auto simp: on_screen_def rect_set_def)
  ultimately show ?thesis using False by (auto simp: draw_rect_def)
qed

definition glyph_set :: "u8 list \<Rightarrow> u32 \<Rightarrow> u32 \<Rightarrow> (nat \<times> nat) set" where
  "glyph_set glyph x y = {(unat (x + word_of_nat gx), unat (y + word_of_nat gy)) | gx gy.
     gx < 8 \<and> gy < 8 \<and> glyph ! gy AND drop_bit gx 0x80 \<noteq> 0}"

lemma draw_glyph_paints:
  assumes "gfx_ok g"
  shows "\<exists>g'. draw_glyph glyph x y color g = Some g' \<and> paints (glyph_set glyph x y) color g g'"
proof -
  let ?f = "\<lambda>(gy, gx) g. if glyph ! gy AND drop_bit gx 0x80 \<noteq> 0
      then put_pixel (x + word_of_nat gx) (y + word_of_nat gy) color g else Some g"
  let ?S = "\<lambda>(gy, gx). if glyph ! gy AND drop_bit gx 0x80 \<noteq> 0
      then {(unat (x + word_of_nat gx), unat (y + word_of_nat gy))} else {}"
  have "\<exists>g2. ?f p g1 = Some g2 \<and> paints (?S p) color g1 g2" if "gfx_ok g1" for p g1
    using put_pixel_paints [OF that] by (cases p) auto
  then obtain g' where g': "draw_glyph glyph x y color g = Some g'"
    "paints (\<Union>p\<in>set (List.product [0..<8] [0..<8]). ?S p) color g g'"
    unfolding draw_glyph_def
    using fold_opt_paints [OF assms, of "List.product [0..<8] [0..<8]" g ?f ?S color] by auto
  have "(\<Union>p\<in>set (List.product [0..<8] [0..<8]). ?S p) = glyph_set glyph x y"
    apply (auto simp: glyph_set_def split: if_splits)
    subgoal by blast
    subgoal for gx gy by (rule bexI [of _ gy], rule bexI [of _ gx]) auto
    done
  then show ?thesis using g' by auto
qed

section \<open>Text\<close>

definition printable_text :: "cstr \<Rightarrow> bool" where
  "printable_text s \<longleftrightarrow> list_all (\<lambda>c. c = 10 \<or> 32 \<le> c \<and> c \<le> 126) s"

lemma sint_small: "(c :: u8) \<le> 126 \<Longrightarrow> sint c = int (unat c)"
  by (simp add: sint_uint uint_nat word_le_nat_alt signed_take_bit_int_eq_self del: of_nat_unat)

lemma glyph_of_printable:
  assumes "32 \<le> c" "c \<le> 126"
  shows "glyph_of c = Some (font8x8_basic ! (unat c - 32))"
proof -
  have c: "32 \<le> unat c" "unat c \<le> 126" using assms by (simp_all add: word_le_nat_alt)
  have "sint c - 32 = int (unat c - 32)" using c(1) by (simp only: sint_small [OF assms(2)] of_nat_diff of_nat_numeral)
  then show ?thesis unfolding glyph_of_def using c by (simp add: Let_def del: of_nat_diff of_nat_unat)
qed

fun text_set :: "u32 \<Rightarrow> u32 \<Rightarrow> u32 \<Rightarrow> cstr \<Rightarrow> (nat \<times> nat) set" where
  "text_set x cx y [] = {}"
| "text_set x cx y (c # s) =
    (if c = 10 then text_set x x (y + 12) s
     else glyph_set (font8x8_basic ! (unat c - 32)) cx y \<union> text_set x (cx + 8) y s)"

lemma print_from_paints:
  assumes "gfx_ok g" "printable_text s"
  shows "\<exists>g'. print_from x cx y color s g = Some g' \<and> paints (text_set x cx y s) color g g'"
  using assms
proof (induction s arbitrary: g cx y)
  case Nil
  show ?case by auto
next
  case (Cons c s)
  then have s: "printable_text s" by (simp add: printable_text_def)
  show ?case
  proof (cases "c = 10")
    case True
    then show ?thesis using Cons.IH [OF Cons.prems(1) s] by simp
  next
    case False
    then have c: "32 \<le> c" "c \<le> 126" using Cons.prems(2) by (simp_all add: printable_text_def)
    obtain g1 where g1: "draw_glyph (font8x8_basic ! (unat c - 32)) cx y color g = Some g1"
      "paints (glyph_set (font8x8_basic ! (unat c - 32)) cx y) color g g1"
      using draw_glyph_paints [OF Cons.prems(1)] by blast
    obtain g2 where "print_from x (cx + 8) y color s g1 = Some g2" "paints (text_set x (cx + 8) y s) color g1 g2"
      using Cons.IH [OF paints_ok [OF g1(2) Cons.prems(1)] s] by blast
    then show ?thesis using False g1 paints_union [OF g1(2)] by (auto simp: glyph_of_printable [OF c])
  qed
qed

section \<open>Lines\<close>

definition next_to :: "int \<times> int \<Rightarrow> int \<times> int \<Rightarrow> bool" where
  "next_to p q \<longleftrightarrow> p \<noteq> q \<and> \<bar>fst q - fst p\<bar> \<le> 1 \<and> \<bar>snd q - snd p\<bar> \<le> 1"

definition cast_point :: "int \<times> int \<Rightarrow> nat \<times> nat" where
  "cast_point p = (unat (word_of_int (fst p) :: u32), unat (word_of_int (snd p) :: u32))"

text \<open>The error term after \<open>a\<close> steps in x and \<open>b\<close> in y, and what the two tests then mean.\<close>

lemma line_steps:
  fixes dx dy a b err :: int
  assumes "0 \<le> a" "a \<le> dx" "0 \<le> b" "b \<le> dy" "err = (b + 1) * dx - (a + 1) * dy" "a \<noteq> dx \<or> b \<noteq> dy"
  shows "2 * err > - dy \<Longrightarrow> a < dx" "2 * err < dx \<Longrightarrow> b < dy" "2 * err > - dy \<or> 2 * err < dx"
proof -
  show "a < dx" if t: "2 * err > - dy"
  proof (rule ccontr)
    assume "\<not> a < dx"
    then have "a = dx" "b < dy" using assms by auto
    moreover have "dx * (b + 1 - dy) \<le> 0" using assms \<open>b < dy\<close> by (intro mult_nonneg_nonpos) auto
    ultimately show False using t assms(3,4,5) by (simp add: algebra_simps)
  qed
  show "b < dy" if t: "2 * err < dx"
  proof (rule ccontr)
    assume "\<not> b < dy"
    then have "b = dy" "a < dx" using assms by auto
    moreover have "0 \<le> dy * (dx - a - 1)" using assms \<open>a < dx\<close> by (intro mult_nonneg_nonneg) auto
    ultimately show False using t assms(1,2,5) by (simp add: algebra_simps)
  qed
  show "2 * err > - dy \<or> 2 * err < dx" using assms by auto
qed

definition straight :: "int \<Rightarrow> int \<Rightarrow> int \<Rightarrow> int \<Rightarrow> (int \<times> int) list \<Rightarrow> bool" where
  "straight x0 y0 x1 y1 ps \<longleftrightarrow> ps \<noteq> [] \<and> hd ps = (x0, y0) \<and> last ps = (x1, y1) \<and> successively next_to ps \<and>
     (\<forall>(x, y) \<in> set ps. min x0 x1 \<le> x \<and> x \<le> max x0 x1 \<and> min y0 y1 \<le> y \<and> y \<le> max y0 y1)"

lemma straight_Cons:
  assumes "straight x' y' x1 y1 ps" "next_to (x, y) (x', y')"
    and "min x x1 \<le> x'" "x' \<le> max x x1" "min y y1 \<le> y'" "y' \<le> max y y1"
  shows "straight x y x1 y1 ((x, y) # ps)"
  using assms unfolding straight_def by (cases ps) auto

text \<open>Lines whose extent keeps every intermediate result inside 32 bits.\<close>

definition line_ok :: "int \<Rightarrow> int \<Rightarrow> int \<Rightarrow> int \<Rightarrow> bool" where
  "line_ok x0 y0 x1 y1 \<longleftrightarrow> \<bar>x1 - x0\<bar> < 2 ^ 29 \<and> \<bar>y1 - y0\<bar> < 2 ^ 29 \<and>
     (\<forall>c \<in> {x0, y0, x1, y1}. - (2 ^ 31) \<le> c \<and> c < 2 ^ 31)"

text \<open>The error term stays between twice the extents, so a round never overflows.\<close>

lemma line_step_Some:
  fixes dx dy err x y sx sy :: int
  assumes "0 \<le> dx" "dx < 2 ^ 29" "0 \<le> dy" "dy < 2 ^ 29" "- 2 * dy \<le> err" "err \<le> 2 * dx"
    and "2 * err > - dy \<Longrightarrow> int32 (x + sx) = Some (x + sx)" "2 * err < dx \<Longrightarrow> int32 (y + sy) = Some (y + sy)"
  defines "err' \<equiv> (if 2 * err < dx then (if 2 * err > - dy then err - dy else err) + dx else (if 2 * err > - dy then err - dy else err))"
  shows "line_step dx dy sx sy (x, y, err) =
      Some (if 2 * err > - dy then x + sx else x, if 2 * err < dx then y + sy else y, err')"
    and "- 2 * dy \<le> err'" "err' \<le> 2 * dx"
proof -
  have fit: "int32 (2 * err) = Some (2 * err)" "int32 (err - dy) = Some (err - dy)" "int32 (err + dx) = Some (err + dx)"
    "2 * err > - dy \<Longrightarrow> int32 (err - dy + dx) = Some (err - dy + dx)"
    using assms(1-6) by (simp_all add: int32_def)
  show "line_step dx dy sx sy (x, y, err) =
      Some (if 2 * err > - dy then x + sx else x, if 2 * err < dx then y + sy else y, err')"
    using assms(7,8) by (auto simp: line_step_def err'_def fit)
  show "- 2 * dy \<le> err'" "err' \<le> 2 * dx" using assms(1-6) by (auto simp: err'_def)
qed

lemma line_loop_paints:
  assumes "gfx_ok g" "0 \<le> a" "a \<le> dx" "0 \<le> b" "b \<le> dy" "err = (b + 1) * dx - (a + 1) * dy"
    and "sx = 1 \<or> sx = - 1" "sy = 1 \<or> sy = - 1" "x1 = x + sx * (dx - a)" "y1 = y + sy * (dy - b)"
    and "line_ok x y x1 y1" "dx < 2 ^ 29" "dy < 2 ^ 29" "- 2 * dy \<le> err" "err \<le> 2 * dx"
  shows "\<exists>g' ps. line_loop dx dy sx sy x1 y1 color x y err g = Some g' \<and>
    paints (cast_point ` set ps) color g g' \<and> straight x y x1 y1 ps"
  using assms
proof (induction "nat (dx - a + (dy - b))" arbitrary: a b err x y g rule: less_induct)
  case less
  obtain g1 where g1: "put_pixel (word_of_int x) (word_of_int y) color g = Some g1"
    "paints {cast_point (x, y)} color g g1"
    using put_pixel_paints [OF less.prems(1)] by (fastforce simp: cast_point_def)
  have ends: "x = x1 \<longleftrightarrow> a = dx" "y = y1 \<longleftrightarrow> b = dy" using less.prems by auto
  show ?case
  proof (cases "a = dx \<and> b = dy")
    case True
    then show ?thesis
      using g1 ends by (subst line_loop.simps) (auto simp: straight_def intro!: exI [of _ "[(x, y)]"])
  next
    case False
    define xs ys where "xs \<longleftrightarrow> 2 * err > - dy" and "ys \<longleftrightarrow> 2 * err < dx"
    note st = line_steps [OF less.prems(2-6)] False
    have xa: "xs \<Longrightarrow> a < dx" and yb: "ys \<Longrightarrow> b < dy" and xy: "xs \<or> ys" using st by (auto simp: xs_def ys_def)
    define a' b' where "a' = (if xs then a + 1 else a)" and "b' = (if ys then b + 1 else b)"
    define x' y' where "x' = (if xs then x + sx else x)" and "y' = (if ys then y + sy else y)"
    define err' where "err' = (if ys then (if xs then err - dy else err) + dx else (if xs then err - dy else err))"
    have box: "min x x1 \<le> x'" "x' \<le> max x x1" "min y y1 \<le> y'" "y' \<le> max y y1"
      using less.prems(7-10) xa yb by (auto simp: x'_def y'_def)
    have "int32 x' = Some x'" "int32 y' = Some y'" and ok': "line_ok x' y' x1 y1"
      using less.prems(11) box by (auto simp: line_ok_def int32_def)
    then have "xs \<Longrightarrow> int32 (x + sx) = Some (x + sx)" "ys \<Longrightarrow> int32 (y + sy) = Some (y + sy)"
      by (simp_all add: x'_def y'_def)
    note round = line_step_Some [OF _ less.prems(12) _ less.prems(13-15) this [unfolded xs_def ys_def], folded xs_def ys_def,
        folded x'_def y'_def err'_def]
    have "0 \<le> dx" "0 \<le> dy" using less.prems(2-5) by simp_all
    note round = round [OF this]
    have "line_loop dx dy sx sy x1 y1 color x y err g = line_loop dx dy sx sy x1 y1 color x' y' err' g1"
      using g1(1) False ends round(1) by (subst line_loop.simps) auto
    moreover have "\<exists>g' ps. line_loop dx dy sx sy x1 y1 color x' y' err' g1 = Some g' \<and>
        paints (cast_point ` set ps) color g1 g' \<and> straight x' y' x1 y1 ps"
    proof (rule less.hyps [of a' b'])
      show "nat (dx - a' + (dy - b')) < nat (dx - a + (dy - b))"
        using xa yb xy less.prems(3,5) by (auto simp: a'_def b'_def)
      show "err' = (b' + 1) * dx - (a' + 1) * dy"
        using less.prems(6) by (simp add: err'_def a'_def b'_def algebra_simps)
      show "x1 = x' + sx * (dx - a')" "y1 = y' + sy * (dy - b')"
        using less.prems(9,10) by (simp_all add: x'_def y'_def a'_def b'_def algebra_simps)
    qed (use less.prems xa yb paints_ok [OF g1(2)] ok' round(2,3) in \<open>auto simp: a'_def b'_def\<close>)
    then obtain g' ps where g': "line_loop dx dy sx sy x1 y1 color x' y' err' g1 = Some g'"
      "paints (cast_point ` set ps) color g1 g'" "straight x' y' x1 y1 ps" by blast
    have "straight x y x1 y1 ((x, y) # ps)"
      by (rule straight_Cons [OF g'(3) _ box])
        (use less.prems(7,8) xy in \<open>auto simp: next_to_def x'_def y'_def\<close>)
    ultimately show ?thesis
      using g' paints_union [OF g1(2) g'(2)] by (intro exI [of _ g'] exI [of _ "(x, y) # ps"]) simp
  qed
qed

lemma draw_line_paints:
  assumes "gfx_ok g" "line_ok x0 y0 x1 y1"
  shows "\<exists>g' ps. draw_line x0 y0 x1 y1 color g = Some g' \<and> paints (cast_point ` set ps) color g g' \<and>
    straight x0 y0 x1 y1 ps"
proof -
  define dx dy where "dx = \<bar>x1 - x0\<bar>" and "dy = \<bar>y1 - y0\<bar>"
  have d: "0 \<le> dx" "dx < 2 ^ 29" "0 \<le> dy" "dy < 2 ^ 29" using assms(2) by (simp_all add: line_ok_def dx_def dy_def)
  have "(if x1 > x0 then x1 - x0 else x0 - x1) = dx" "(if y1 > y0 then y1 - y0 else y0 - y1) = dy"
    by (simp_all add: dx_def dy_def)
  moreover have "int32 dx = Some dx" "int32 dy = Some dy" "int32 (dx - dy) = Some (dx - dy)"
    using d by (simp_all add: int32_def)
  ultimately have "draw_line x0 y0 x1 y1 color g =
      line_loop dx dy (if x0 < x1 then 1 else - 1) (if y0 < y1 then 1 else - 1) x1 y1 color x0 y0 (dx - dy) g"
    by (simp add: draw_line_def)
  then show ?thesis
    using line_loop_paints [OF assms(1), of 0 dx 0 dy "dx - dy" "if x0 < x1 then 1 else - 1" "if y0 < y1 then 1 else - 1" x1 x0 y1 y0]
      assms(2) d by (auto simp: dx_def dy_def)
qed

section \<open>Clearing and showing\<close>

lemma word_count_le: "gfx_ok g \<Longrightarrow> 2 * word_count g \<le> length (back_px g)"
proof -
  assume g: "gfx_ok g"
  then have "unat (height_px g * pitch g) = unat (height_px g) * unat (pitch g)"
    by (subst unat_mult_lem [THEN iffD1]) (simp_all add: gfx_ok_def)
  moreover have "2 * (n div 8) \<le> n div 4" for n :: nat by linarith
  ultimately show ?thesis using g by (simp add: word_count_def gfx_ok_def)
qed

lemma clear_word_eq:
  assumes "2 * i + 1 < length (back_px g)"
  shows "clear_word color i g = Some (g\<lparr>back_px := (back_px g)[2 * i := color, 2 * i + 1 := color]\<rparr>)"
proof -
  have "ucast (push_bit 32 (ucast color) OR ucast color :: u64) = color"
    "ucast (drop_bit 32 (push_bit 32 (ucast color) OR ucast color :: u64)) = color"
    by (rule bit_word_eqI, auto simp: bit_simps dest: bit_imp_le_length)+
  then show ?thesis using assms by (simp add: clear_word_def store_pixel_def Let_def)
qed

lemma update_pair:
  "2 * n + 1 < length xs \<Longrightarrow> (take (2 * n) ys @ drop (2 * n) xs)[2 * n := a, 2 * n + 1 := b] =
     take (2 * n) ys @ a # b # drop (2 * n + 2) xs" if "2 * n \<le> length ys" for xs ys :: "'a list"
proof -
  assume n: "2 * n + 1 < length xs"
  have "drop (2 * n) xs = xs ! (2 * n) # xs ! (2 * n + 1) # drop (2 * n + 2) xs"
    using n by (metis Cons_nth_drop_Suc Suc_1 Suc_eq_plus1 Suc_lessD add_2_eq_Suc')
  then show ?thesis using that by (simp add: list_update_append)
qed

lemma fold_clear:
  "2 * n \<le> length (back_px g) \<Longrightarrow>
    fold_opt (clear_word color) [0..<n] g = Some (g\<lparr>back_px := replicate (2 * n) color @ drop (2 * n) (back_px g)\<rparr>)"
proof (induction n)
  case 0
  show ?case by (cases g) simp
next
  case (Suc n)
  have r: "replicate (2 * n) color = take (2 * n) (replicate (2 * n) color)" by simp
  have "(replicate (2 * n) color @ drop (2 * n) (back_px g))[2 * n := color, 2 * n + 1 := color] =
      replicate (2 * Suc n) color @ drop (2 * Suc n) (back_px g)"
    by (subst r, subst update_pair) (use Suc.prems in \<open>simp_all add: replicate_append_same [symmetric]\<close>)
  then show ?case using Suc by (simp add: fold_opt_append clear_word_eq)
qed

lemma clear_eq:
  assumes "gfx_ok g"
  shows "clear color g = Some (g\<lparr>back_px := replicate (2 * word_count g) color @ drop (2 * word_count g) (back_px g),
    cursor_x := 0, cursor_y := 0\<rparr>)"
  unfolding clear_def using fold_clear [OF word_count_le [OF assms]] by simp

lemma fold_swap:
  "2 * n \<le> length (back_px g) \<Longrightarrow> length (lfb_px g) = length (back_px g) \<Longrightarrow>
    fold_opt swap_word [0..<n] g = Some (g\<lparr>lfb_px := take (2 * n) (back_px g) @ drop (2 * n) (lfb_px g)\<rparr>)"
proof (induction n)
  case 0
  show ?case by (cases g) simp
next
  case (Suc n)
  let ?b = "back_px g"
  have "take (2 * Suc n) ?b = take (2 * n) ?b @ [?b ! (2 * n), ?b ! (2 * n + 1)]"
    using Suc.prems by (simp add: take_Suc_conv_app_nth)
  then have "(take (2 * n) ?b @ drop (2 * n) (lfb_px g))[2 * n := ?b ! (2 * n), 2 * n + 1 := ?b ! (2 * n + 1)] =
      take (2 * Suc n) ?b @ drop (2 * Suc n) (lfb_px g)"
    by (subst update_pair) (use Suc.prems in simp_all)
  then show ?case using Suc by (simp add: fold_opt_append swap_word_def)
qed

lemma swap_eq:
  "gfx_ok g \<Longrightarrow> swap_buffers g =
    Some (g\<lparr>lfb_px := take (2 * word_count g) (back_px g) @ drop (2 * word_count g) (lfb_px g)\<rparr>)"
  unfolding swap_buffers_def using word_count_le [of g] by (intro fold_swap) (auto simp: gfx_ok_def)

section \<open>Every call succeeds\<close>

fun call_ok :: "gfx_call \<Rightarrow> bool" where
  "call_ok (PrintAt s x y c) = printable_text s"
| "call_ok (PutChar ch c) = (ch = 8 \<or> printable_text [ch])"
| "call_ok (DrawLine x0 y0 x1 y1 c) = line_ok x0 y0 x1 y1"
| "call_ok _ = True"

lemma clear_shape: "gfx_ok g \<Longrightarrow> \<exists>g'. clear color g = Some g' \<and> same_shape g g'"
  using word_count_le [of g] by (simp add: clear_eq same_shape_def)

lemma swap_shape: "gfx_ok g \<Longrightarrow> \<exists>g'. swap_buffers g = Some g' \<and> same_shape g g'"
  using word_count_le [of g] by (simp add: swap_eq same_shape_def) (simp add: gfx_ok_def)

lemma line_shape: "gfx_ok g \<Longrightarrow> line_ok x0 y0 x1 y1 \<Longrightarrow> \<exists>g'. draw_line x0 y0 x1 y1 color g = Some g' \<and> same_shape g g'"
  using draw_line_paints [of g x0 y0 x1 y1 color] paints_shape by blast

lemma rect_shape: "gfx_ok g \<Longrightarrow> \<exists>g'. draw_rect x y w h color g = Some g' \<and> same_shape g g'"
  by (rule paints_shape [OF draw_rect_paints])

lemma print_shape: "gfx_ok g \<Longrightarrow> printable_text s \<Longrightarrow> \<exists>g'. print_at s x y color g = Some g' \<and> same_shape g g'"
  unfolding print_at_def by (rule paints_shape [OF print_from_paints])

lemma put_char_ok:
  assumes "gfx_ok g" "ch = 8 \<or> printable_text [ch]"
  shows "\<exists>g'. put_char ch color g = Some g' \<and> same_shape g g'"
proof (cases "ch = 10 \<or> ch = 8")
  case True
  define g1 where "g1 = (if 8 \<le> cursor_x g then g\<lparr>cursor_x := cursor_x g - 8\<rparr> else g)"
  have s: "same_shape g g1" by (simp add: same_shape_def g1_def)
  obtain g' where g': "draw_rect (cursor_x g1) (cursor_y g1) 8 8 0x00080808 g1 = Some g'" "same_shape g1 g'"
    using rect_shape [OF same_shape_ok [OF s assms(1)]] by blast
  have "put_char 8 color g = draw_rect (cursor_x g1) (cursor_y g1) 8 8 0x00080808 g1"
    by (simp add: put_char_def g1_def Let_def)
  moreover have "\<exists>g'. put_char 10 color g = Some g' \<and> same_shape g g'"
    by (simp add: put_char_def same_shape_def)
  ultimately show ?thesis using True g' same_shape_trans [OF s g'(2)] by auto
next
  case False
  then have c: "32 \<le> ch" "ch \<le> 126" using assms(2) by (simp_all add: printable_text_def)
  obtain g' where "draw_glyph (font8x8_basic ! (unat ch - 32)) (cursor_x g) (cursor_y g) color g = Some g'" "same_shape g g'"
    using paints_shape [OF draw_glyph_paints [OF assms(1)]] by blast
  then show ?thesis
    using False by (simp add: put_char_def glyph_of_printable [OF c] Let_def same_shape_def)
qed

lemma cursor_shape: "\<exists>g'. Some (set_cursor x y g) = Some g' \<and> same_shape g g'"
  by (simp add: set_cursor_def same_shape_def)

lemma run_call_ok: "gfx_ok g \<Longrightarrow> call_ok c \<Longrightarrow> \<exists>g'. run_call c g = Some g' \<and> same_shape g g'"
  by (cases c) (simp_all only: run_call.simps call_ok.simps clear_shape rect_shape print_shape line_shape put_char_ok
      cursor_shape swap_shape)

text \<open>What a client of a machine with failing steps relies on: steps it may take from a good state lead to
  a good state, and so does every sequence of them.\<close>

locale total_steps =
  fixes step :: "'c \<Rightarrow> 's \<Rightarrow> 's option"
    and good :: "'s \<Rightarrow> bool"
    and allowed :: "'c \<Rightarrow> bool"
  assumes step_total: "good s \<Longrightarrow> allowed c \<Longrightarrow> \<exists>s'. step c s = Some s' \<and> good s'"
begin

lemma steps_total: "good s \<Longrightarrow> list_all allowed cs \<Longrightarrow> \<exists>s'. fold_opt step cs s = Some s' \<and> good s'"
  by (rule fold_opt_inv) (auto simp: list_all_iff intro: step_total)

lemma steps_append:
  assumes "good s" "list_all allowed cs" "list_all allowed ds"
  obtains s1 s2 where "fold_opt step cs s = Some s1" "fold_opt step ds s1 = Some s2" "fold_opt step (cs @ ds) s = Some s2"
    "good s1" "good s2"
proof -
  obtain s1 where s1: "fold_opt step cs s = Some s1" "good s1" using steps_total [OF assms(1,2)] by blast
  obtain s2 where s2: "fold_opt step ds s1 = Some s2" "good s2" using steps_total [OF s1(2) assms(3)] by blast
  show thesis by (rule that [OF s1(1) s2(1) _ s1(2) s2(2)]) (simp add: fold_opt_append s1 s2)
qed

end

text \<open>The drawing calls on the screens with one shape.\<close>

interpretation screen: total_steps run_call "\<lambda>g. gfx_ok g \<and> same_shape g0 g" call_ok for g0
  by unfold_locales (metis run_call_ok same_shape_ok same_shape_trans)

end
