(* ===== verification/GraphicsText.thy ===== *)
theory GraphicsText
  imports GraphicsPaint
begin

text \<open>
  What a screen shows: the properties of the drawing operations of \<open>src/hal/vga.hpp\<close>, text read back
  from the pixels, and the decimal numbers of \<open>int_to_str\<close>.
\<close>

unbundle bit_operations_syntax

section \<open>Reading text back from the screen\<close>

text \<open>The row of eight pixels from \<open>(x, y)\<close> as a byte of the font, and the character whose glyph a cell
  holds.\<close>

definition row_byte :: "graphics \<Rightarrow> u32 \<Rightarrow> nat \<Rightarrow> nat \<Rightarrow> u8" where
  "row_byte g color x y = fold (\<lambda>gx b. 2 * b + (if pixel g (x + gx) y = color then 1 else 0)) [0..<8] 0"

definition read_char_at :: "graphics \<Rightarrow> u32 \<Rightarrow> nat \<Rightarrow> nat \<Rightarrow> u8" where
  "read_char_at g color x y =
    (case find (\<lambda>k. font8x8_basic ! k = map (\<lambda>gy. row_byte g color x (y + gy)) [0..<8]) [0..<95] of
       None \<Rightarrow> 0 | Some k \<Rightarrow> word_of_nat (k + 32))"

definition read_text_at :: "graphics \<Rightarrow> u32 \<Rightarrow> nat \<Rightarrow> nat \<Rightarrow> nat \<Rightarrow> cstr" where
  "read_text_at g color x y n = map (\<lambda>i. read_char_at g color (x + 8 * i) y) [0..<n]"

lemma byte_of_bits: "fold (\<lambda>gx b. 2 * b + (if w AND drop_bit gx 0x80 \<noteq> 0 then 1 else 0)) [0..<8] 0 = (w :: u8)"
proof -
  have "list_all (\<lambda>n. fold (\<lambda>gx b. 2 * b + (if (word_of_nat n :: u8) AND drop_bit gx 0x80 \<noteq> 0 then 1 else 0))
      [0..<8] 0 = (word_of_nat n :: u8)) [0..<256]"
    by code_simp
  then have "fold (\<lambda>gx b. 2 * b + (if (word_of_nat n :: u8) AND drop_bit gx 0x80 \<noteq> 0 then 1 else 0)) [0..<8] 0 =
      (word_of_nat n :: u8)" if "n < 256" for n using that by (simp add: list_all_iff)
  from this [OF unat_u8_lt [of w]] show ?thesis by simp
qed

lemma font_distinct: "distinct font8x8_basic"
  by code_simp

lemma unat_plus_small:
  assumes "unat (z :: u32) + 8 \<le> 2 ^ 32" "k < 8"
  shows "unat (z + word_of_nat k) = unat z + k"
proof -
  have "unat (word_of_nat k :: u32) = k" using assms(2) by (simp add: unsigned_of_nat take_bit_nat_eq_self)
  then show ?thesis using assms by (subst unat_add_lem [THEN iffD1]) simp_all
qed

lemma glyph_set_iff:
  assumes "unat x + 8 \<le> 2 ^ 32" "unat y + 8 \<le> 2 ^ 32" "gx < 8" "gy < 8"
  shows "(unat x + gx, unat y + gy) \<in> glyph_set glyph x y \<longleftrightarrow> glyph ! gy AND drop_bit gx 0x80 \<noteq> 0"
proof
  assume "glyph ! gy AND drop_bit gx 0x80 \<noteq> 0"
  then show "(unat x + gx, unat y + gy) \<in> glyph_set glyph x y"
    unfolding glyph_set_def using assms
    by (intro CollectI exI [of _ gx] exI [of _ gy]) (simp add: unat_plus_small)
qed (use assms in \<open>auto simp: glyph_set_def unat_plus_small\<close>)

lemma glyph_set_box:
  assumes "unat x + 8 \<le> 2 ^ 32" "unat y + 8 \<le> 2 ^ 32" "(px, py) \<in> glyph_set glyph x y"
  shows "unat x \<le> px \<and> px < unat x + 8 \<and> unat y \<le> py \<and> py < unat y + 8"
  using assms by (auto simp: glyph_set_def unat_plus_small)

definition one_line :: "cstr \<Rightarrow> bool" where
  "one_line s \<longleftrightarrow> list_all (\<lambda>c. 32 \<le> c \<and> c \<le> 126) s"

lemma one_line_printable: "one_line s \<Longrightarrow> printable_text s"
  by (auto simp: one_line_def printable_text_def list_all_iff)

lemma unat_plus_8: "unat x + 8 < 2 ^ 32 \<Longrightarrow> unat (x + 8 :: u32) = unat x + 8"
  by (subst unat_add_lem [THEN iffD1]) simp_all

lemma text_set_box:
  assumes "one_line s" "unat cx + 8 * length s < 2 ^ 32" "unat y + 8 \<le> 2 ^ 32" "(px, py) \<in> text_set x cx y s"
  shows "unat cx \<le> px \<and> px < unat cx + 8 * length s \<and> unat y \<le> py \<and> py < unat y + 8"
  using assms
proof (induction s arbitrary: cx)
  case Nil
  then show ?case by simp
next
  case (Cons c s)
  have c: "c \<noteq> 10" "one_line s" using Cons.prems(1) by (auto simp: one_line_def)
  have cx: "unat (cx + 8) = unat cx + 8" using Cons.prems(2) by (intro unat_plus_8) simp
  consider "(px, py) \<in> glyph_set (font8x8_basic ! (unat c - 32)) cx y" | "(px, py) \<in> text_set x (cx + 8) y s"
    using Cons.prems(4) c by auto
  then show ?case
  proof cases
    case 1
    then show ?thesis using glyph_set_box [OF _ Cons.prems(3) 1] Cons.prems(2) by simp
  next
    case 2
    then show ?thesis using Cons.IH [OF c(2) _ Cons.prems(3) 2] Cons.prems(2) cx by auto
  qed
qed

lemma text_set_iff:
  assumes "one_line s" "unat cx + 8 * length s < 2 ^ 32" "unat y + 8 \<le> 2 ^ 32" "i < length s" "gx < 8" "gy < 8"
  shows "(unat cx + 8 * i + gx, unat y + gy) \<in> text_set x cx y s \<longleftrightarrow>
    (font8x8_basic ! (unat (s ! i) - 32)) ! gy AND drop_bit gx 0x80 \<noteq> 0"
  using assms
proof (induction s arbitrary: cx i)
  case Nil
  then show ?case by simp
next
  case (Cons c s)
  have c: "c \<noteq> 10" "one_line s" using Cons.prems(1) by (auto simp: one_line_def)
  have cx: "unat (cx + 8) = unat cx + 8" using Cons.prems(2) by (intro unat_plus_8) simp
  have lim: "unat (cx + 8) + 8 * length s < 2 ^ 32" using Cons.prems(2) cx by simp
  show ?case
  proof (cases i)
    case 0
    have "(unat cx + gx, unat y + gy) \<notin> text_set x (cx + 8) y s"
      using text_set_box [OF c(2) lim Cons.prems(3), of "unat cx + gx" "unat y + gy" x] cx Cons.prems(5) by auto
    then show ?thesis
      using glyph_set_iff [of cx y gx gy] Cons.prems(2,3,5,6) c 0 by simp
  next
    case (Suc j)
    have "(unat cx + 8 * i + gx, unat y + gy) \<notin> glyph_set (font8x8_basic ! (unat c - 32)) cx y"
      using glyph_set_box [of cx y "unat cx + 8 * i + gx" "unat y + gy"] Cons.prems(2,3) Suc by auto
    moreover have eq: "unat cx + 8 * i + gx = unat (cx + 8) + 8 * j + gx" using Suc cx by simp
    ultimately have "(unat cx + 8 * i + gx, unat y + gy) \<in> text_set x cx y (c # s) \<longleftrightarrow>
        (unat (cx + 8) + 8 * j + gx, unat y + gy) \<in> text_set x (cx + 8) y s"
      using c(1) by (simp only: text_set.simps if_False Un_iff eq simp_thms)
    then show ?thesis
      using Cons.IH [OF c(2) lim Cons.prems(3) _ Cons.prems(5,6), of j] Cons.prems(4) Suc by simp
  qed
qed

text \<open>No pixel of the box has the color before the text is printed.\<close>

definition box_free :: "graphics \<Rightarrow> u32 \<Rightarrow> nat \<Rightarrow> nat \<Rightarrow> nat \<Rightarrow> bool" where
  "box_free g color x y n \<longleftrightarrow> (\<forall>px py. x \<le> px \<longrightarrow> px < x + 8 * n \<longrightarrow> y \<le> py \<longrightarrow> py < y + 8 \<longrightarrow> pixel g px py \<noteq> color)"

lemma read_char_printed:
  assumes p: "paints (text_set x x y s) color g g'" and "one_line s" "unat x + 8 * length s \<le> unat (width_px g)"
    "unat y + 8 \<le> unat (height_px g)" "box_free g color (unat x) (unat y) (length s)" "i < length s"
  shows "read_char_at g' color (unat x + 8 * i) (unat y) = s ! i"
proof -
  let ?k = "unat (s ! i) - 32"
  have c: "32 \<le> s ! i" "s ! i \<le> 126" using assms(2,6) by (auto simp: one_line_def list_all_length)
  then have k: "32 \<le> unat (s ! i)" "?k < 95" by (simp_all add: word_le_nat_alt)
  have lim: "unat x + 8 * length s < 2 ^ 32" "unat y + 8 \<le> 2 ^ 32"
    using assms(3,4) unat_u32_lt [of "width_px g"] unat_u32_lt [of "height_px g"] by simp_all
  have row: "row_byte g' color (unat x + 8 * i) (unat y + gy) = font8x8_basic ! ?k ! gy" if gy: "gy < 8" for gy
  proof -
    have "pixel g' (unat x + 8 * i + gx) (unat y + gy) = color \<longleftrightarrow> font8x8_basic ! ?k ! gy AND drop_bit gx 0x80 \<noteq> 0"
      if gx: "gx < 8" for gx
    proof -
      have i8: "unat x + 8 * i + gx < unat x + 8 * length s" using gx assms(6) by simp
      then have "on_screen g (unat x + 8 * i + gx) (unat y + gy)" using assms(3,4) gy by (simp add: on_screen_def)
      moreover have "pixel g (unat x + 8 * i + gx) (unat y + gy) \<noteq> color"
        using assms(5) i8 gy by (auto simp: box_free_def)
      ultimately show ?thesis
        using p text_set_iff [OF assms(2) lim assms(6) gx gy, of x] by (simp add: paints_def)
    qed
    then have "row_byte g' color (unat x + 8 * i) (unat y + gy) =
        fold (\<lambda>gx b. 2 * b + (if font8x8_basic ! ?k ! gy AND drop_bit gx 0x80 \<noteq> 0 then 1 else 0)) [0..<8] 0"
      unfolding row_byte_def by (intro fold_cong) auto
    then show ?thesis by (simp only: byte_of_bits)
  qed
  have "map (\<lambda>gy. row_byte g' color (unat x + 8 * i) (unat y + gy)) [0..<8] = font8x8_basic ! ?k"
    by (rule nth_equalityI) (use row font_row [OF k(2)] in simp_all)
  moreover have "find (\<lambda>m. font8x8_basic ! m = font8x8_basic ! ?k) [0..<95] = Some ?k"
    unfolding find_Some_iff
    by (rule exI [of _ ?k]) (use k(2) font_size nth_eq_iff_index_eq [OF font_distinct] in simp)
  ultimately have "read_char_at g' color (unat x + 8 * i) (unat y) = word_of_nat (?k + 32)"
    by (simp only: read_char_at_def option.case)
  then show ?thesis using k(1) by simp
qed

section \<open>Decimal numbers\<close>

definition dec_number :: "cstr \<Rightarrow> nat" where
  "dec_number s = fold (\<lambda>c n. 10 * n + (unat c - 48)) s 0"

lemma digit_char: "unat (ucast (n mod 10 :: u64) + 48 :: u8) = unat n mod 10 + 48"
proof -
  have u: "unat (ucast (n mod 10) :: u8) = unat n mod 10"
    by (simp add: unsigned_ucast_eq unat_mod take_bit_nat_eq_self)
  show ?thesis by (subst unat_add_lem [THEN iffD1]) (simp_all add: u)
qed

lemma digits_rev_empty: "unat n < 10 ^ f \<Longrightarrow> digits_rev f n = [] \<longleftrightarrow> n = 0"
  by (cases f) (auto simp: word_gt_0 unat_eq_0)

lemma last_digit_rev:
  assumes "0 < n" "unat n < 10 ^ Suc f" "0 < n div 10 \<Longrightarrow> last (digits_rev f (n div 10)) \<noteq> 48"
  shows "last (digits_rev (Suc f) n) \<noteq> 48"
proof (cases "n div 10 = 0")
  case True
  then have "unat (n div 10) = 0" by simp
  then have "unat n div 10 = 0" by (simp add: unat_div)
  then have "unat n mod 10 = unat n" by (simp add: div_eq_0_iff)
  moreover have "unat n \<noteq> 0" using assms(1) by (simp add: unat_eq_0)
  ultimately have "unat (ucast (n mod 10) + 48 :: u8) \<noteq> 48" by (simp add: digit_char)
  then have "(ucast (n mod 10) + 48 :: u8) \<noteq> 48" by auto
  moreover have "digits_rev f (n div 10) = []" using True by (cases f) auto
  ultimately show ?thesis using assms(1) by simp
next
  case False
  have "unat (n div 10) < 10 ^ f" using assms(2) by (simp add: unat_div less_mult_imp_div_less mult.commute)
  then show ?thesis using False assms(1,3) by (simp add: digits_rev_empty word_gt_0)
qed

lemma digits_rev_value:
  "unat n < 10 ^ f \<Longrightarrow> dec_number (rev (digits_rev f n)) = unat n \<and>
    list_all (\<lambda>c. 48 \<le> c \<and> c \<le> 57) (digits_rev f n) \<and> (n > 0 \<longrightarrow> last (digits_rev f n) \<noteq> 48)"
proof (induction f arbitrary: n)
  case 0
  then have "n = 0" by (simp add: unat_eq_0)
  then show ?case by (simp add: dec_number_def)
next
  case (Suc f)
  show ?case
  proof (cases "n > 0")
    case False
    then have "n = 0" by (simp add: word_gt_0)
    then show ?thesis by (simp add: dec_number_def)
  next
    case True
    let ?c = "ucast (n mod 10) + 48 :: u8"
    have d: "unat (n div 10) = unat n div 10" by (simp add: unat_div)
    then have "unat (n div 10) < 10 ^ f" using Suc.prems by (simp add: less_mult_imp_div_less mult.commute)
    note ih = Suc.IH [OF this, unfolded d]
    have "last (digits_rev (Suc f) n) \<noteq> 48" using ih by (intro last_digit_rev True Suc.prems) blast
    moreover have "48 \<le> ?c" "?c \<le> 57" by (simp_all add: word_le_nat_alt digit_char)
    ultimately show ?thesis using True ih by (simp add: dec_number_def digit_char)
  qed
qed

lemma length_digits_rev: "unat n < 10 ^ k \<Longrightarrow> length (digits_rev f n) \<le> k"
proof (induction f arbitrary: n k)
  case (Suc f)
  show ?case
  proof (cases "n > 0")
    case True
    then have "unat n \<noteq> 0" by (simp add: unat_eq_0)
    then obtain j where k: "k = Suc j" using Suc.prems by (cases k) auto
    have "unat (n div 10) < 10 ^ j" using Suc.prems k by (simp add: unat_div less_mult_imp_div_less mult.commute)
    then show ?thesis using Suc.IH [of "n div 10" j] k by simp
  qed simp
qed simp

lemma int_to_str_length: "unat n < 10 ^ k \<Longrightarrow> 0 < k \<Longrightarrow> length (int_to_str n) \<le> k"
  using length_digits_rev [of n k 20] by (simp add: int_to_str_def)

lemma int_to_str_value:
  "dec_number (int_to_str n) = unat n \<and> list_all (\<lambda>c. 48 \<le> c \<and> c \<le> 57) (int_to_str n) \<and>
   (n \<noteq> 0 \<longrightarrow> hd (int_to_str n) \<noteq> 48) \<and> 0 < length (int_to_str n)"
proof (cases "n = 0")
  case True
  then show ?thesis by (simp add: int_to_str_def dec_number_def)
next
  case False
  then have n: "n > 0" by (simp add: word_greater_zero_iff)
  have v: "dec_number (rev (digits_rev 20 n)) = unat n" "list_all (\<lambda>c. 48 \<le> c \<and> c \<le> 57) (digits_rev 20 n)"
    "last (digits_rev 20 n) \<noteq> 48"
    using digits_rev_value [of n 20] unat_u64_lt [of n] n by simp_all
  have "digits_rev 20 n \<noteq> []" using n by (simp add: numeral_eq_Suc)
  then show ?thesis using v False by (simp add: int_to_str_def hd_rev list_all_iff)
qed

section \<open>Properties\<close>

lemma graphics_initialize_ok:
  assumes "unat w \<le> unat p div 4" "unat h * unat p < 2 ^ 32" "length lfb = unat h * unat p div 4"
    and "fst (allocate pmm (ucast (h * p))) \<noteq> 0"
  shows "\<exists>g pmm'. graphics_initialize pmm mem0 lfb w h p Graphics = Some (g, pmm') \<and> gfx_ok g \<and>
    width_px g = w \<and> height_px g = h \<and> pitch g = p"
proof -
  obtain a pmm' where a: "allocate pmm (ucast (h * p)) = (a, pmm')" "a \<noteq> 0" using assms(4) by (metis prod.collapse)
  have hp: "unat (h * p) = unat h * unat p" using assms(2) by (subst unat_mult_lem [THEN iffD1]) simp_all
  define g where "g = Graphics\<lparr>lfb_px := lfb, width_px := w, height_px := h, pitch := p,
      back_px := map mem0 [0..<unat (h * p) div 4]\<rparr>"
  have g: "gfx_ok g" using assms(1-3) by (simp add: g_def gfx_ok_def stride_def hp)
  obtain g1 where g1: "clear 0x00080808 g = Some g1" "same_shape g g1" using clear_shape [OF g] by blast
  obtain g2 where g2: "swap_buffers g1 = Some g2" "same_shape g1 g2"
    using swap_shape [OF same_shape_ok [OF g1(2) g]] by blast
  have s: "same_shape g g2" by (rule same_shape_trans [OF g1(2) g2(2)])
  have "graphics_initialize pmm mem0 lfb w h p Graphics = Some (g2, pmm')"
    unfolding graphics_initialize_def Let_def a prod.case
    using a(2) g1(1) g2(1) by (simp add: g_def)
  then show ?thesis using same_shape_ok [OF s g] s by (auto simp: same_shape_def g_def)
qed

text \<open>C10: type soundness of the drawing interface. When the framebuffer has the size its dimensions say, the
  rows hold the width and the arena has room for the back buffer, initialisation succeeds, and then
  every sequence of drawing calls with printable text and lines of an extent below \<open>2 ^ 29\<close> succeeds: no store
  leaves a buffer, every character has a glyph, every line is finished without an overflow of its \<open>int\<close>s, and the
  screen stays well formed with the same dimensions.\<close>
theorem drawing_type_sound:
  assumes "unat w \<le> unat p div 4" "unat h * unat p < 2 ^ 32" "length lfb = unat h * unat p div 4"
    and "fst (allocate pmm (ucast (h * p))) \<noteq> 0" "list_all call_ok cs"
  shows "\<exists>g pmm' g'. graphics_initialize pmm mem0 lfb w h p Graphics = Some (g, pmm') \<and>
    run_calls cs g = Some g' \<and> gfx_ok g' \<and> width_px g' = w \<and> height_px g' = h \<and> pitch g' = p"
proof -
  obtain g pmm' where g: "graphics_initialize pmm mem0 lfb w h p Graphics = Some (g, pmm')" "gfx_ok g"
    "width_px g = w" "height_px g = h" "pitch g = p"
    using graphics_initialize_ok [OF assms(1-4)] by blast
  obtain g' where "run_calls cs g = Some g'" "gfx_ok g'" "same_shape g g'"
    unfolding run_calls_def using screen.steps_total [of g g cs] g(2) assms(5) by auto
  then show ?thesis using g by (auto simp: same_shape_def)
qed

lemma drawing_type_sound_witness:
  "\<exists>g pmm' g'. graphics_initialize (PhysicalMemory 0x2000000 0x40000000) (\<lambda>_. 7) (replicate 128 0) 16 8 64 Graphics =
      Some (g, pmm') \<and>
    run_calls [Clear 0, PrintAt [72, 105, 10, 33] 2 1 0xFFFFFF, DrawLine (- 3) 2 20 9 5, PutChar 8 0, SwapBuffers] g = Some g'"
proof -
  have "fst (allocate (PhysicalMemory 0x2000000 0x40000000) (ucast ((8 :: u32) * 64))) \<noteq> 0"
    by (simp add: PhysicalMemory_def allocate_def Let_def)
  moreover have "list_all call_ok [Clear 0, PrintAt [72, 105, 10, 33] 2 1 0xFFFFFF, DrawLine (- 3) 2 20 9 5, PutChar 8 0, SwapBuffers]"
    by (simp add: printable_text_def line_ok_def)
  ultimately show ?thesis
    using drawing_type_sound [of 16 64 8 "replicate 128 0"] by fastforce
qed


definition tiny_screen :: graphics where
  "tiny_screen = \<lparr>lfb_px = replicate 256 0, back_px = replicate 256 0, width_px = 32, height_px = 8, pitch = 128,
     cursor_x = 0, cursor_y = 0\<rparr>"

lemma tiny_screen_ok: "gfx_ok tiny_screen"
  by (simp add: gfx_ok_def tiny_screen_def stride_def)


text \<open>C28: a line of an extent below \<open>2 ^ 29\<close> always ends: in 32-bit \<open>int\<close>s Bresenham's loop has no overflow, never
  passes its end point, takes a step in one or both directions in every round, and paints a connected path of pixels
  from the first point to the last inside their bounding box, clipped to the screen. An extent of \<open>2 ^ 31\<close> or more
  is undefined behaviour at the first subtraction.\<close>
theorem draw_line_terminates:
  assumes "gfx_ok g" "line_ok x0 y0 x1 y1"
  shows "(\<exists>g' ps. draw_line x0 y0 x1 y1 color g = Some g' \<and> hd ps = (x0, y0) \<and> last ps = (x1, y1) \<and>
    successively next_to ps \<and>
    (\<forall>(x, y) \<in> set ps. min x0 x1 \<le> x \<and> x \<le> max x0 x1 \<and> min y0 y1 \<le> y \<and> y \<le> max y0 y1) \<and>
    (\<forall>px py. on_screen g px py \<longrightarrow> pixel g' px py =
      (if (px, py) \<in> cast_point ` set ps then color else pixel g px py))) \<and>
    (\<forall>a0 b0 a1 b1. 2 ^ 31 \<le> \<bar>a1 - a0\<bar> \<longrightarrow> draw_line a0 b0 a1 b1 color g = None)"
proof
  show "\<exists>g' ps. draw_line x0 y0 x1 y1 color g = Some g' \<and> hd ps = (x0, y0) \<and> last ps = (x1, y1) \<and>
    successively next_to ps \<and>
    (\<forall>(x, y) \<in> set ps. min x0 x1 \<le> x \<and> x \<le> max x0 x1 \<and> min y0 y1 \<le> y \<and> y \<le> max y0 y1) \<and>
    (\<forall>px py. on_screen g px py \<longrightarrow> pixel g' px py =
      (if (px, py) \<in> cast_point ` set ps then color else pixel g px py))"
    using draw_line_paints [OF assms, of color] unfolding straight_def paints_def by blast
  show "\<forall>a0 b0 a1 b1. 2 ^ 31 \<le> \<bar>a1 - a0\<bar> \<longrightarrow> draw_line a0 b0 a1 b1 color g = None"
    by (auto simp: draw_line_def int32_def)
qed

lemma draw_line_terminates_witness:
  "\<exists>g' ps. draw_line (- 2) 1 40 6 3 tiny_screen = Some g' \<and> hd ps = (- 2, 1 :: int) \<and> last ps = (40 :: int, 6)"
  using draw_line_terminates [OF tiny_screen_ok, of "- 2" 1 40 6 3] by (auto simp: line_ok_def)

text \<open>C27: text can be read back: when a line of printable characters fits on the screen over an area that
  does not hold its color, the glyphs found in the cells afterwards are those of the characters, in
  order; the font has a different glyph for every character.\<close>
theorem printed_text_reads_back:
  assumes "gfx_ok g" "one_line s" "unat x + 8 * length s \<le> unat (width_px g)" "unat y + 8 \<le> unat (height_px g)"
    and "box_free g color (unat x) (unat y) (length s)"
  shows "\<exists>g'. print_at s x y color g = Some g' \<and> read_text_at g' color (unat x) (unat y) (length s) = s"
proof -
  obtain g' where g': "print_at s x y color g = Some g'" "paints (text_set x x y s) color g g'"
    unfolding print_at_def using print_from_paints [OF assms(1) one_line_printable [OF assms(2)]] by blast
  have "read_text_at g' color (unat x) (unat y) (length s) = s"
    unfolding read_text_at_def
    by (rule nth_equalityI) (simp_all add: read_char_printed [OF g'(2) assms(2-5)])
  then show ?thesis using g'(1) by blast
qed

lemma printed_text_reads_back_witness:
  "\<exists>g'. print_at [72, 105, 33] 8 0 0xFFFFFF tiny_screen = Some g' \<and> read_text_at g' 0xFFFFFF 8 0 3 = [72, 105, 33]"
proof -
  have "one_line [72, 105, 33]" by (simp add: one_line_def)
  moreover have "box_free tiny_screen 0xFFFFFF 8 0 3"
    by (auto simp: box_free_def pixel_def tiny_screen_def stride_def)
  ultimately show ?thesis
    using printed_text_reads_back [OF tiny_screen_ok, of "[72, 105, 33]" 8 0 "0xFFFFFF"]
    by (simp add: tiny_screen_def numeral_3_eq_3)
qed

text \<open>A number is printed as the decimal digits that stand for it, without leading zeros; the \<open>tmp\<close>
  buffer of 20 places always suffices, and a 32-bit number with its NUL fits the 16-byte buffers of the
  control panel.\<close>
theorem int_to_str_decimal:
  "dec_number (int_to_str n) = unat n \<and> list_all (\<lambda>c. 48 \<le> c \<and> c \<le> 57) (int_to_str n) \<and>
   (n \<noteq> 0 \<longrightarrow> hd (int_to_str n) \<noteq> 48) \<and> length (int_to_str n) \<le> 20 \<and>
   length (int_to_str (ucast (m :: u32))) + 1 \<le> 11"
proof -
  have "length (int_to_str n) \<le> 20" using unat_u64_lt [of n] by (intro int_to_str_length) simp_all
  moreover have "unat (ucast m :: u64) = unat m"
    using unat_u32_lt [of m] by (simp add: unsigned_ucast_eq take_bit_nat_eq_self)
  then have "length (int_to_str (ucast m)) \<le> 10" using unat_u32_lt [of m] by (intro int_to_str_length) simp_all
  ultimately show ?thesis using int_to_str_value [of n] by simp
qed

end
