(* ===== verification/Serial.thy ===== *)
theory Serial
  imports Prelude
begin

text \<open>
  The serial line: \<open>SerialPort\<close> and \<open>UnifiedConsole\<close> of \<open>src/hal/serial.hpp\<close> and the fault-time output
  \<open>raw_putc\<close>, \<open>raw_print\<close>, \<open>raw_print_hex\<close> of \<open>src/hal/idt.hpp\<close>. The UART is the value each read of its
  line status register gives, the number of reads so far and the bytes sent. A wait that never ends is
  the value \<open>None\<close>.
\<close>

unbundle bit_operations_syntax

record uart =
  line_status :: "nat \<Rightarrow> u8"
  status_reads :: nat
  sent :: "u8 list"

definition tx_ready :: "u8 \<Rightarrow> bool" where
  "tx_ready st \<longleftrightarrow> st AND 0x20 \<noteq> 0"

text \<open>A loop that reads a register until it is as wanted: the number of the read that ended it, counting
  from \<open>k\<close>.\<close>

partial_function (option) poll_until :: "(nat \<Rightarrow> bool) \<Rightarrow> nat \<Rightarrow> nat option" where
  "poll_until stop k = (if stop k then Some k else poll_until stop (k + 1))"

definition uart_wait :: "(nat \<Rightarrow> u8) \<Rightarrow> nat \<Rightarrow> nat option" where
  "uart_wait st k = map_option Suc (poll_until (\<lambda>i. tx_ready (st i)) k)"

text \<open>\<open>base\<close> is \<open>g_mmio_uart_base\<close>.\<close>

definition g_mmio_uart_base :: u64 where "g_mmio_uart_base = 0x09000000"

definition write_char :: "u64 \<Rightarrow> u8 \<Rightarrow> uart \<Rightarrow> uart option" where
  "write_char base c u =
    (if base = 0 then Some u
     else case uart_wait (line_status u) (status_reads u) of
       None \<Rightarrow> None
     | Some k \<Rightarrow> Some (u\<lparr>status_reads := k, sent := sent u @ [c]\<rparr>))"

fun serial_print :: "u64 \<Rightarrow> cstr \<Rightarrow> uart \<Rightarrow> uart option" where
  "serial_print base [] u = Some u"
| "serial_print base (c # s) u =
    (case write_char base c u of None \<Rightarrow> None | Some u' \<Rightarrow> serial_print base s u')"

definition hex_table :: cstr where "hex_table = lit ''0123456789ABCDEF''"

text \<open>The digits the loops \<open>for (int i = 15; i >= 0; i--)\<close> give, in order.\<close>

fun hex_from :: "nat \<Rightarrow> u64 \<Rightarrow> cstr" where
  "hex_from 0 val = []"
| "hex_from (Suc i) val = hex_table ! unat (drop_bit (i * 4) val AND 0xF) # hex_from i val"

definition serial_print_hex :: "u64 \<Rightarrow> u64 \<Rightarrow> uart \<Rightarrow> uart option" where
  "serial_print_hex base val u = serial_print base (hex_from 16 val) u"

text \<open>\<open>UnifiedConsole::read_line\<close> only empties the buffer.\<close>

definition console_read_line :: "u8 list \<Rightarrow> u8 list option" where
  "console_read_line buffer = (if buffer = [] then None else Some (buffer[0 := 0]))"

section \<open>Output while handling a fault\<close>

text \<open>At most 10000 status reads, then the byte is written in any case.\<close>

fun raw_wait :: "nat \<Rightarrow> (nat \<Rightarrow> u8) \<Rightarrow> nat \<Rightarrow> nat" where
  "raw_wait 0 st k = k"
| "raw_wait (Suc n) st k = (if tx_ready (st k) then k + 1 else raw_wait n st (k + 1))"

definition raw_putc :: "u8 \<Rightarrow> uart \<Rightarrow> uart" where
  "raw_putc c u = u\<lparr>status_reads := raw_wait 10000 (line_status u) (status_reads u), sent := sent u @ [c]\<rparr>"

definition raw_print :: "cstr \<Rightarrow> uart \<Rightarrow> uart" where
  "raw_print s u = fold raw_putc s u"

definition raw_print_hex :: "u64 \<Rightarrow> uart \<Rightarrow> uart" where
  "raw_print_hex val u = fold raw_putc (hex_from 16 val) u"

section \<open>Lemmas\<close>

lemma poll_until_found:
  "\<lbrakk>\<forall>i<n. k \<le> i \<longrightarrow> \<not> stop i; stop n; k \<le> n\<rbrakk> \<Longrightarrow> poll_until stop k = Some n"
proof (induction "n - k" arbitrary: k)
  case 0
  then show ?case by (subst poll_until.simps) simp
next
  case (Suc m)
  then show ?case by (subst poll_until.simps) simp
qed

lemma poll_until_Some: "poll_until stop k = Some n \<Longrightarrow> k \<le> n \<and> stop n"
proof (rule poll_until.raw_induct [where P = "\<lambda>stop k n. k \<le> n \<and> stop n"])
  fix f and stop :: "nat \<Rightarrow> bool" and k n :: nat
  assume IH: "\<And>(stop :: nat \<Rightarrow> bool) k n. f stop k = Some n \<Longrightarrow> k \<le> n \<and> stop n"
    and eq: "(if stop k then Some k else f stop (k + 1)) = Some n"
  show "k \<le> n \<and> stop n"
  proof (cases "stop k")
    case False
    then have "k + 1 \<le> n \<and> stop n" using IH [of stop "k + 1" n] eq by (simp only: if_False)
    then show ?thesis by simp
  qed (use eq in simp)
qed

lemma poll_until_iff: "(\<exists>n. poll_until stop k = Some n) \<longleftrightarrow> (\<exists>n\<ge>k. stop n)"
proof
  assume "\<exists>n\<ge>k. stop n"
  then obtain n where n: "k \<le> n \<and> stop n" and least: "\<And>i. i < n \<Longrightarrow> \<not> (k \<le> i \<and> stop i)"
    using exists_least_iff [of "\<lambda>n. k \<le> n \<and> stop n"] by blast
  then have "poll_until stop k = Some n" by (intro poll_until_found) auto
  then show "\<exists>n. poll_until stop k = Some n" ..
qed (use poll_until_Some in blast)

lemma uart_wait_iff: "(\<exists>m. uart_wait st k = Some m) \<longleftrightarrow> (\<exists>n\<ge>k. tx_ready (st n))"
  unfolding uart_wait_def using poll_until_iff [of "\<lambda>i. tx_ready (st i)" k] by auto

lemma serial_print_sends:
  assumes "base \<noteq> 0" "\<And>k. \<exists>n\<ge>k. tx_ready (line_status u n)"
  shows "\<exists>k. serial_print base s u = Some (u\<lparr>status_reads := k, sent := sent u @ s\<rparr>)"
  using assms(2)
proof (induction s arbitrary: u)
  case Nil
  show ?case by (cases u) simp
next
  case (Cons c s)
  obtain k where "uart_wait (line_status u) (status_reads u) = Some k"
    using Cons.prems uart_wait_iff by blast
  then have w: "write_char base c u = Some (u\<lparr>status_reads := k, sent := sent u @ [c]\<rparr>)"
    using assms(1) by (simp add: write_char_def)
  show ?case
    using Cons.IH [of "u\<lparr>status_reads := k, sent := sent u @ [c]\<rparr>"] Cons.prems by (simp add: w)
qed

lemma raw_wait_bound: "k \<le> raw_wait n st k \<and> raw_wait n st k \<le> k + n"
  by (induction n arbitrary: k) (auto, metis Suc_leD, metis add_Suc)

lemma fold_raw_putc:
  "sent (fold raw_putc s u) = sent u @ s \<and>
   status_reads u \<le> status_reads (fold raw_putc s u) \<and>
   status_reads (fold raw_putc s u) \<le> status_reads u + 10000 * length s \<and>
   line_status (fold raw_putc s u) = line_status u"
proof (induction s arbitrary: u)
  case Nil
  show ?case by simp
next
  case (Cons c s)
  have "status_reads u \<le> status_reads (raw_putc c u) \<and> status_reads (raw_putc c u) \<le> status_reads u + 10000"
    unfolding raw_putc_def using raw_wait_bound [of "status_reads u" 10000 "line_status u"] by simp
  moreover have "sent (raw_putc c u) = sent u @ [c]" "line_status (raw_putc c u) = line_status u"
    by (simp_all add: raw_putc_def)
  ultimately show ?case using Cons.IH [of "raw_putc c u"] by auto
qed

text \<open>The number a string of hexadecimal digits stands for.\<close>

definition hex_value :: "u8 \<Rightarrow> nat" where
  "hex_value c = (if c < 65 then unat c - 48 else unat c - 55)"

definition hex_number :: "cstr \<Rightarrow> nat" where
  "hex_number s = fold (\<lambda>c n. 16 * n + hex_value c) s 0"

lemma hex_value_digit: "d < 16 \<Longrightarrow> hex_value (hex_table ! d) = d"
proof -
  assume "d < 16"
  moreover have "list_all (\<lambda>d. hex_value (hex_table ! d) = d) [0..<16]" by code_simp
  ultimately show ?thesis by (simp add: list_all_iff)
qed

lemma fold_hex: "fold (\<lambda>c n. 16 * n + hex_value c) (hex_from i val) n = n * 16 ^ i + unat val mod 16 ^ i"
proof (induction i arbitrary: n)
  case 0
  show ?case by simp
next
  case (Suc i)
  have nib: "unat (drop_bit (i * 4) val AND 0xF) = unat val div 16 ^ i mod 16"
  proof -
    have "(0xF :: u64) = mask 4" by (simp add: mask_eq_decr_exp)
    moreover have "(2::nat) ^ (i * 4) = 16 ^ i" using power_mult [of "2::nat" 4 i] by (simp add: mult.commute)
    ultimately show ?thesis
      by (simp only: take_bit_eq_mask [symmetric] unsigned_take_bit_eq take_bit_nat_def unat_drop_bit_eq)
        (simp add: drop_bit_eq_div)
  qed
  have "hex_value (hex_table ! unat (drop_bit (i * 4) val AND 0xF)) = unat val div 16 ^ i mod 16"
    unfolding nib by (rule hex_value_digit) simp
  moreover have "unat val mod 16 ^ Suc i = 16 ^ i * (unat val div 16 ^ i mod 16) + unat val mod 16 ^ i"
    by (metis mod_mult2_eq mult.commute power_Suc)
  ultimately show ?case using Suc.IH by (simp add: algebra_simps)
qed

lemma length_hex_from [simp]: "length (hex_from i val) = i"
  by (induction i) auto

lemma hex_number_hex_from: "hex_number (hex_from 16 val) = unat val"
  using unat_u64_lt [of val] by (simp add: hex_number_def fold_hex)

section \<open>Properties\<close>

text \<open>Output on the console ends and is complete whenever the transmitter becomes ready again and
  again, and the first character waits for ever when it never does; a number is printed as the 16
  hexadecimal digits that stand for it.\<close>
theorem serial_print_liveness:
  assumes "base \<noteq> 0"
  shows "((\<forall>k. \<exists>n\<ge>k. tx_ready (line_status u n)) \<longrightarrow>
      (\<exists>u'. serial_print base s u = Some u' \<and> sent u' = sent u @ s) \<and>
      (\<exists>u' ds. serial_print_hex base val u = Some u' \<and> sent u' = sent u @ ds \<and> length ds = 16 \<and>
         hex_number ds = unat val)) \<and>
    ((\<forall>k. \<not> tx_ready (line_status u k)) \<longrightarrow> s \<noteq> [] \<longrightarrow> serial_print base s u = None)"
proof (intro conjI impI)
  assume r: "\<forall>k. \<exists>n\<ge>k. tx_ready (line_status u n)"
  note p = serial_print_sends [OF assms r [rule_format]]
  show "\<exists>u'. serial_print base s u = Some u' \<and> sent u' = sent u @ s" using p [of s] by force
  show "\<exists>u' ds. serial_print_hex base val u = Some u' \<and> sent u' = sent u @ ds \<and> length ds = 16 \<and>
         hex_number ds = unat val"
    using p [of "hex_from 16 val"] hex_number_hex_from [of val] length_hex_from [of 16 val]
    unfolding serial_print_hex_def by (metis uart.select_convs(3) uart.surjective uart.update_convs(3))
next
  assume "\<forall>k. \<not> tx_ready (line_status u k)" "s \<noteq> []"
  moreover from this have "uart_wait (line_status u) (status_reads u) = None"
    using uart_wait_iff [of "line_status u" "status_reads u"] by auto
  ultimately show "serial_print base s u = None"
    using assms by (cases s) (simp_all add: write_char_def)
qed

lemma serial_print_liveness_witness:
  "\<exists>u'. serial_print g_mmio_uart_base [72, 105] \<lparr>line_status = (\<lambda>k. if k mod 3 = 2 then 0x60 else 0), status_reads = 0, sent = []\<rparr> =
      Some u' \<and> sent u' = [72, 105]"
proof -
  have "\<exists>n\<ge>k. tx_ready (if n mod 3 = 2 then 0x60 else 0)" for k :: nat
  proof (intro exI conjI)
    show "k \<le> 3 * k + 2" by simp
    have "(3 * k + 2) mod 3 = 2" by presburger
    then show "tx_ready (if (3 * k + 2) mod 3 = 2 then 0x60 else 0)" by (simp add: tx_ready_def)
  qed
  then show ?thesis
    using serial_print_liveness [of g_mmio_uart_base
        "\<lparr>line_status = (\<lambda>k. if k mod 3 = 2 then 0x60 else 0), status_reads = 0, sent = []\<rparr>" "[72, 105]" 0]
    by (simp add: g_mmio_uart_base_def)
qed

end
