(* ===== verification/ResourceAllocator.thy ===== *)
theory ResourceAllocator
  imports Manifold Serial
begin

text \<open>
  \<open>DynamicResourceAllocator\<close> of \<open>src/mm/dynamic_allocator.hpp\<close>: the modes of two cores and a node
  counter, and an abstract specification of the modes that any sequence of operations leaves behind.
\<close>

datatype alu_mode =
    UNUSED
  | AVAILABLE
  | FORCE
  | INVISIBLE

record cpu_core =
  core_id :: u8
  topological_mode :: alu_mode
  ram_allocated_mb :: u64
  is_isolated :: bool
  current_task :: cstr

record resources =
  cores :: "cpu_core list"
  total_ram_mb :: u64
  active_nodes :: u32

definition DynamicResourceAllocator :: "u64 \<Rightarrow> resources" where
  "DynamicResourceAllocator total_ram =
    \<lparr>cores = [\<lparr>core_id = 0, topological_mode = AVAILABLE, ram_allocated_mb = 0, is_isolated = False,
               current_task = lit ''System''\<rparr>,
              \<lparr>core_id = 1, topological_mode = AVAILABLE, ram_allocated_mb = 0, is_isolated = False,
               current_task = lit ''System''\<rparr>],
     total_ram_mb = total_ram, active_nodes = 1\<rparr>"

text \<open>The second component is what is printed on the console.\<close>

definition isolate_core :: "u8 \<Rightarrow> cstr \<Rightarrow> alu_mode \<Rightarrow> u64 \<Rightarrow> resources \<Rightarrow> resources \<times> cstr" where
  "isolate_core cid task mode ram_allocation r =
    (if 1 < cid then (r, [])
     else (r\<lparr>cores := (cores r)[unat cid := (cores r ! unat cid)\<lparr>is_isolated := True,
             topological_mode := mode, ram_allocated_mb := ram_allocation, current_task := task\<rparr>]\<rparr>,
           lit ''[EM-1] RESOURCE: Core '' @ hex_from 16 (ucast cid) @ lit '' Isolated -> '' @ task @ lit ''\<newline>''))"

definition optimize_holograph :: "manifold option \<Rightarrow> manifold option" where
  "optimize_holograph m = (case m of None \<Rightarrow> None | Some m \<Rightarrow> Some (pump_dma_queue m))"

definition set_core_mode :: "u32 \<Rightarrow> nat \<Rightarrow> resources \<Rightarrow> resources" where
  "set_core_mode num_cores i r =
    r\<lparr>cores := (cores r)[i := (cores r ! i)\<lparr>topological_mode :=
      (if (word_of_nat i :: u32) < num_cores then AVAILABLE else UNUSED)\<rparr>]\<rparr>"

definition set_active_cores :: "u32 \<Rightarrow> resources \<Rightarrow> resources" where
  "set_active_cores num_cores r =
    (let n = (if 2 < num_cores then 2 else num_cores) in fold (set_core_mode n) [0, 1] r)"

definition get_active_cores :: "resources \<Rightarrow> u32" where
  "get_active_cores r =
    fold (\<lambda>i count. if topological_mode (cores r ! i) \<noteq> UNUSED then count + 1 else count) [0, 1] 0"

definition fold_manifold :: "u32 \<Rightarrow> resources \<Rightarrow> resources" where
  "fold_manifold layout_type r = r\<lparr>active_nodes := active_nodes r + 1\<rparr>"

definition get_active_nodes :: "resources \<Rightarrow> u32" where
  "get_active_nodes r = active_nodes r"

section \<open>Sequences of operations and their specification\<close>

datatype res_op =
    Isolate u8 cstr alu_mode u64
  | Set_active u32
  | Fold_nodes u32

fun run_op :: "res_op \<Rightarrow> resources \<Rightarrow> resources" where
  "run_op (Isolate c t m ram) r = fst (isolate_core c t m ram r)"
| "run_op (Set_active n) r = set_active_cores n r"
| "run_op (Fold_nodes l) r = fold_manifold l r"

text \<open>The mode of core \<open>i\<close>: what the last operation that concerned it said.\<close>

fun spec_mode :: "nat \<Rightarrow> res_op \<Rightarrow> alu_mode \<Rightarrow> alu_mode" where
  "spec_mode i (Isolate c t m ram) mode = (if unat c = i then m else mode)"
| "spec_mode i (Set_active n) mode = (if i < unat n then AVAILABLE else UNUSED)"
| "spec_mode i (Fold_nodes l) mode = mode"

fun is_fold :: "res_op \<Rightarrow> bool" where
  "is_fold (Fold_nodes l) = True"
| "is_fold _ = False"

definition well_formed :: "resources \<Rightarrow> bool" where
  "well_formed r \<longleftrightarrow> map core_id (cores r) = [0, 1]"

lemma well_formed_cores: "well_formed r \<Longrightarrow> \<exists>a b. cores r = [a, b] \<and> core_id a = 0 \<and> core_id b = 1"
  unfolding well_formed_def by (cases "cores r" rule: remdups_adj.cases) auto

lemma small_id: "\<not> 1 < (c :: u8) \<Longrightarrow> c = 0 \<or> c = 1"
proof -
  assume "\<not> 1 < c"
  then have "unat c \<le> 1" by (simp add: word_less_nat_alt)
  then have "unat c = 0 \<or> unat c = 1" by linarith
  then show ?thesis by (metis unat_0 unat_1 word_unat_eq_iff)
qed

lemma run_op_step:
  assumes "well_formed r"
  shows "well_formed (run_op op r) \<and>
    (\<forall>i<2. topological_mode (cores (run_op op r) ! i) = spec_mode i op (topological_mode (cores r ! i))) \<and>
    active_nodes (run_op op r) = active_nodes r + (if is_fold op then 1 else 0)"
proof -
  obtain a b where ab: "cores r = [a, b]" "core_id a = 0" "core_id b = 1" using well_formed_cores [OF assms] by blast
  have two: "(\<forall>i<2. P i) \<longleftrightarrow> P 0 \<and> P (1 :: nat)" for P by (auto simp: less_2_cases_iff)
  show ?thesis
  proof (cases op)
    case (Isolate c t m ram)
    show ?thesis
    proof (cases "1 < c")
      case True
      then have "unat c > 1" by (simp add: word_less_nat_alt)
      then show ?thesis using Isolate assms True by (simp add: isolate_core_def two)
    next
      case False
      then show ?thesis using small_id [OF False] Isolate ab by (auto simp: isolate_core_def well_formed_def two)
    qed
  next
    case (Set_active n)
    have "(0 < n) = (0 < unat n)" "(1 < n) = (1 < unat n)" "(2 < n) = (2 < unat n)"
      by (simp_all add: word_less_nat_alt)
    then show ?thesis using Set_active ab
      by (auto simp: set_active_cores_def set_core_mode_def well_formed_def two Let_def)
  next
    case (Fold_nodes l)
    then show ?thesis using assms by (simp add: fold_manifold_def well_formed_def two)
  qed
qed

section \<open>Properties\<close>

text \<open>After any sequence of operations on a fresh allocator each core has the mode the last operation
  concerning it gave it, core numbers above 1 being ignored; the reported core count is the number of
  cores whose mode is not \<open>UNUSED\<close>, at most 2, and the node counter is one more than the folds, modulo
  \<open>2 ^ 32\<close>.\<close>
theorem allocator_refines_modes:
  "let r = fold run_op ops (DynamicResourceAllocator ram); mode = (\<lambda>i. fold (spec_mode i) ops AVAILABLE)
   in (\<forall>i \<in> {0, 1}. topological_mode (cores r ! i) = mode i) \<and>
      get_active_cores r = word_of_nat (card {i \<in> {0, 1}. mode i \<noteq> UNUSED}) \<and>
      get_active_nodes r = 1 + word_of_nat (length (filter is_fold ops))"
proof -
  let ?r = "\<lambda>ops. fold run_op ops (DynamicResourceAllocator ram)"
  have inv: "well_formed (?r ops) \<and>
      (\<forall>i<2. topological_mode (cores (?r ops) ! i) = fold (spec_mode i) ops AVAILABLE) \<and>
      active_nodes (?r ops) = 1 + word_of_nat (length (filter is_fold ops))"
  proof (induction ops rule: rev_induct)
    case Nil
    show ?case by (auto simp: DynamicResourceAllocator_def well_formed_def less_2_cases_iff)
  next
    case (snoc op ops)
    then show ?case using run_op_step [of "?r ops" op] by auto
  qed
  have m: "topological_mode (cores (?r ops) ! 0) = fold (spec_mode 0) ops AVAILABLE"
    "topological_mode (cores (?r ops) ! 1) = fold (spec_mode 1) ops AVAILABLE"
    using inv by auto
  have card: "card {i \<in> {0, 1 :: nat}. P i} = (if P 0 then 1 else 0) + (if P 1 then 1 else 0)" for P
  proof -
    have "{i \<in> {0, 1 :: nat}. P i} = (if P 0 then {0} else {}) \<union> (if P 1 then {1} else {})"
      by (intro set_eqI iffI) (auto split: if_splits)
    then show ?thesis by simp
  qed
  show ?thesis
    unfolding Let_def card using m inv
    by (simp add: get_active_cores_def get_active_nodes_def)
qed

lemma allocator_refines_modes_witness:
  "topological_mode (cores (fold run_op [Set_active 1, Isolate 1 [65] FORCE 64, Isolate 9 [] UNUSED 0]
     (DynamicResourceAllocator 0x40000000)) ! 1) = FORCE"
  using allocator_refines_modes [of "[Set_active 1, Isolate 1 [65] FORCE 64, Isolate 9 [] UNUSED 0]" "0x40000000"]
  by (simp add: Let_def del: run_op.simps)

end
