(* ===== verification/ControlPanel.thy ===== *)
theory ControlPanel
  imports GraphicsText ResourceAllocator SubstrateService "HOL-Library.Signed_Division"
begin

text \<open>
  What the system draws: \<open>Graphics::draw_spinning_cube\<close> of \<open>src/hal/vga.hpp\<close>, \<open>draw_quad_resolve\<close> of
  \<open>src/hal/vga_render.cpp\<close> and \<open>NeumannControlPanel\<close> of \<open>src/hal/neumann_control_panel.hpp\<close>, each as the
  list of drawing calls it makes.
\<close>

unbundle bit_operations_syntax

section \<open>The spinning cube\<close>

definition s_tbl :: "int list" where
  "s_tbl = [0, 25, 50, 74, 98, 120, 142, 162, 180, 197, 212, 225, 236, 244, 250, 254, 255, 254, 250, 244,
     236, 225, 212, 197, 180, 162, 142, 120, 98, 74, 50, 25, 0, - 25, - 50, - 74, - 98, - 120, - 142, - 162,
     - 180, - 197, - 212, - 225, - 236, - 244, - 250, - 254, - 255, - 254, - 250, - 244, - 236, - 225,
     - 212, - 197, - 180, - 162, - 142, - 120, - 98, - 74, - 50, - 25]"

text \<open>\<open>s_tbl[k % 64]\<close>: the remainder of a negative number is negative.\<close>

definition s_at :: "int \<Rightarrow> int option" where
  "s_at k = (let i = k smod 64 in if 0 \<le> i then Some (s_tbl ! nat i) else None)"

definition cube_vertices :: "(int \<times> int \<times> int) list" where
  "cube_vertices = [(- 1, - 1, - 1), (1, - 1, - 1), (1, 1, - 1), (- 1, 1, - 1),
     (- 1, - 1, 1), (1, - 1, 1), (1, 1, 1), (- 1, 1, 1)]"

text \<open>\<open>x >> 8\<close> rounds down, \<open>/\<close> towards zero; \<open>None\<close> is a division by zero.\<close>

definition vertex_dist :: "int \<Rightarrow> int \<Rightarrow> int \<times> int \<times> int \<Rightarrow> int" where
  "vertex_dist sin_a cos_a = (\<lambda>(v0, v1, v2).
    let rz = (v0 * 80 * sin_a + v2 * 80 * cos_a) div 256
    in 300 + (v1 * 80 * sin_a + rz * cos_a) div 256)"

definition project :: "int \<Rightarrow> int \<Rightarrow> int \<times> int \<times> int \<Rightarrow> (int \<times> int) option" where
  "project sin_a cos_a = (\<lambda>(v0, v1, v2).
    let rx = (v0 * 80 * cos_a - v2 * 80 * sin_a) div 256;
        rz = (v0 * 80 * sin_a + v2 * 80 * cos_a) div 256;
        ry = (v1 * 80 * cos_a - rz * sin_a) div 256;
        dist = vertex_dist sin_a cos_a (v0, v1, v2)
    in if dist = 0 then None else Some (800 + (rx * 512) sdiv dist, 200 + (ry * 512) sdiv dist))"

definition line_between :: "int \<times> int \<Rightarrow> int \<times> int \<Rightarrow> u32 \<Rightarrow> gfx_call" where
  "line_between p q color = DrawLine (fst p) (snd p) (fst q) (snd q) color"

definition cube_edges :: "(int \<times> int) list \<Rightarrow> u32 \<Rightarrow> gfx_call list" where
  "cube_edges proj col = concat (map (\<lambda>i.
     [line_between (proj ! i) (proj ! ((i + 1) mod 4)) col,
      line_between (proj ! (i + 4)) (proj ! ((i + 1) mod 4 + 4)) col,
      line_between (proj ! i) (proj ! (i + 4)) col]) [0..<4])"

text \<open>\<open>frame\<close> is a 32-bit \<open>int\<close>; \<open>None\<close> is undefined behaviour: the overflow of \<open>frame + 16\<close>, or a read before the
  table.\<close>

definition draw_spinning_cube :: "int \<Rightarrow> bool \<Rightarrow> gfx_call list option" where
  "draw_spinning_cube frame lock =
    (case (s_at frame, Option.bind (int32 (frame + 16)) s_at) of
       (Some sin_a, Some cos_a) \<Rightarrow>
         (case those (map (project sin_a cos_a) cube_vertices) of
            None \<Rightarrow> None
          | Some proj \<Rightarrow>
              let col = (if lock then 0x00FF0000 else 0x0000FFFF)
              in Some (cube_edges proj col @ [PrintAt (lit ''MANIFOLD_PHASE'') 760 300 col]))
     | _ \<Rightarrow> None)"

section \<open>The resident blocks\<close>

definition quad_cell :: "manifold \<Rightarrow> u32 \<Rightarrow> u32 \<Rightarrow> u32 \<Rightarrow> u32 \<Rightarrow> nat \<Rightarrow> nat \<Rightarrow> gfx_call" where
  "quad_cell m master_frame offset qx qy r c =
    (let b_idx = (master_frame + offset + word_of_nat (r * 8) + word_of_nat c) mod 1024;
         color = (if is_block_resident m b_idx then 0x0000FF00 else 0x00002222)
     in DrawRect (qx + 10 + word_of_nat (c * 10)) (qy + 25 + word_of_nat (r * 10)) 8 8 color)"

definition quad_offsets :: "u32 list" where "quad_offsets = [0, 512, 1024, 1536]"

definition quad_labels :: "cstr list" where
  "quad_labels = [lit ''PHASE: 0'', lit ''PHASE: 512'', lit ''PHASE: 1024'', lit ''PHASE: 1536'']"

definition draw_quad :: "manifold \<Rightarrow> u32 \<Rightarrow> u32 \<Rightarrow> u32 \<Rightarrow> u32 \<Rightarrow> u32 \<Rightarrow> nat \<Rightarrow> gfx_call list" where
  "draw_quad m x y qw qh master_frame i =
    (let qx = x + word_of_nat (i mod 2) * qw; qy = y + word_of_nat (i div 2) * qh
     in draw_border qx qy qw qh 0x00222222 1 @
        [PrintAt (quad_labels ! i) (qx + 5) (qy + 5) 0x0000AAAA] @
        map (\<lambda>(r, c). quad_cell m master_frame (quad_offsets ! i) qx qy r c) (List.product [0..<8] [0..<8]))"

definition draw_quad_resolve :: "manifold \<Rightarrow> u32 \<Rightarrow> u32 \<Rightarrow> u32 \<Rightarrow> u32 \<Rightarrow> u32 \<Rightarrow> gfx_call list" where
  "draw_quad_resolve m x y w h master_frame =
    concat (map (draw_quad m x y (w div 2) (h div 2) master_frame) [0..<4])"

section \<open>The control panel\<close>

datatype region =
    REGION_SCHEDULING
  | REGION_MANIFOLD
  | REGION_CONSOLE

record control_panel =
  cp_width :: u32
  cp_master_seed :: seed
  cp_manifold :: manifold

definition rotor_sin :: "int list" where
  "rotor_sin = [0, 50, 86, 100, 86, 50, 0, - 50, - 86, - 100, - 86, - 50]"
definition rotor_cos :: "int list" where
  "rotor_cos = [100, 86, 50, 0, - 50, - 86, - 100, - 86, - 50, 0, 50, 86]"

text \<open>\<open>(radius * c_tbl[i]) / 100\<close> is an unsigned product and quotient, since \<open>radius\<close> is a \<open>uint32_t\<close>.\<close>

definition rotor_pos :: "u32 \<Rightarrow> u32 \<Rightarrow> nat \<Rightarrow> nat \<Rightarrow> u32 \<times> u32" where
  "rotor_pos cx cy r i =
    (let radius = 20 + word_of_nat (r * 15);
         rx = radius * word_of_int (rotor_cos ! (i mod 12)) div 100;
         ry = radius * word_of_int (rotor_sin ! (i mod 12)) div 100
     in (cx + rx, cy + ry))"

definition rotor_call :: "u32 \<Rightarrow> u32 \<Rightarrow> u32 \<Rightarrow> nat \<Rightarrow> nat \<Rightarrow> gfx_call" where
  "rotor_call cx cy frame r i =
    (let color = (if (frame + word_of_nat r) mod 8 = 0 then 0x0000FFFF else 0x00003333)
     in DrawRect (fst (rotor_pos cx cy r i)) (snd (rotor_pos cx cy r i)) 4 4 color)"

definition draw_enigma_surpass :: "u32 \<Rightarrow> u32 \<Rightarrow> u32 \<Rightarrow> u32 \<Rightarrow> u32 \<Rightarrow> gfx_call list" where
  "draw_enigma_surpass x y w h frame =
    draw_border x y w h 0x00333333 1 @
    [PrintAt (lit ''SOVEREIGN STATE COMPLEXITY'') (x + 10) (y + 10) 0x0000AAAA,
     PrintAt (lit ''8-HOP RESOLVE: 1.2e24 COMBINATIONS'') (x + 10) (y + 25) 0x0000FFFF] @
    map (\<lambda>(r, i). rotor_call (x + w div 2) (y + h div 2 + 20) frame r i) (List.product [0..<8] [0..<12])"

definition status_text :: "build \<Rightarrow> cstr" where
  "status_text b =
    (case b of
       SOVEREIGN_BUILD \<Rightarrow> lit ''PHOENIX vX [SOVEREIGN] | LITERAL RESOLVE | [TAB] REGIONS''
     | EVALUATION_BUILD \<Rightarrow> lit ''PHOENIX v0.5 [OPEN] | LITERAL RESOLVE | [TAB] REGIONS''
     | DEFAULT_BUILD \<Rightarrow> lit ''PHOENIX v1.0 [RELEASE] | LITERAL RESOLVE | [TAB] REGIONS'')"

definition draw_status_bar :: "build \<Rightarrow> control_panel \<Rightarrow> gfx_call list" where
  "draw_status_bar b cp =
    [DrawRect 0 0 (cp_width cp) 25 0x00003333, PrintAt (status_text b) 10 8 0x0000FFFF]"

definition draw_panel :: "build \<Rightarrow> control_panel \<Rightarrow> u32 \<Rightarrow> u32 \<Rightarrow> region \<Rightarrow> u32 \<Rightarrow> gfx_call list" where
  "draw_panel b cp n_cores n_nodes focused_region frame =
    [Clear 0x00080808] @ draw_status_bar b cp @
    draw_border 10 40 280 700 (if focused_region = REGION_SCHEDULING then 0x0000FFFF else 0x00222222) 1 @
    [PrintAt (lit ''[ SILICON CONTROL ]'') 20 60 0x00FFFF00,
     PrintAt (lit ''Bypass Cores: '') 20 85 0x00FFFFFF,
     PrintAt (int_to_str (ucast n_cores)) 150 85 0x0000FF00,
     PrintAt (lit ''[ MANIFOLD STORAGE ]'') 20 130 0x00FFFF00,
     PrintAt (lit ''Active Nodes: '') 20 155 0x00FFFFFF,
     PrintAt (int_to_str (ucast n_nodes)) 150 155 0x0000FF00,
     PrintAt (lit ''Substrate Blocks: '') 20 180 0x00FFFFFF,
     PrintAt (int_to_str (get_used_blocks (cp_manifold cp))) 150 180 0x0000FF00] @
    draw_quad_resolve (cp_manifold cp) 310 40 680 400 frame @
    draw_enigma_surpass 10 460 280 280 frame @
    draw_border 310 460 680 280 (if focused_region = REGION_CONSOLE then 0x0000FF00 else 0x00222222) 1 @
    [PrintAt (lit ''SOVEREIGN COMMAND CONSOLE'') 320 470 0x0000AAAA,
     PrintAt (lit ''ACTIVE_RESOLVE_PHASE: '') 320 490 0x00FFFFFF,
     PrintAt (int_to_str (ucast (frame mod 2048))) 500 490 0x00FFFF00]"

section \<open>Every call is one that succeeds\<close>

lemma list_all_concat_map: "list_all P (concat (map f xs)) \<longleftrightarrow> list_all (\<lambda>x. list_all P (f x)) xs"
  by (induction xs) auto

lemma border_ok [simp]: "list_all call_ok (draw_border x y w h c t)"
  by (simp add: draw_border_def)

lemma lit_printable: "printable_text (lit s) \<longleftrightarrow> list_all (\<lambda>c. (word_of_nat (of_char c) :: u8) = 10 \<or>
    32 \<le> (word_of_nat (of_char c) :: u8) \<and> (word_of_nat (of_char c) :: u8) \<le> 126) s"
  by (simp add: printable_text_def lit_def list.pred_map comp_def)

lemma int_to_str_printable [simp]: "printable_text (int_to_str n)"
proof -
  have "48 \<le> c \<and> c \<le> 57 \<Longrightarrow> 32 \<le> c \<and> c \<le> (126 :: u8)" for c by (auto simp: word_le_nat_alt)
  then show ?thesis using int_to_str_value [of n] by (auto simp: printable_text_def list_all_iff)
qed

lemma quad_ok: "list_all call_ok (draw_quad_resolve m x y w h frame)"
proof -
  have "printable_text (quad_labels ! i)" if "i < 4" for i
  proof -
    have "list_all printable_text quad_labels" by code_simp
    moreover have "i < length quad_labels" using that by (simp add: quad_labels_def)
    ultimately show ?thesis by (simp add: list_all_length)
  qed
  then show ?thesis
    by (auto simp: draw_quad_resolve_def draw_quad_def quad_cell_def list_all_concat_map list_all_iff Let_def
        draw_border_def)
qed

lemma enigma_ok: "list_all call_ok (draw_enigma_surpass x y w h frame)"
proof -
  have "printable_text (lit ''SOVEREIGN STATE COMPLEXITY'')" "printable_text (lit ''8-HOP RESOLVE: 1.2e24 COMBINATIONS'')"
    by code_simp+
  then show ?thesis
    by (auto simp: draw_enigma_surpass_def rotor_call_def list_all_iff draw_border_def Let_def)
qed

lemma panel_ok: "list_all call_ok (draw_panel b cp n_cores n_nodes reg frame)"
proof -
  have "printable_text (status_text b)" by (cases b) (simp only: status_text_def build.case, code_simp)+
  moreover have "list_all printable_text [lit ''[ SILICON CONTROL ]'', lit ''Bypass Cores: '', lit ''[ MANIFOLD STORAGE ]'',
      lit ''Active Nodes: '', lit ''Substrate Blocks: '', lit ''SOVEREIGN COMMAND CONSOLE'', lit ''ACTIVE_RESOLVE_PHASE: '']"
    by code_simp
  ultimately show ?thesis
    by (simp add: draw_panel_def draw_status_bar_def quad_ok enigma_ok)
qed

section \<open>The cube\<close>

lemma s_tbl_bound: "i < 64 \<Longrightarrow> \<bar>s_tbl ! i\<bar> \<le> 255"
proof -
  assume "i < 64"
  moreover have "list_all (\<lambda>i. \<bar>s_tbl ! i\<bar> \<le> 255) [0..<64]" by code_simp
  ultimately show ?thesis by (simp add: list_all_iff)
qed

lemma s_at_nonneg: "0 \<le> k \<Longrightarrow> \<exists>s. s_at k = Some s \<and> \<bar>s\<bar> \<le> 255"
proof -
  assume k: "0 \<le> k"
  then have "k smod 64 = k mod 64" by (cases "k = 0") (simp_all add: signed_modulo_int_def sgn_if)
  moreover have "0 \<le> k mod 64" "nat (k mod 64) < 64" by simp_all
  ultimately show ?thesis using s_tbl_bound by (simp add: s_at_def Let_def)
qed

lemma unit_product: "v = 1 \<or> v = - 1 \<Longrightarrow> \<bar>s\<bar> \<le> b \<Longrightarrow> \<bar>v * 80 * s\<bar> \<le> 80 * (b :: int)"
  by (auto simp: abs_mult)

lemma vertex_dist_pos:
  assumes "\<bar>sin_a\<bar> \<le> 255" "\<bar>cos_a\<bar> \<le> 255" "v0 = 1 \<or> v0 = - 1" "v1 = 1 \<or> v1 = - 1" "v2 = 1 \<or> v2 = - 1"
  shows "60 \<le> vertex_dist sin_a cos_a (v0, v1, v2) \<and> vertex_dist sin_a cos_a (v0, v1, v2) \<le> 540"
proof -
  define rz where "rz = (v0 * 80 * sin_a + v2 * 80 * cos_a) div 256"
  have "\<bar>v0 * 80 * sin_a\<bar> \<le> 20400" "\<bar>v2 * 80 * cos_a\<bar> \<le> 20400"
    using unit_product [OF assms(3,1)] unit_product [OF assms(5,2)] by simp_all
  then have "- 160 \<le> rz" "rz \<le> 159" unfolding rz_def by linarith+
  then have "\<bar>rz\<bar> * \<bar>cos_a\<bar> \<le> 160 * 255" using assms(2) by (intro mult_mono) auto
  then have "\<bar>rz * cos_a\<bar> \<le> 40800" by (simp add: abs_mult)
  moreover have "\<bar>v1 * 80 * sin_a\<bar> \<le> 20400" using unit_product [OF assms(4,1)] by simp
  ultimately have "- 240 \<le> (v1 * 80 * sin_a + rz * cos_a) div 256" "(v1 * 80 * sin_a + rz * cos_a) div 256 \<le> 239"
    by linarith+
  then show ?thesis by (simp add: vertex_dist_def Let_def rz_def [symmetric])
qed

lemma abs_sdiv_le: "\<bar>a sdiv b\<bar> \<le> \<bar>a :: int\<bar>"
proof -
  have "\<bar>a sdiv b\<bar> \<le> \<bar>a\<bar> div \<bar>b\<bar>"
    by (auto simp: signed_divide_int_def abs_mult sgn_if pos_imp_zdiv_nonneg_iff)
  also have "\<dots> \<le> \<bar>a\<bar>" using zdiv_mono2 [of "\<bar>a\<bar>" 1 "\<bar>b\<bar>"] by (cases "b = 0") auto
  finally show ?thesis .
qed

lemma those_map_Some: "(\<And>x. x \<in> set xs \<Longrightarrow> \<exists>y. f x = Some y) \<Longrightarrow> \<exists>ys. those (map f xs) = Some ys"
proof (induction xs)
  case (Cons x xs)
  then obtain y ys where "f x = Some y" "those (map f xs) = Some ys" by (meson list.set_intros)
  then show ?case by simp
qed simp

text \<open>A projected vertex is so near the middle of the cube that lines between vertices cannot overflow.\<close>

definition near_screen :: "int \<times> int \<Rightarrow> bool" where
  "near_screen p \<longleftrightarrow> \<bar>fst p\<bar> \<le> 2 ^ 20 \<and> \<bar>snd p\<bar> \<le> 2 ^ 20"

lemma project_near:
  assumes "\<bar>sin_a\<bar> \<le> 255" "\<bar>cos_a\<bar> \<le> 255" "v0 = 1 \<or> v0 = - 1" "v1 = 1 \<or> v1 = - 1" "v2 = 1 \<or> v2 = - 1"
  shows "\<exists>p. project sin_a cos_a (v0, v1, v2) = Some p \<and> near_screen p"
proof -
  define rx rz where "rx = (v0 * 80 * cos_a - v2 * 80 * sin_a) div 256" and "rz = (v0 * 80 * sin_a + v2 * 80 * cos_a) div 256"
  define ry where "ry = (v1 * 80 * cos_a - rz * sin_a) div 256"
  define dist where "dist = vertex_dist sin_a cos_a (v0, v1, v2)"
  have u: "\<bar>v0 * 80 * sin_a\<bar> \<le> 20400" "\<bar>v2 * 80 * cos_a\<bar> \<le> 20400" "\<bar>v0 * 80 * cos_a\<bar> \<le> 20400"
    "\<bar>v2 * 80 * sin_a\<bar> \<le> 20400" "\<bar>v1 * 80 * cos_a\<bar> \<le> 20400"
    using unit_product [OF assms(3,1)] unit_product [OF assms(5,2)] unit_product [OF assms(3,2)] unit_product [OF assms(5,1)]
      unit_product [OF assms(4,2)] by simp_all
  have "\<bar>rz\<bar> \<le> 160" "\<bar>rx\<bar> \<le> 160" using u unfolding rz_def rx_def by linarith+
  then have "\<bar>rz\<bar> * \<bar>sin_a\<bar> \<le> 160 * 255" using assms(1) by (intro mult_mono) auto
  then have "\<bar>rz * sin_a\<bar> \<le> 40800" by (simp add: abs_mult)
  then have "\<bar>ry\<bar> \<le> 240" using u(5) unfolding ry_def by linarith
  have "\<bar>(rx * 512) sdiv dist\<bar> \<le> 512 * 160" "\<bar>(ry * 512) sdiv dist\<bar> \<le> 512 * 240"
    using abs_sdiv_le [of "rx * 512" dist] abs_sdiv_le [of "ry * 512" dist] \<open>\<bar>rx\<bar> \<le> 160\<close> \<open>\<bar>ry\<bar> \<le> 240\<close> by (auto simp: abs_mult)
  then have "near_screen (800 + (rx * 512) sdiv dist, 200 + (ry * 512) sdiv dist)" by (auto simp: near_screen_def)
  moreover have "dist \<noteq> 0" using vertex_dist_pos [OF assms] by (simp add: dist_def)
  ultimately show ?thesis
    by (simp add: project_def Let_def rx_def [symmetric] rz_def [symmetric] ry_def [symmetric] dist_def [symmetric])
qed

lemma those_nth: "those (map f xs) = Some ys \<Longrightarrow> length ys = length xs \<and> (\<forall>i < length xs. f (xs ! i) = Some (ys ! i))"
proof (induction xs arbitrary: ys)
  case (Cons x xs)
  then obtain y zs where "f x = Some y" "those (map f xs) = Some zs" "ys = y # zs" by (auto split: option.splits)
  with Cons.IH [of zs] show ?case by (auto simp: nth_Cons split: nat.split)
qed simp

lemma cube_edges_ok:
  assumes "length proj = 8" "list_all near_screen proj"
  shows "list_all call_ok (cube_edges proj col)"
proof -
  have near: "near_screen (proj ! i)" if "i < 8" for i using assms that by (simp add: list_all_length)
  have "line_ok (fst (proj ! i)) (snd (proj ! i)) (fst (proj ! j)) (snd (proj ! j))" if "i < 8" "j < 8" for i j
    using near [OF that(1)] near [OF that(2)] by (auto simp: near_screen_def line_ok_def)
  then show ?thesis by (simp add: cube_edges_def line_between_def list_all_concat_map list_all_iff)
qed

lemma cube_calls:
  assumes "0 \<le> frame" "frame + 16 < 2 ^ 31"
  shows "\<exists>cs. draw_spinning_cube frame lock = Some cs \<and> list_all call_ok cs"
proof -
  have "0 \<le> frame + 16" and i: "int32 (frame + 16) = Some (frame + 16)" using assms by (simp_all add: int32_def)
  then obtain sa ca where s: "s_at frame = Some sa" "\<bar>sa\<bar> \<le> 255" "s_at (frame + 16) = Some ca" "\<bar>ca\<bar> \<le> 255"
    using s_at_nonneg [of frame] s_at_nonneg [of "frame + 16"] assms(1) by blast
  have near: "\<exists>p. project sa ca v = Some p \<and> near_screen p" if "v \<in> set cube_vertices" for v
    using project_near [OF s(2,4)] that by (auto simp: cube_vertices_def)
  then obtain proj where proj: "those (map (project sa ca) cube_vertices) = Some proj"
    using those_map_Some by meson
  have "near_screen (proj ! i)" if "i < length cube_vertices" for i
    using near [of "cube_vertices ! i"] those_nth [OF proj] that by fastforce
  then have edges: "list_all call_ok (cube_edges proj col)" for col
    using those_nth [OF proj] by (intro cube_edges_ok) (auto simp: list_all_length cube_vertices_def)
  have "printable_text (lit ''MANIFOLD_PHASE'')" by code_simp
  then have "list_all call_ok (cube_edges proj col @ [PrintAt (lit ''MANIFOLD_PHASE'') 760 300 col])" for col
    using edges by simp
  then show ?thesis
    by (simp add: draw_spinning_cube_def i s proj Let_def)
qed

section \<open>Properties\<close>

text \<open>A frame of the control panel is always drawn: on every well-formed screen the whole panel with the
  spinning cube over it succeeds for every build, resource count, focus, manifold and frame
  number of the range in which the cube can be drawn: every projected vertex has a distance between 60 and 540, no number overruns its buffer and
  no store leaves the screen.\<close>
theorem panel_frame_drawn:
  assumes "gfx_ok g" "0 \<le> frame" "frame + 16 < 2 ^ 31"
  shows "\<exists>cube g'. draw_spinning_cube frame lock = Some cube \<and>
    run_calls (draw_panel b cp n_cores n_nodes reg (word_of_int frame) @ cube) g = Some g' \<and> gfx_ok g' \<and> same_shape g g'"
proof -
  obtain cube where cube: "draw_spinning_cube frame lock = Some cube" "list_all call_ok cube"
    using cube_calls [OF assms(2,3)] by blast
  then have "list_all call_ok (draw_panel b cp n_cores n_nodes reg (word_of_int frame) @ cube)" by (simp add: panel_ok)
  then show ?thesis using screen.steps_total [of g g] assms(1) cube(1) by (simp add: run_calls_def)
qed

lemma panel_frame_drawn_witness:
  "\<exists>cube g'. draw_spinning_cube 1000 True = Some cube \<and>
    run_calls (draw_panel DEFAULT_BUILD \<lparr>cp_width = 32, cp_master_seed = \<lparr>s_hi = 1, s_lo = 2\<rparr>,
        cp_manifold = fst (SubstrateManifold (PhysicalMemory 0x2000000 0x40000000) (\<lambda>_. 0) (\<lambda>_. 0))\<rparr>
        2 1 REGION_CONSOLE 1000 @ cube) tiny_screen = Some g'"
  using panel_frame_drawn [OF tiny_screen_ok, of 1000] by fastforce

text \<open>Eight of the twelve rotors of every ring are never seen: their sine or cosine is negative, the
  unsigned product and quotient put them more than 42 million pixels away, and drawing them changes
  nothing on a screen of at most 65536 pixels either way.\<close>
theorem negative_rotors_lost:
  assumes "unat (width_px g) \<le> 65536" "unat (height_px g) \<le> 65536" "r < 8" "i \<in> {4..11}"
  shows "run_call (rotor_call 150 620 frame r i) g = Some g"
proof -
  let ?lost = "\<lambda>r i. 65536 \<le> fst (rotor_pos 150 620 r i) \<or> 65536 \<le> snd (rotor_pos 150 620 r i)"
  have "list_all (\<lambda>r. list_all (?lost r) [4..<12]) [0..<8]" by code_simp
  then have "\<forall>r \<in> set [0..<8]. \<forall>i \<in> set [4..<12]. ?lost r i" unfolding list_all_iff .
  moreover have "r \<in> set [0..<8]" "i \<in> set [4..<12]" using assms(3,4) by auto
  ultimately have "?lost r i" by blast
  then have "width_px g \<le> fst (rotor_pos 150 620 r i) \<or> height_px g \<le> snd (rotor_pos 150 620 r i)"
    using assms(1,2) by (auto simp: word_le_nat_alt)
  then show ?thesis by (simp add: rotor_call_def draw_rect_def Let_def)
qed

lemma negative_rotors_lost_witness: "run_call (rotor_call 150 620 7 3 8) tiny_screen = Some tiny_screen"
  by (rule negative_rotors_lost) (simp_all add: tiny_screen_def)

end
