(* ===== verification/Shell.thy ===== *)
theory Shell
  imports ControlPanel Keyboard "HOL-Library.Sublist"
begin

text \<open>
  The interactive part of \<open>src/boot/kmain.cpp\<close>: the string helpers, \<open>sovereign_shell\<close> and the start
  menu. The shell runs once for each timer pulse: it draws a frame, then handles the scancode the
  keyboard gave, 0 when there was none. Sessions are lists of these scancodes. The command line is an
  array of 128 bytes; an index past it is \<open>None\<close>.
\<close>

unbundle bit_operations_syntax

section \<open>Strings\<close>

function kstrcmp_from :: "cstr \<Rightarrow> cstr \<Rightarrow> nat \<Rightarrow> bool" where
  "kstrcmp_from s1 s2 i =
    (if cstr_at s1 i \<noteq> 0 \<or> cstr_at s2 i \<noteq> 0 then
       if cstr_at s1 i \<noteq> cstr_at s2 i then False else kstrcmp_from s1 s2 (i + 1)
     else True)"
  by pat_completeness auto
termination
  by (relation "measure (\<lambda>(s1, s2, i). length s1 - i)") (auto simp: cstr_at_def split: if_splits)

declare kstrcmp_from.simps [simp del]

definition kstrcmp :: "cstr \<Rightarrow> cstr \<Rightarrow> bool" where
  "kstrcmp s1 s2 = kstrcmp_from s1 s2 0"

function kstarts_from :: "cstr \<Rightarrow> cstr \<Rightarrow> nat \<Rightarrow> bool" where
  "kstarts_from str pre i =
    (if cstr_at pre i \<noteq> 0 then
       if cstr_at str i \<noteq> cstr_at pre i then False else kstarts_from str pre (i + 1)
     else True)"
  by pat_completeness auto
termination
  by (relation "measure (\<lambda>(str, pre, i). length pre - i)") (auto simp: cstr_at_def split: if_splits)

declare kstarts_from.simps [simp del]

definition kstarts_with :: "cstr \<Rightarrow> cstr \<Rightarrow> bool" where
  "kstarts_with str pre = kstarts_from str pre 0"

lemma drop_cstr: "drop i s = (if i < length s then cstr_at s i # drop (i + 1) s else [])"
  by (simp add: cstr_at_def Cons_nth_drop_Suc)

lemma kstrcmp_from_eq: "cstr_ok s1 \<Longrightarrow> cstr_ok s2 \<Longrightarrow> kstrcmp_from s1 s2 i \<longleftrightarrow> drop i s1 = drop i s2"
proof (induction s1 s2 i rule: kstrcmp_from.induct)
  case (1 s1 s2 i)
  note z = cstr_at_zero_iff [OF "1.prems"(1), of i] cstr_at_zero_iff [OF "1.prems"(2), of i]
  show ?case
  proof (cases "cstr_at s1 i = cstr_at s2 i \<and> cstr_at s1 i \<noteq> 0")
    case True
    then show ?thesis
      using "1.IH" "1.prems" z by (subst kstrcmp_from.simps) (simp add: drop_cstr [of i])
  next
    case False
    then show ?thesis
      using z by (subst kstrcmp_from.simps) (auto simp: drop_cstr [of i])
  qed
qed

lemma kstarts_from_iff: "cstr_ok str \<Longrightarrow> cstr_ok pre \<Longrightarrow> kstarts_from str pre i \<longleftrightarrow> prefix (drop i pre) (drop i str)"
proof (induction str pre i rule: kstarts_from.induct)
  case (1 str pre i)
  note z = cstr_at_zero_iff [OF "1.prems"(1), of i] cstr_at_zero_iff [OF "1.prems"(2), of i]
  show ?case
  proof (cases "cstr_at str i = cstr_at pre i \<and> cstr_at pre i \<noteq> 0")
    case True
    then show ?thesis
      using "1.IH" "1.prems" z by (subst kstarts_from.simps) (simp add: drop_cstr [of i])
  next
    case False
    then show ?thesis
      using z by (subst kstarts_from.simps) (auto simp: drop_cstr [of i])
  qed
qed

section \<open>The shell\<close>

record shell =
  sh_cmd :: "u8 list"
  cmd_idx :: nat
  g_in_shell :: bool
  g_focus :: region
  hypercube_frame :: u32
  sh_res :: resources

fun next_region :: "region \<Rightarrow> region" where
  "next_region REGION_SCHEDULING = REGION_MANIFOLD"
| "next_region REGION_MANIFOLD = REGION_CONSOLE"
| "next_region REGION_CONSOLE = REGION_SCHEDULING"

definition enter_shell :: "region \<Rightarrow> u32 \<Rightarrow> resources \<Rightarrow> shell" where
  "enter_shell focus frame res =
    \<lparr>sh_cmd = replicate 128 0, cmd_idx = 0, g_in_shell = True, g_focus = focus, hypercube_frame = frame, sh_res = res\<rparr>"

text \<open>The C string in the command array: up to its first NUL.\<close>

definition cmd_string :: "shell \<Rightarrow> cstr" where
  "cmd_string s = takeWhile (\<lambda>c. c \<noteq> 0) (sh_cmd s)"

definition phase_lock_divisor :: u32 where "phase_lock_divisor = 1"

text \<open>What one frame draws; \<open>None\<close> when the cube reads outside its table. The frame number is converted to
  \<open>int\<close> for the cube.\<close>

definition shell_frame :: "build \<Rightarrow> control_panel \<Rightarrow> bool \<Rightarrow> shell \<Rightarrow> gfx_call list option" where
  "shell_frame b cp g_in_control_panel s =
    (if g_in_control_panel then
       (case draw_spinning_cube (sint (hypercube_frame s)) (hypercube_frame s mod (60 * phase_lock_divisor) = 0) of
          None \<Rightarrow> None
        | Some cube \<Rightarrow>
            let prompt_color = (if g_focus s = REGION_CONSOLE then 0x0000FF00 else 0x00003333)
            in Some (draw_panel b cp (get_active_cores (sh_res s)) (get_active_nodes (sh_res s)) (g_focus s) (hypercube_frame s) @
                 cube @
                 [PrintAt (lit ''[PHOENIX]> '') 320 520 prompt_color, PrintAt (cmd_string s) 410 520 0x00FFFFFF] @
                 (if g_focus s = REGION_CONSOLE \<and> hypercube_frame s div 16 mod 2 \<noteq> 0
                  then [PrintAt (lit ''_'') (410 + word_of_nat (cmd_idx s * 8)) 520 0x0000FF00] else []) @
                 [SwapBuffers]))
     else
       Some [DrawRect 0 0 1024 60 0x00080808,
             PrintAt (lit ''=== CONSENSUS SOVEREIGN WORKSPACE ==='') 10 10 0x0000FFFF,
             DrawRect 0 480 1024 40 0x00080808,
             PrintAt (lit ''[Sovereign]> '') 10 500 0x0000FF00,
             PrintAt (cmd_string s) 120 500 0x00FFFFFF,
             SwapBuffers])"

definition store_cmd :: "nat \<Rightarrow> u8 \<Rightarrow> shell \<Rightarrow> shell option" where
  "store_cmd i c s = (if i < length (sh_cmd s) then Some (s\<lparr>sh_cmd := (sh_cmd s)[i := c]\<rparr>) else None)"

definition run_command :: "shell \<Rightarrow> shell option" where
  "run_command s =
    (case store_cmd (cmd_idx s) 0 s of
       None \<Rightarrow> None
     | Some s \<Rightarrow>
         if kstarts_with (cmd_string s) (lit ''back'') then Some (s\<lparr>g_in_shell := False\<rparr>)
         else
           let s = (if kstarts_with (cmd_string s) (lit ''fold'') then s\<lparr>sh_res := fold_manifold 1 (sh_res s)\<rparr> else s)
           in Some (s\<lparr>sh_cmd := replicate 128 0, cmd_idx := 0\<rparr>))"

text \<open>What follows the frame: \<open>sc\<close> is the value of \<open>read_raw_scancode\<close>.\<close>

definition handle_key :: "u8 \<Rightarrow> shell \<Rightarrow> shell option" where
  "handle_key sc s =
    (let s = s\<lparr>hypercube_frame := hypercube_frame s + 1\<rparr>
     in if sc = 0 then Some s
        else if sc = KEY_TAB then Some (s\<lparr>g_focus := next_region (g_focus s)\<rparr>)
        else
          let c = scancode_to_char sc
          in if c = 0 then Some s
             else if c = 10 \<or> c = 13 then run_command s
             else if c = 8 \<and> cmd_idx s > 0 then
               store_cmd (cmd_idx s - 1) 0 (s\<lparr>cmd_idx := cmd_idx s - 1\<rparr>)
             else if cmd_idx s < 127 \<and> 32 \<le>s c then
               map_option (\<lambda>s. s\<lparr>cmd_idx := cmd_idx s + 1\<rparr>) (store_cmd (cmd_idx s) c s)
             else Some s)"

text \<open>\<open>sovereign_shell\<close> on the scancodes of its pulses: the state it ends in, and the scancodes left when
  it returned.\<close>

fun sovereign_shell :: "u8 list \<Rightarrow> shell \<Rightarrow> (shell \<times> u8 list) option" where
  "sovereign_shell [] s = Some (s, [])"
| "sovereign_shell (sc # scs) s =
    (if \<not> g_in_shell s then Some (s, sc # scs)
     else case handle_key sc s of None \<Rightarrow> None | Some s' \<Rightarrow> sovereign_shell scs s')"

section \<open>The start menu\<close>

definition menu_frame :: "build \<Rightarrow> bool \<Rightarrow> nat \<Rightarrow> gfx_call list" where
  "menu_frame b vmx_ready selection =
    [Clear 0x00080808, PrintAt (lit ''=== CONSENSUS ENTERPRISE HYPERVISOR ==='') 300 200 0x0000FFFF] @
    (case b of
       SOVEREIGN_BUILD \<Rightarrow> [PrintAt (lit ''PHOENIX vX [SOVEREIGN] | CAPACITY: UNLIMITED'') 250 130 0x00FF00FF]
     | EVALUATION_BUILD \<Rightarrow> [PrintAt (lit ''PHOENIX v0.5 [OPEN] | CAPACITY: 1 TB'') 250 130 0x00FF0000]
     | DEFAULT_BUILD \<Rightarrow> [PrintAt (lit ''PHOENIX v1.0 [RELEASE] | CAPACITY: 10 TB'') 250 130 0x00FFFF00]) @
    (if vmx_ready then [PrintAt (lit ''VMX_ACCELERATION: [ENABLED]'') 300 150 0x0000FF00] else []) @
    (if selection = 0 then [PrintAt (lit ''> 1. Launch Sovereign Workspace'') 250 240 0x0000FF00]
     else [PrintAt (lit ''  1. Launch Sovereign Workspace'') 250 240 0x00FFFFFF]) @
    (if selection = 1 then [PrintAt (lit ''> 2. Neumann Control Panel'') 250 260 0x0000FF00]
     else [PrintAt (lit ''  2. Neumann Control Panel'') 250 260 0x00FFFFFF]) @
    [SwapBuffers]"

text \<open>The selection when Enter is read, and the scancodes after it; \<open>None\<close> while it waits.\<close>

fun menu_loop :: "u8 list \<Rightarrow> nat \<Rightarrow> (nat \<times> u8 list) option" where
  "menu_loop [] selection = None"
| "menu_loop (sc # scs) selection =
    (let selection = (if sc = KEY_UP then 0 else selection);
         selection = (if sc = KEY_DOWN then 1 else selection)
     in if sc = 0x1C then Some (selection, scs) else menu_loop scs selection)"

text \<open>One round of the main loop after start-up: menu, then shell or panel.\<close>

definition main_round :: "u8 list \<Rightarrow> region \<Rightarrow> u32 \<Rightarrow> resources \<Rightarrow> (bool \<times> shell \<times> u8 list) option" where
  "main_round scs focus frame res =
    (case menu_loop scs 0 of
       None \<Rightarrow> None
     | Some (selection, scs) \<Rightarrow>
         (case sovereign_shell scs (enter_shell focus frame res) of
            None \<Rightarrow> None
          | Some (s, scs) \<Rightarrow> Some (selection \<noteq> 0, s, scs)))"

section \<open>The shell as a line editor\<close>

record editor =
  ed_line :: cstr
  ed_running :: bool
  ed_focus :: region
  ed_nodes :: u32

definition shell_abs :: "shell \<Rightarrow> editor" where
  "shell_abs s = \<lparr>ed_line = take (cmd_idx s) (sh_cmd s), ed_running = g_in_shell s, ed_focus = g_focus s,
     ed_nodes = get_active_nodes (sh_res s)\<rparr>"

definition shell_ok :: "shell \<Rightarrow> bool" where
  "shell_ok s \<longleftrightarrow> length (sh_cmd s) = 128 \<and> cmd_idx s \<le> 127 \<and> one_line (take (cmd_idx s) (sh_cmd s)) \<and>
     drop (cmd_idx s) (sh_cmd s) = replicate (128 - cmd_idx s) 0"

definition editor_step :: "u8 \<Rightarrow> editor \<Rightarrow> editor" where
  "editor_step sc e =
    (let c = scancode_to_char sc
     in if sc = KEY_TAB then e\<lparr>ed_focus := next_region (ed_focus e)\<rparr>
        else if c = 10 then
          (if prefix (lit ''back'') (ed_line e) then e\<lparr>ed_running := False\<rparr>
           else e\<lparr>ed_line := [], ed_nodes := ed_nodes e + (if prefix (lit ''fold'') (ed_line e) then 1 else 0)\<rparr>)
        else if c = 8 then e\<lparr>ed_line := butlast (ed_line e)\<rparr>
        else if 32 \<le> c \<and> length (ed_line e) < 127 then e\<lparr>ed_line := ed_line e @ [c]\<rparr>
        else e)"

text \<open>The characters the keyboard table has.\<close>

lemma char_range: "scancode_to_char sc \<le> 126 \<and> scancode_to_char sc \<noteq> 13 \<and>
    (32 \<le>s scancode_to_char sc \<longleftrightarrow> 32 \<le> scancode_to_char sc)"
proof -
  have all: "list_all (\<lambda>n. let c = scancode_map ! n in c \<le> 126 \<and> c \<noteq> 13 \<and> (32 \<le>s c \<longleftrightarrow> 32 \<le> c)) [0..<128]"
    by code_simp
  show ?thesis
  proof (cases "sc AND 0x80 \<noteq> 0")
    case True
    have "(0 :: u8) \<le> 126 \<and> (0 :: u8) \<noteq> 13 \<and> (32 \<le>s (0 :: u8) \<longleftrightarrow> (32 :: u8) \<le> 0)" by code_simp
    then show ?thesis using True by (simp add: scancode_to_char_def)
  next
    case False
    have "\<not> bit sc 7" using False and_exp_eq_0_iff_not_bit [of sc 7] by simp
    have "take_bit 7 sc = sc"
    proof (rule bit_word_eqI)
      fix n assume "n < LENGTH(8)"
      then have "n < 7 \<or> n = 7" by auto
      then show "bit (take_bit 7 sc) n = bit sc n" using \<open>\<not> bit sc 7\<close> by (auto simp: bit_take_bit_iff)
    qed
    moreover have "unat (take_bit 7 sc) < 2 ^ 7" by (simp only: unsigned_take_bit_eq take_bit_nat_less_exp)
    ultimately have "unat sc < 128" by simp
    then show ?thesis using all False by (simp add: scancode_to_char_def list_all_iff Let_def)
  qed
qed

text \<open>A machine whose steps never fail on good states and do what an abstract machine does.\<close>

locale simulation =
  fixes step :: "'c \<Rightarrow> 's \<Rightarrow> 's option"
    and good :: "'s \<Rightarrow> bool"
    and abstr :: "'s \<Rightarrow> 'a"
    and astep :: "'c \<Rightarrow> 'a \<Rightarrow> 'a"
  assumes step_simulates: "good s \<Longrightarrow> \<exists>s'. step c s = Some s' \<and> good s' \<and> abstr s' = astep c (abstr s)"
begin

lemma steps_simulate: "good s \<Longrightarrow> \<exists>s'. fold_opt step cs s = Some s' \<and> good s' \<and> abstr s' = fold astep cs (abstr s)"
proof (induction cs arbitrary: s)
  case (Cons c cs)
  obtain s1 where s1: "step c s = Some s1" "good s1" "abstr s1 = astep c (abstr s)"
    using step_simulates [OF Cons.prems] by blast
  show ?case using Cons.IH [OF s1(2)] s1 by simp
qed simp

end

sublocale simulation \<subseteq> total_steps step good "\<lambda>_. True"
  using step_simulates by unfold_locales blast

lemma one_line_nonzero: "one_line l \<Longrightarrow> c \<in> set l \<Longrightarrow> c \<noteq> 0"
  by (auto simp: one_line_def list_all_iff)

lemma shell_ok_cmd: "shell_ok s \<Longrightarrow> sh_cmd s = take (cmd_idx s) (sh_cmd s) @ replicate (128 - cmd_idx s) 0"
  unfolding shell_ok_def by (metis append_take_drop_id)

lemma cmd_string_line:
  assumes "shell_ok s"
  shows "cmd_string s = take (cmd_idx s) (sh_cmd s)"
proof -
  have "takeWhile (\<lambda>c. c \<noteq> 0) (l @ replicate n 0) = l" if "\<forall>c \<in> set l. c \<noteq> 0" for l :: cstr and n
    using that by (induction l) (auto simp: takeWhile_replicate)
  then show ?thesis
    using shell_ok_cmd [OF assms] one_line_nonzero assms unfolding cmd_string_def shell_ok_def by metis
qed

lemma terminate_line: "shell_ok s \<Longrightarrow> store_cmd (cmd_idx s) 0 s = Some s"
proof -
  assume s: "shell_ok s"
  then have "drop (cmd_idx s) (sh_cmd s) ! 0 = sh_cmd s ! cmd_idx s" by (intro nth_drop [THEN trans]) (simp_all add: shell_ok_def)
  then have "sh_cmd s ! cmd_idx s = 0" using s by (simp add: shell_ok_def)
  then have "(sh_cmd s)[cmd_idx s := 0] = sh_cmd s" by (metis list_update_id)
  then show ?thesis using s by (cases s) (simp add: store_cmd_def shell_ok_def)
qed

lemma run_command_sim:
  assumes "shell_ok s"
  shows "\<exists>s'. run_command s = Some s' \<and> shell_ok s' \<and> g_focus s' = g_focus s \<and>
    (if prefix (lit ''back'') (ed_line (shell_abs s)) then shell_abs s' = (shell_abs s)\<lparr>ed_running := False\<rparr>
     else shell_abs s' = (shell_abs s)\<lparr>ed_line := [],
       ed_nodes := ed_nodes (shell_abs s) + (if prefix (lit ''fold'') (ed_line (shell_abs s)) then 1 else 0)\<rparr>)"
proof -
  have line: "ed_line (shell_abs s) = cmd_string s" by (simp add: shell_abs_def cmd_string_line [OF assms])
  have ok: "cstr_ok (cmd_string s)"
    using assms one_line_nonzero unfolding cstr_ok_def cmd_string_line [OF assms] shell_ok_def by blast
  have lits: "cstr_ok (lit ''back'')" "cstr_ok (lit ''fold'')" by (simp_all add: lit_def cstr_ok_def)
  have k: "kstarts_with (cmd_string s) p \<longleftrightarrow> prefix p (cmd_string s)" if "cstr_ok p" for p
    using kstarts_from_iff [OF ok that, of 0] by (simp add: kstarts_with_def)
  define r where "r = (if prefix (lit ''fold'') (cmd_string s) then s\<lparr>sh_res := fold_manifold 1 (sh_res s)\<rparr> else s)"
  have run: "run_command s = (if prefix (lit ''back'') (cmd_string s) then Some (s\<lparr>g_in_shell := False\<rparr>)
      else Some (r\<lparr>sh_cmd := replicate 128 0, cmd_idx := 0\<rparr>))"
    unfolding run_command_def terminate_line [OF assms] option.case k [OF lits(1)] k [OF lits(2)] Let_def r_def by (rule refl)
  have nodes: "get_active_nodes (fold_manifold l q) = get_active_nodes q + 1" for l q
    by (simp add: get_active_nodes_def fold_manifold_def)
  have "shell_ok (s\<lparr>g_in_shell := False\<rparr>)" using assms by (simp add: shell_ok_def)
  moreover have "shell_abs (s\<lparr>g_in_shell := False\<rparr>) = (shell_abs s)\<lparr>ed_running := False\<rparr>" by (simp add: shell_abs_def)
  moreover have "shell_ok (r\<lparr>sh_cmd := replicate 128 0, cmd_idx := 0\<rparr>)" by (simp add: shell_ok_def one_line_def)
  moreover have "shell_abs (r\<lparr>sh_cmd := replicate 128 0, cmd_idx := 0\<rparr>) = (shell_abs s)\<lparr>ed_line := [],
       ed_nodes := ed_nodes (shell_abs s) + (if prefix (lit ''fold'') (cmd_string s) then 1 else 0)\<rparr>"
    by (simp add: shell_abs_def r_def nodes)
  moreover have "g_focus r = g_focus s" by (simp add: r_def)
  ultimately show ?thesis unfolding run line by (cases "prefix (lit ''back'') (cmd_string s)") simp_all
qed

lemma erase_sim:
  assumes "shell_ok s" "cmd_idx s > 0"
  shows "\<exists>s'. store_cmd (cmd_idx s - 1) 0 (s\<lparr>cmd_idx := cmd_idx s - 1\<rparr>) = Some s' \<and> shell_ok s' \<and>
    shell_abs s' = (shell_abs s)\<lparr>ed_line := butlast (ed_line (shell_abs s))\<rparr>"
proof -
  obtain k where k: "cmd_idx s = Suc k" using assms(2) by (cases "cmd_idx s") auto
  have len: "length (sh_cmd s) = 128" "k < 127" using assms(1) k by (simp_all add: shell_ok_def)
  have t: "take k ((sh_cmd s)[k := 0]) = butlast (take (Suc k) (sh_cmd s))" using len by (simp add: butlast_take)
  have d: "drop k ((sh_cmd s)[k := 0]) = replicate (128 - k) 0"
  proof -
    have "drop k ((sh_cmd s)[k := 0]) = 0 # drop (Suc k) (sh_cmd s)"
      using len by (simp add: Cons_nth_drop_Suc [symmetric])
    then show ?thesis using assms(1) k len by (simp add: shell_ok_def Suc_diff_le replicate_Suc [symmetric] del: replicate_Suc)
  qed
  have "one_line (butlast (take (Suc k) (sh_cmd s)))"
    using assms(1) k by (auto simp: shell_ok_def one_line_def list_all_iff dest: in_set_butlastD)
  then show ?thesis
    using len t d by (simp add: store_cmd_def k shell_ok_def shell_abs_def)
qed

lemma type_sim:
  assumes "shell_ok s" "cmd_idx s < 127" "32 \<le> c" "c \<le> 126"
  shows "\<exists>s'. map_option (\<lambda>s. s\<lparr>cmd_idx := cmd_idx s + 1\<rparr>) (store_cmd (cmd_idx s) c s) = Some s' \<and> shell_ok s' \<and>
    shell_abs s' = (shell_abs s)\<lparr>ed_line := ed_line (shell_abs s) @ [c]\<rparr>"
proof -
  define k where "k = cmd_idx s"
  have len: "length (sh_cmd s) = 128" "k < 127" using assms(1,2) by (simp_all add: shell_ok_def k_def)
  have t: "take (Suc k) ((sh_cmd s)[k := c]) = take k (sh_cmd s) @ [c]" using len by (simp add: take_Suc_conv_app_nth)
  have "drop (Suc k) (sh_cmd s) = drop 1 (replicate (128 - k) 0)"
    using assms(1) by (metis Suc_eq_plus1_left drop_drop k_def shell_ok_def plus_1_eq_Suc)
  then have d: "drop (Suc k) ((sh_cmd s)[k := c]) = replicate (128 - Suc k) 0" by simp
  have "one_line (take k (sh_cmd s) @ [c])" using assms by (simp add: shell_ok_def one_line_def k_def)
  then show ?thesis
    using len t d by (simp add: store_cmd_def k_def [symmetric] shell_ok_def shell_abs_def)
qed

lemma shell_ok_frame [simp]:
  "shell_ok (s\<lparr>hypercube_frame := n\<rparr>) = shell_ok s" "shell_abs (s\<lparr>hypercube_frame := n\<rparr>) = shell_abs s"
  "shell_ok (s\<lparr>g_focus := f\<rparr>) = shell_ok s" "shell_abs (s\<lparr>g_focus := f\<rparr>) = (shell_abs s)\<lparr>ed_focus := f\<rparr>"
  by (simp_all add: shell_ok_def shell_abs_def)

text \<open>A key without the code's conversions and tests that cannot apply: no key gives 13, and below 127 the
  signed comparison is the unsigned one.\<close>

lemma handle_key_eq:
  assumes "s1 = s\<lparr>hypercube_frame := hypercube_frame s + 1\<rparr>" "c = scancode_to_char sc"
  shows "handle_key sc s =
    (if sc = KEY_TAB then Some (s1\<lparr>g_focus := next_region (g_focus s1)\<rparr>)
     else if c = 10 then run_command s1
     else if c = 8 then (if cmd_idx s1 > 0 then store_cmd (cmd_idx s1 - 1) 0 (s1\<lparr>cmd_idx := cmd_idx s1 - 1\<rparr>) else Some s1)
     else if 32 \<le> c \<and> cmd_idx s1 < 127 then map_option (\<lambda>s. s\<lparr>cmd_idx := cmd_idx s + 1\<rparr>) (store_cmd (cmd_idx s1) c s1)
     else Some s1)"
proof -
  have zero: "scancode_to_char 0 = 0" by code_simp
  have lt: "\<not> 32 \<le> (0 :: u8)" "\<not> 32 \<le> (8 :: u8)" by simp_all
  have c: "c \<noteq> 13" "32 \<le>s c \<longleftrightarrow> 32 \<le> c" using char_range [of sc] by (simp_all add: assms(2))
  show ?thesis
  proof (cases "sc = 0 \<or> c = 0")
    case True
    then have "sc = KEY_TAB \<or> c = 0" using zero assms(2) by auto
    then show ?thesis
      using True lt by (auto simp: handle_key_def assms(1) assms(2) [symmetric] KEY_TAB_def Let_def)
  next
    case False
    then show ?thesis
      using c lt by (simp add: handle_key_def assms(1) [symmetric] assms(2) [symmetric] Let_def)
  qed
qed

lemma handle_key_sim:
  assumes "shell_ok s"
  shows "\<exists>s'. handle_key sc s = Some s' \<and> shell_ok s' \<and> shell_abs s' = editor_step sc (shell_abs s)"
proof -
  define c where "c = scancode_to_char sc"
  define s1 where "s1 = s\<lparr>hypercube_frame := hypercube_frame s + 1\<rparr>"
  note key = handle_key_eq [OF s1_def c_def]
  have s1: "shell_ok s1" "shell_abs s1 = shell_abs s" using assms by (simp_all add: s1_def)
  have len: "length (ed_line (shell_abs s1)) = cmd_idx s1" using s1(1) by (simp add: shell_abs_def shell_ok_def)
  note editor = editor_step_def [of sc "shell_abs s", folded c_def s1(2), unfolded Let_def len]
  consider "sc = KEY_TAB" | "sc \<noteq> KEY_TAB" "c = 10" | "sc \<noteq> KEY_TAB" "c = 8" "cmd_idx s1 > 0" | "sc \<noteq> KEY_TAB" "c = 8" "cmd_idx s1 = 0"
    | "sc \<noteq> KEY_TAB" "c \<noteq> 8" "c \<noteq> 10" "32 \<le> c \<and> cmd_idx s1 < 127" | "sc \<noteq> KEY_TAB" "c \<noteq> 8" "c \<noteq> 10" "\<not> (32 \<le> c \<and> cmd_idx s1 < 127)"
    by blast
  then show ?thesis
  proof cases
    case 1
    have "g_focus s1 = ed_focus (shell_abs s1)" by (simp add: shell_abs_def)
    then show ?thesis unfolding key s1(2) [symmetric] editor using 1 s1(1) by simp
  next
    case 2
    then show ?thesis unfolding key s1(2) [symmetric] editor using run_command_sim [OF s1(1)] by (auto split: if_splits)
  next
    case 3
    then show ?thesis unfolding key s1(2) [symmetric] editor using erase_sim [OF s1(1) 3(3)] by simp
  next
    case 4
    then have "ed_line (shell_abs s1) = []" using len by simp
    then show ?thesis unfolding key s1(2) [symmetric] editor using 4 s1(1) by simp
  next
    case 5
    then show ?thesis unfolding key s1(2) [symmetric] editor using type_sim [OF s1(1), of c] char_range [of sc] by (simp add: c_def)
  next
    case 6
    then show ?thesis unfolding key s1(2) [symmetric] editor using s1(1) by auto
  qed
qed

text \<open>One pulse of a shell that may have been left.\<close>

definition shell_pulse :: "u8 \<Rightarrow> shell \<Rightarrow> shell option" where
  "shell_pulse sc s = (if \<not> g_in_shell s then Some s else handle_key sc s)"

definition editor_pulse :: "u8 \<Rightarrow> editor \<Rightarrow> editor" where
  "editor_pulse sc e = (if \<not> ed_running e then e else editor_step sc e)"

interpretation shell: simulation shell_pulse shell_ok shell_abs editor_pulse
proof unfold_locales
  fix s sc
  assume "shell_ok s"
  moreover have "ed_running (shell_abs s) = g_in_shell s" by (simp add: shell_abs_def)
  ultimately show "\<exists>s'. shell_pulse sc s = Some s' \<and> shell_ok s' \<and> shell_abs s' = editor_pulse sc (shell_abs s)"
    using handle_key_sim [of s sc] by (simp add: shell_pulse_def editor_pulse_def)
qed

lemma stopped_pulses: "\<not> g_in_shell s \<Longrightarrow> fold_opt shell_pulse scs s = Some s"
  by (induction scs) (simp_all add: shell_pulse_def)

lemma sovereign_shell_pulses: "map_option fst (sovereign_shell scs s) = fold_opt shell_pulse scs s"
  by (induction scs arbitrary: s) (simp_all add: shell_pulse_def stopped_pulses split: option.split)

lemma cmd_printable: "shell_ok s \<Longrightarrow> printable_text (cmd_string s)"
  by (simp add: cmd_string_line) (simp add: one_line_printable shell_ok_def)

lemma sint_frame: "sint (f :: u32) = (if unat f < 2 ^ 31 then int (unat f) else int (unat f) - 2 ^ 32)"
proof -
  define u where "u = uint f"
  have u: "0 \<le> u" "u < 4294967296" unfolding u_def using uint_lt2p [of f] by simp_all
  have "signed_take_bit 31 u = (u + 2147483648) mod 4294967296 - 2147483648"
    by (simp add: signed_take_bit_eq_take_bit_shift take_bit_eq_mod)
  moreover have "(u + 2147483648) mod 4294967296 = u - 2147483648" if "2147483648 \<le> u"
  proof -
    have "(u - 2147483648 + 4294967296) mod 4294967296 = (u - 2147483648) mod 4294967296" by (rule mod_add_self2)
    moreover have "(u - 2147483648) mod 4294967296 = u - 2147483648" using u that by (intro mod_pos_pos_trivial) linarith+
    moreover have "u - 2147483648 + 4294967296 = u + 2147483648" by linarith
    ultimately show ?thesis by (simp only:)
  qed
  moreover have "(u + 2147483648) mod 4294967296 = u + 2147483648" if "u < 2147483648"
    using u that by (intro mod_pos_pos_trivial) linarith+
  ultimately have s: "signed_take_bit 31 u = (if u < 2147483648 then u else u - 4294967296)" by simp
  have i: "int (unat f) = u" by (simp add: u_def)
  have "unat f < 2147483648 \<longleftrightarrow> u < 2147483648" unfolding i [symmetric] by linarith
  then have "unat f < 2 ^ 31 \<longleftrightarrow> u < 2147483648" by simp
  with i show ?thesis using s by (simp add: sint_uint u_def [symmetric])
qed

lemma s_at_negative: "k < 0 \<Longrightarrow> s_at k = (if 64 dvd k then Some 0 else None)"
proof -
  assume k: "k < 0"
  then have m: "k smod 64 = - (- k mod 64)" by (simp add: signed_modulo_int_def sgn_if)
  have "0 \<le> - k mod 64" by simp
  then have "0 \<le> k smod 64 \<longleftrightarrow> - k mod 64 = 0" unfolding m by linarith
  moreover have "- k mod 64 = 0 \<longleftrightarrow> 64 dvd k" by (simp add: dvd_eq_mod_eq_0 [symmetric])
  ultimately show ?thesis using m by (simp add: s_at_def Let_def s_tbl_def)
qed

text \<open>The cube needs a frame number that is not negative and does not overflow.\<close>

lemma cube_fails: "k < 0 \<or> 2 ^ 31 \<le> k + 16 \<Longrightarrow> draw_spinning_cube k lock = None"
proof -
  assume k: "k < 0 \<or> 2 ^ 31 \<le> k + 16"
  consider "2 ^ 31 \<le> k + 16" | "k < 0" "\<not> 64 dvd k" | "k < 0" "64 dvd k" using k by blast
  then show ?thesis
  proof cases
    case 1
    then show ?thesis by (simp add: draw_spinning_cube_def int32_def split: option.split)
  next
    case 2
    then show ?thesis by (simp add: draw_spinning_cube_def s_at_negative)
  next
    case 3
    then obtain q where "k = 64 * q" by blast
    then have "k + 16 < 0" "\<not> 64 dvd k + 16" using 3 by presburger+
    then show ?thesis using 3 by (simp add: draw_spinning_cube_def s_at_negative int32_def)
  qed
qed

lemma frame_calls_ok:
  assumes "shell_ok s" "list_all call_ok cube"
  shows "list_all call_ok (draw_panel b cp n m r f @ cube @ [PrintAt (lit ''[PHOENIX]> '') 320 520 c, PrintAt (cmd_string s) 410 520 0x00FFFFFF] @
      (if p then [PrintAt (lit ''_'') x 520 0x0000FF00] else []) @ [SwapBuffers])"
    and "list_all call_ok [DrawRect 0 0 1024 60 0x00080808, PrintAt (lit ''=== CONSENSUS SOVEREIGN WORKSPACE ==='') 10 10 0x0000FFFF,
      DrawRect 0 480 1024 40 0x00080808, PrintAt (lit ''[Sovereign]> '') 10 500 0x0000FF00,
      PrintAt (cmd_string s) 120 500 0x00FFFFFF, SwapBuffers]"
proof -
  have "printable_text (lit ''[PHOENIX]> '')" "printable_text (lit ''_'')"
    "printable_text (lit ''=== CONSENSUS SOVEREIGN WORKSPACE ==='')" "printable_text (lit ''[Sovereign]> '')"
    by code_simp+
  then show "list_all call_ok (draw_panel b cp n m r f @ cube @ [PrintAt (lit ''[PHOENIX]> '') 320 520 c, PrintAt (cmd_string s) 410 520 0x00FFFFFF] @
      (if p then [PrintAt (lit ''_'') x 520 0x0000FF00] else []) @ [SwapBuffers])"
    and "list_all call_ok [DrawRect 0 0 1024 60 0x00080808, PrintAt (lit ''=== CONSENSUS SOVEREIGN WORKSPACE ==='') 10 10 0x0000FFFF,
      DrawRect 0 480 1024 40 0x00080808, PrintAt (lit ''[Sovereign]> '') 10 500 0x0000FF00,
      PrintAt (cmd_string s) 120 500 0x00FFFFFF, SwapBuffers]"
    using cmd_printable [OF assms(1)] assms(2) by (simp_all add: panel_ok)
qed

section \<open>Properties\<close>

text \<open>C8: the shell is a line editor. Whatever keys come, a session never leaves the command array, keeps it
  well formed with a line of at most 127 printable characters, and does what the editor does: printable
  keys append to the line while it is short, backspace removes the last character, Tab moves the focus
  round, and Enter runs the line: a line that begins with \<open>back\<close> ends the session, one that begins with
  \<open>fold\<close> adds a node, and the line is emptied.\<close>
theorem shell_session_refines:
  "\<exists>s rest. sovereign_shell scs (enter_shell focus frame res) = Some (s, rest) \<and> shell_ok s \<and> length (cmd_string s) \<le> 127 \<and>
    shell_abs s = fold editor_pulse scs
      \<lparr>ed_line = [], ed_running = True, ed_focus = focus, ed_nodes = get_active_nodes res\<rparr>"
proof -
  let ?s = "enter_shell focus frame res"
  have ok: "shell_ok ?s" by (simp add: enter_shell_def shell_ok_def one_line_def)
  have abs: "shell_abs ?s = \<lparr>ed_line = [], ed_running = True, ed_focus = focus, ed_nodes = get_active_nodes res\<rparr>"
    by (simp add: enter_shell_def shell_abs_def)
  obtain s where s: "fold_opt shell_pulse scs ?s = Some s" "shell_ok s" "shell_abs s = fold editor_pulse scs (shell_abs ?s)"
    using shell.steps_simulate [OF ok] by blast
  obtain rest where "sovereign_shell scs ?s = Some (s, rest)"
    using s(1) unfolding sovereign_shell_pulses [symmetric] by auto
  moreover have "length (cmd_string s) \<le> 127" using s(2) by (simp add: cmd_string_line) (simp add: shell_ok_def)
  ultimately show ?thesis using s abs by auto
qed

text \<open>A frame is drawn or it is undefined behaviour. On every well-formed screen and state of the shell a frame runs to
  its end, line and cursor included; only the control panel's cube fails, exactly from frame number
  2147483632 on, where the conversion to \<open>int\<close> makes the index into the sine table negative or its sum
  overflows.\<close>
theorem shell_frame_drawn:
  assumes "gfx_ok g" "shell_ok s"
  shows "case shell_frame b cp panel s of
      None \<Rightarrow> panel \<and> 2 ^ 31 \<le> unat (hypercube_frame s) + 16
    | Some calls \<Rightarrow> \<not> (panel \<and> 2 ^ 31 \<le> unat (hypercube_frame s) + 16) \<and>
        (\<exists>g'. run_calls calls g = Some g' \<and> gfx_ok g' \<and> same_shape g g')"
proof -
  let ?f = "unat (hypercube_frame s)"
  have run: "\<exists>g'. run_calls calls g = Some g' \<and> gfx_ok g' \<and> same_shape g g'" if "list_all call_ok calls" for calls
    using screen.steps_total [of g g calls] assms(1) that by (simp add: run_calls_def)
  show ?thesis
  proof (cases "panel")
    case False
    then show ?thesis using run [OF frame_calls_ok(2) [OF assms(2), of "[]"]] by (simp add: shell_frame_def)
  next
    case True
    show ?thesis
    proof (cases "2 ^ 31 \<le> ?f + 16")
      case late: True
      have "sint (hypercube_frame s) < 0 \<or> 2 ^ 31 \<le> sint (hypercube_frame s) + 16"
        using late unat_u32_lt [of "hypercube_frame s"] by (auto simp: sint_frame simp del: of_nat_unat)
      then show ?thesis using True late by (simp add: shell_frame_def cube_fails)
    next
      case early: False
      then have "0 \<le> sint (hypercube_frame s)" "sint (hypercube_frame s) + 16 < 2 ^ 31" by (simp_all add: sint_frame del: of_nat_unat)
      then obtain cube where "draw_spinning_cube (sint (hypercube_frame s))
          (hypercube_frame s mod (60 * phase_lock_divisor) = 0) = Some cube" "list_all call_ok cube"
        using cube_calls by blast
      then show ?thesis
        using True early run [OF frame_calls_ok(1) [OF assms(2)]] by (simp add: shell_frame_def Let_def del: append.simps)
    qed
  qed
qed

lemma shell_frame_drawn_witness:
  "\<exists>calls g'. shell_frame DEFAULT_BUILD \<lparr>cp_width = 32, cp_master_seed = \<lparr>s_hi = 1, s_lo = 2\<rparr>,
        cp_manifold = fst (SubstrateManifold (PhysicalMemory 0x2000000 0x40000000) (\<lambda>_. 0) (\<lambda>_. 0))\<rparr> True
      (enter_shell REGION_CONSOLE 40 (DynamicResourceAllocator 0x40000000)) = Some calls \<and> run_calls calls tiny_screen = Some g'"
proof -
  have "shell_ok (enter_shell f n r)" for f n r by (simp add: enter_shell_def shell_ok_def one_line_def)
  then show ?thesis
    using shell_frame_drawn [where panel = True and b = DEFAULT_BUILD and s = "enter_shell REGION_CONSOLE 40 (DynamicResourceAllocator 0x40000000)"
        and cp = "\<lparr>cp_width = 32, cp_master_seed = \<lparr>s_hi = 1, s_lo = 2\<rparr>,
        cp_manifold = fst (SubstrateManifold (PhysicalMemory 0x2000000 0x40000000) (\<lambda>_. 0) (\<lambda>_. 0))\<rparr>", OF tiny_screen_ok]
    by (auto simp: enter_shell_def split: option.splits)
qed

text \<open>The string helpers are equality and prefix. On the bytes of C strings \<open>kstrcmp\<close> holds exactly for equal
  strings and \<open>kstarts_with\<close> exactly when the second is a prefix of the first.\<close>
theorem string_helpers_correct:
  assumes "cstr_ok s1" "cstr_ok s2"
  shows "(kstrcmp s1 s2 \<longleftrightarrow> s1 = s2) \<and> (kstarts_with s1 s2 \<longleftrightarrow> prefix s2 s1)"
  using kstrcmp_from_eq [OF assms, of 0] kstarts_from_iff [OF assms, of 0]
  by (simp add: kstrcmp_def kstarts_with_def)

lemma string_helpers_correct_witness: "kstarts_with (lit ''folding'') (lit ''fold'') \<and> \<not> kstrcmp (lit ''folding'') (lit ''fold'')"
  using string_helpers_correct [of "lit ''folding''" "lit ''fold''"] by (simp add: lit_def cstr_ok_def)

text \<open>The menu returns with the last arrow pressed. It waits exactly while no Enter has come; at the first
  Enter it selects the panel when the last arrow key before it was Down, else the workspace, and it leaves
  the scancodes after Enter to the shell.\<close>
theorem menu_selects_last_arrow:
  "menu_loop scs 0 =
    (if 0x1C \<notin> set scs then None
     else
       let before = takeWhile (\<lambda>sc. sc \<noteq> 0x1C) scs;
           arrows = filter (\<lambda>sc. sc = KEY_UP \<or> sc = KEY_DOWN) before
       in Some (if arrows \<noteq> [] \<and> last arrows = KEY_DOWN then 1 else 0, drop (length before + 1) scs))"
proof -
  have keys: "KEY_UP \<noteq> 0x1C" "KEY_DOWN \<noteq> 0x1C" "KEY_UP \<noteq> KEY_DOWN" by (simp_all add: KEY_UP_def KEY_DOWN_def)
  have "menu_loop scs sel =
    (if 0x1C \<notin> set scs then None
     else
       let before = takeWhile (\<lambda>sc. sc \<noteq> 0x1C) scs;
           arrows = filter (\<lambda>sc. sc = KEY_UP \<or> sc = KEY_DOWN) before
       in Some (if arrows = [] then sel else if last arrows = KEY_DOWN then 1 else 0, drop (length before + 1) scs))" for sel
    using keys by (induction scs arbitrary: sel) (auto simp: Let_def)
  then show ?thesis by (simp add: Let_def)
qed

end
