(* ===== verification/Timer.thy ===== *)
theory Timer
  imports Prelude
begin

text \<open>
  \<open>Timer::initialize\<close> of \<open>src/hal/timer.hpp\<close> as the list of port writes it makes, port and byte; a zero
  frequency divides by zero.
\<close>

unbundle bit_operations_syntax

type_synonym port_write = "u16 \<times> u8"

definition timer_divisor :: "u32 \<Rightarrow> u32" where
  "timer_divisor frequency = 1193180 div frequency"

definition timer_initialize :: "u32 \<Rightarrow> port_write list option" where
  "timer_initialize frequency =
    (if frequency = 0 then None
     else let divisor = timer_divisor frequency
          in Some [(0x43, 0x36), (0x40, ucast (divisor AND 0xFF)), (0x40, ucast (drop_bit 8 divisor AND 0xFF))])"

text \<open>The reload value the two bytes on channel 0 make up.\<close>

definition reload_of :: "u8 \<Rightarrow> u8 \<Rightarrow> nat" where
  "reload_of lo hi = unat lo + 256 * unat hi"

lemma byte_masks: "(0xFF :: u32) = mask 8"
  by (simp add: mask_eq_decr_exp)

lemma reload_bytes: "reload_of (ucast (d AND 0xFF)) (ucast (drop_bit 8 d AND 0xFF)) = unat (d :: u32) mod 65536"
proof -
  have "unat (ucast (x AND 0xFF :: u32) :: u8) = unat x mod 256" for x :: u32
    unfolding byte_masks take_bit_eq_mask [symmetric]
    by (simp add: unsigned_ucast_eq unsigned_take_bit_eq take_bit_nat_def)
  then have "reload_of (ucast (d AND 0xFF)) (ucast (drop_bit 8 d AND 0xFF)) =
      unat d mod 256 + 256 * (unat d div 256 mod 256)"
    by (simp add: reload_of_def drop_bit_eq_div unat_div)
  then show ?thesis using mod_mult2_eq [of "unat d" 256 256] by simp
qed

section \<open>Properties\<close>

text \<open>The timer is programmed in square wave mode with the quotient of the base clock and the frequency
  for every frequency from 19 Hz on, so the kernel's 100 Hz gives 11931; below 19 Hz the quotient does
  not fit the counter's 16 bits and only its low half is programmed.\<close>
theorem timer_reload:
  assumes "frequency \<noteq> 0"
  shows "\<exists>lo hi. timer_initialize frequency = Some [(0x43, 0x36), (0x40, lo), (0x40, hi)] \<and>
    reload_of lo hi = 1193180 div unat frequency mod 65536 \<and>
    (reload_of lo hi = 1193180 div unat frequency \<longleftrightarrow> 19 \<le> unat frequency)"
proof -
  have d: "unat (timer_divisor frequency) = 1193180 div unat frequency"
    by (simp add: timer_divisor_def unat_div)
  have "1193180 div unat frequency < 65536 \<longleftrightarrow> 19 \<le> unat frequency"
  proof
    assume "19 \<le> unat frequency"
    then have "1193180 div unat frequency \<le> 1193180 div 19" by (rule div_le_mono2 [rotated]) simp
    then show "1193180 div unat frequency < 65536" by simp
  next
    assume a: "1193180 div unat frequency < 65536"
    show "19 \<le> unat frequency"
    proof (rule ccontr)
      assume "\<not> 19 \<le> unat frequency"
      moreover have "unat frequency > 0" using assms by (simp add: unat_gt_0)
      ultimately have "1193180 div 18 \<le> 1193180 div unat frequency" by (intro div_le_mono2) simp_all
      then show False using a by simp
    qed
  qed
  then have "1193180 div unat frequency mod 65536 = 1193180 div unat frequency \<longleftrightarrow> 19 \<le> unat frequency"
    by (metis mod_less mod_less_divisor zero_less_numeral)
  then show ?thesis using assms reload_bytes [of "timer_divisor frequency"] d
    by (simp add: timer_initialize_def Let_def)
qed

lemma timer_reload_witness:
  "\<exists>lo hi. timer_initialize 100 = Some [(0x43, 0x36), (0x40, lo), (0x40, hi)] \<and> reload_of lo hi = 11931"
  using timer_reload [of 100] by simp

end
