(* ===== verification/Idt.thy ===== *)
theory Idt
  imports AtomStore Serial Timer
begin

text \<open>
  Interrupts and faults: \<open>src/hal/idt.hpp\<close> and \<open>src/hal/idt.cpp\<close>. The assembly entry points are their
  addresses; the interrupt controller and the \<open>lidt\<close> register are the writes the code makes. A handler
  that ends in \<open>while(1)\<close> has the outcome \<open>Halted\<close> with what it printed.
\<close>

unbundle bit_operations_syntax

section \<open>Descriptor table\<close>

record idt_entry =
  offset_low :: u16
  selector :: u16
  ist :: u8
  type_attr :: u8
  offset_mid :: u16
  offset_high :: u32
  gate_reserved :: u32

record idt_pointer =
  idt_limit :: u16
  idt_base :: u64

record entry_points =
  exception_handler_ud :: u64
  exception_handler_nm :: u64
  exception_handler_df :: u64
  exception_handler_gp :: u64
  timer_interrupt_handler :: u64

record fault_state =
  idt :: "idt_entry list"
  idt_ptr :: idt_pointer
  lidt_loaded :: "idt_pointer option"
  g_temporal_pulse :: u64
  g_fuzz_active :: u8
  g_fault_detected :: u8
  pic_writes :: "port_write list"

definition zero_gate :: idt_entry where
  "zero_gate = \<lparr>offset_low = 0, selector = 0, ist = 0, type_attr = 0, offset_mid = 0, offset_high = 0,
     gate_reserved = 0\<rparr>"

text \<open>The globals before any code runs.\<close>

definition fault_state0 :: fault_state where
  "fault_state0 = \<lparr>idt = replicate 256 zero_gate, idt_ptr = \<lparr>idt_limit = 0, idt_base = 0\<rparr>,
     lidt_loaded = None, g_temporal_pulse = 0, g_fuzz_active = 0, g_fault_detected = 0, pic_writes = []\<rparr>"

definition handle_timer_pulse :: "fault_state \<Rightarrow> fault_state" where
  "handle_timer_pulse s = s\<lparr>g_temporal_pulse := g_temporal_pulse s + 1\<rparr>"

definition init_pic :: "fault_state \<Rightarrow> fault_state" where
  "init_pic s = s\<lparr>pic_writes := pic_writes s @
     [(0x20, 0x11), (0xA0, 0x11), (0x21, 0x20), (0xA1, 0x28), (0x21, 0x04), (0xA1, 0x02),
      (0x21, 0x01), (0xA1, 0x01), (0x21, 0xFE), (0xA1, 0xFF)]\<rparr>"

definition gate_for :: "u64 \<Rightarrow> idt_entry" where
  "gate_for handler =
    \<lparr>offset_low = ucast (handler AND 0xFFFF), selector = 0x08, ist = 0, type_attr = 0x8E,
     offset_mid = ucast (drop_bit 16 handler AND 0xFFFF),
     offset_high = ucast (drop_bit 32 handler AND 0xFFFFFFFF), gate_reserved = 0\<rparr>"

definition set_idt_gate :: "nat \<Rightarrow> u64 \<Rightarrow> fault_state \<Rightarrow> fault_state option" where
  "set_idt_gate n handler s =
    (if n < length (idt s) then Some (s\<lparr>idt := (idt s)[n := gate_for handler]\<rparr>) else None)"

fun set_gates :: "(nat \<times> u64) list \<Rightarrow> fault_state \<Rightarrow> fault_state option" where
  "set_gates [] s = Some s"
| "set_gates ((n, h) # gs) s = (case set_idt_gate n h s of None \<Rightarrow> None | Some s' \<Rightarrow> set_gates gs s')"

text \<open>\<open>idt_addr\<close> is \<open>&idt\<close>.\<close>

definition init_idt :: "entry_points \<Rightarrow> u64 \<Rightarrow> fault_state \<Rightarrow> fault_state option" where
  "init_idt e idt_addr s =
    (let ptr = \<lparr>idt_limit = 256 * 16 - 1, idt_base = idt_addr\<rparr>
     in case set_gates [(6, exception_handler_ud e), (7, exception_handler_nm e), (8, exception_handler_df e),
            (13, exception_handler_gp e), (32, timer_interrupt_handler e)] (s\<lparr>idt_ptr := ptr\<rparr>) of
          None \<Rightarrow> None
        | Some s' \<Rightarrow> (let s'' = init_pic s' in Some (s''\<lparr>lidt_loaded := Some (idt_ptr s'')\<rparr>)))"

section \<open>Faults\<close>

datatype fault_outcome =
    Resumed fault_state u64 u64
  | Halted fault_state uart

definition dump_registers :: "u64 \<Rightarrow> u64 \<Rightarrow> u64 \<Rightarrow> uart \<Rightarrow> uart" where
  "dump_registers rip rax rbx u =
    raw_print_hex rbx (raw_print (lit '' RBX: '') (raw_print_hex rax (raw_print (lit '' RAX: '')
      (raw_print_hex rip (raw_print (lit ''\<newline>!!! SOVEREIGN FAULT !!!\<newline> RIP: '') u)))))"

text \<open>\<open>Resumed s rip rax\<close> is the state and registers the fault returns to; \<open>rbx\<close> is never changed.\<close>

definition resolve_hic :: "mem \<Rightarrow> manifold option \<Rightarrow> uart \<Rightarrow> u64 \<Rightarrow> u64 \<Rightarrow> u64 \<Rightarrow> fault_state \<Rightarrow> fault_outcome" where
  "resolve_hic m g_manifold_instance u rip rax rbx s =
    (if g_fuzz_active s \<noteq> 0 then Resumed (s\<lparr>g_fault_detected := 1\<rparr>) (rip + 2) rax
     else if m (unat rip) = 0x0F \<and> m (unat (rip + 1)) = 0xFF then
       (case g_manifold_instance of
          None \<Rightarrow> Resumed s (rip + 2) 0x0A
        | Some manifold \<Rightarrow>
            let intent = rax XOR rbx; res = holographic_fetch manifold intent
            in Resumed s (rip + 2) (v_lo res))
     else Halted s (dump_registers rip rax rbx u))"

definition handle_gp_fault :: "u64 \<Rightarrow> uart \<Rightarrow> fault_state \<Rightarrow> fault_outcome" where
  "handle_gp_fault rip u s = Halted s (raw_print_hex rip (raw_print (lit ''\<newline>[GP] Fault at '') u))"

definition handle_nm_fault :: "u64 \<Rightarrow> uart \<Rightarrow> fault_state \<Rightarrow> fault_outcome" where
  "handle_nm_fault rip u s = Halted s (raw_print_hex rip (raw_print (lit ''\<newline>[NM] SSE Unavailable at '') u))"

section \<open>What the processor makes of a table\<close>

text \<open>A present gate leads to the address its three offset fields make up.\<close>

definition gate_target :: "idt_entry \<Rightarrow> u64 option" where
  "gate_target e =
    (if type_attr e AND 0x80 \<noteq> 0
     then Some (ucast (offset_low e) OR push_bit 16 (ucast (offset_mid e)) OR push_bit 32 (ucast (offset_high e)))
     else None)"

lemma gate_roundtrip: "gate_target (gate_for h) = Some h"
proof -
  have m: "(0xFFFF :: u64) = mask 16" "(0xFFFFFFFF :: u64) = mask 32" by (simp_all add: mask_eq_decr_exp)
  have "ucast (ucast (h AND 0xFFFF) :: u16) OR push_bit 16 (ucast (ucast (drop_bit 16 h AND 0xFFFF) :: u16)) OR
      push_bit 32 (ucast (ucast (drop_bit 32 h AND 0xFFFFFFFF) :: u32)) = h"
    unfolding m
  proof (rule bit_word_eqI)
    fix n assume "n < LENGTH(64)"
    then have "n < 16 \<or> 16 \<le> n \<and> n < 32 \<or> 32 \<le> n \<and> n < 64" by auto
    then show "bit (ucast (ucast (h AND mask 16) :: u16) OR push_bit 16 (ucast (ucast (drop_bit 16 h AND mask 16) :: u16)) OR
        push_bit 32 (ucast (ucast (drop_bit 32 h AND mask 32) :: u32)) :: u64) n = bit h n"
      by (elim disjE) (auto simp: bit_simps)
  qed
  then show ?thesis by (simp add: gate_target_def gate_for_def)
qed

lemma set_gates_idt:
  "list_all (\<lambda>(n, h). n < length (idt s)) gs \<Longrightarrow>
    set_gates gs s = Some (s\<lparr>idt := fold (\<lambda>(n, h) t. t[n := gate_for h]) gs (idt s)\<rparr>)"
proof (induction gs arbitrary: s)
  case Nil
  show ?case by (cases s) simp
next
  case (Cons g gs)
  then show ?case by (cases g) (simp add: set_idt_gate_def)
qed

lemma raw_print_sent [simp]:
  "sent (raw_print t u) = sent u @ t" "sent (raw_print_hex v u) = sent u @ hex_from 16 v"
  by (simp_all add: raw_print_def raw_print_hex_def fold_raw_putc)

section \<open>Properties\<close>


text \<open>The fault handler of the emergent instruction reads the manifold: after writes to at most 1024
  blocks of a fresh manifold, it resumes behind the instruction with the low word last written at the
  address \<open>rax XOR rbx\<close>. Without a manifold the result is 10; in fuzzing mode any two bytes are skipped;
  and on any other instruction it halts after printing rip, rax and rbx, whatever the line does.\<close>
theorem hic_resolves_manifold:
  assumes "card ((\<lambda>(a, v). vblock_of a) ` set ops) \<le> 1024" "last_put ops (unat (rax XOR rbx) div 16) = Some v"
  shows "\<exists>mf. puts_with put_atom (fst (SubstrateManifold g pool0 map0)) ops = Some mf \<and>
    (g_fuzz_active s = 0 \<longrightarrow> m (unat rip) = 0x0F \<and> m (unat (rip + 1)) = 0xFF \<longrightarrow>
      resolve_hic m (Some mf) u rip rax rbx s = Resumed s (rip + 2) (v_lo v) \<and>
      resolve_hic m None u rip rax rbx s = Resumed s (rip + 2) 10) \<and>
    (g_fuzz_active s \<noteq> 0 \<longrightarrow> resolve_hic m mo u rip rax rbx s = Resumed (s\<lparr>g_fault_detected := 1\<rparr>) (rip + 2) rax) \<and>
    (g_fuzz_active s = 0 \<longrightarrow> \<not> (m (unat rip) = 0x0F \<and> m (unat (rip + 1)) = 0xFF) \<longrightarrow>
      (\<exists>u'. resolve_hic m mo u rip rax rbx s = Halted s u' \<and>
        sent u' = sent u @ lit ''\<newline>!!! SOVEREIGN FAULT !!!\<newline> RIP: '' @ hex_from 16 rip @ lit '' RAX: '' @
          hex_from 16 rax @ lit '' RBX: '' @ hex_from 16 rbx))"
proof -
  obtain mf where mf: "puts_with put_atom (fst (SubstrateManifold g pool0 map0)) ops = Some mf"
    "holographic_fetch mf (rax XOR rbx) = v"
    using puts_fresh [OF assms(1)] assms(2) by metis
  then show ?thesis
    by (intro exI [of _ mf]) (simp add: resolve_hic_def dump_registers_def Let_def)
qed

lemma hic_resolves_manifold_witness:
  "\<exists>mf. puts_with put_atom (fst (SubstrateManifold (PhysicalMemory 0x2000000 0x40000000) (\<lambda>_. 0) (\<lambda>_. 0)))
      [(0x1230, val128 5 7)] = Some mf \<and>
    resolve_hic (\<lambda>i. if i = 100 then 0x0F else 0xFF) (Some mf) \<lparr>line_status = (\<lambda>_. 0), status_reads = 0, sent = []\<rparr>
      100 0x1000 0x0234 fault_state0 = Resumed fault_state0 102 7"
proof -
  have "card ((\<lambda>(a, v). vblock_of a) ` set [(0x1230, val128 5 7)]) \<le> 1024"
    "last_put [(0x1230, val128 5 7)] (unat ((0x1000 :: u64) XOR 0x0234) div 16) = Some (val128 5 7)"
    by (simp_all add: last_put_def)
  from hic_resolves_manifold [OF this, of "PhysicalMemory 0x2000000 0x40000000" "\<lambda>_. 0" "\<lambda>_. 0" fault_state0
      "\<lambda>i. if i = 100 then 0x0F else 0xFF" 100 "\<lparr>line_status = (\<lambda>_. 0), status_reads = 0, sent = []\<rparr>" None]
  show ?thesis by (auto simp: fault_state0_def)
qed

end
