(* ===== verification/Pci.thy ===== *)
theory Pci
  imports Serial
begin

text \<open>
  \<open>PCIController\<close> of \<open>src/hal/pci.hpp\<close>. The configuration space behind the ports 0xCF8 and 0xCFC is the
  function from the address word written to the data word read. Console output of \<open>scan_bus\<close> is the
  text it prints.
\<close>

unbundle bit_operations_syntax

section \<open>Devices\<close>

record pci_device =
  pd_bus :: u8
  pd_slot :: u8
  pd_func :: u8
  pd_vendor :: u16
  pd_device :: u16
  pd_base_class :: u8
  pd_sub_class :: u8
  pd_prog_if :: u8
  pd_bar5 :: u64

definition pci_address :: "u8 \<Rightarrow> u8 \<Rightarrow> u8 \<Rightarrow> u8 \<Rightarrow> u32" where
  "pci_address bus slot func offset =
    push_bit 16 (ucast bus) OR push_bit 11 (ucast slot) OR push_bit 8 (ucast func) OR
    ucast (offset AND 0xFC) OR 0x80000000"

definition pci_config_read :: "(u32 \<Rightarrow> u32) \<Rightarrow> u8 \<Rightarrow> u8 \<Rightarrow> u8 \<Rightarrow> u8 \<Rightarrow> u32" where
  "pci_config_read cfg bus slot func offset = cfg (pci_address bus slot func offset)"

definition get_device :: "(u32 \<Rightarrow> u32) \<Rightarrow> u8 \<Rightarrow> u8 \<Rightarrow> u8 \<Rightarrow> pci_device" where
  "get_device cfg bus slot func =
    (let dev = \<lparr>pd_bus = bus, pd_slot = slot, pd_func = func, pd_vendor = 0, pd_device = 0,
                pd_base_class = 0, pd_sub_class = 0, pd_prog_if = 0, pd_bar5 = 0\<rparr>;
         d0 = pci_config_read cfg bus slot func 0;
         dev = dev\<lparr>pd_vendor := ucast (d0 AND 0xFFFF), pd_device := ucast (drop_bit 16 d0 AND 0xFFFF)\<rparr>
     in if pd_vendor dev = 0xFFFF then dev
        else
          let d8 = pci_config_read cfg bus slot func 8;
              d24 = pci_config_read cfg bus slot func 0x24
          in dev\<lparr>pd_base_class := ucast (drop_bit 24 d8 AND 0xFF),
                 pd_sub_class := ucast (drop_bit 16 d8 AND 0xFF),
                 pd_prog_if := ucast (drop_bit 8 d8 AND 0xFF),
                 pd_bar5 := ucast (d24 AND NOT 0xF)\<rparr>)"

section \<open>Scanning\<close>

text \<open>The places the two loops visit, in order.\<close>

definition scan_order :: "(u8 \<times> u8) list" where
  "scan_order = concat (map (\<lambda>bus. map (\<lambda>slot. (word_of_nat bus, word_of_nat slot)) [0..<32]) [0..<8])"

definition scan_line :: "pci_device \<Rightarrow> cstr" where
  "scan_line dev =
    lit ''[PCI] '' @ hex_from 16 (ucast (pd_vendor dev)) @ lit '':'' @ hex_from 16 (ucast (pd_device dev)) @
    lit '' | Class '' @ hex_from 16 (ucast (pd_base_class dev)) @ lit ''.'' @
    hex_from 16 (ucast (pd_sub_class dev)) @
    (if pd_base_class dev = 0x01 \<and> pd_sub_class dev = 0x06 then lit '' <-- [AHCI STORAGE]'' else []) @
    (if pd_base_class dev = 0x02 then lit '' <-- [NETWORK]'' else []) @ lit ''\<newline>''"

fun scan_places :: "(u32 \<Rightarrow> u32) \<Rightarrow> (u8 \<times> u8) list \<Rightarrow> cstr" where
  "scan_places cfg [] = []"
| "scan_places cfg ((bus, slot) # ps) =
    (let dev = get_device cfg bus slot 0
     in (if pd_vendor dev = 0xFFFF then [] else scan_line dev) @ scan_places cfg ps)"

definition scan_bus :: "(u32 \<Rightarrow> u32) \<Rightarrow> cstr" where
  "scan_bus cfg = lit ''\<newline>[PCI] Initiating Hardware Scan...\<newline>'' @ scan_places cfg scan_order"

fun find_ahci_in :: "(u32 \<Rightarrow> u32) \<Rightarrow> (u8 \<times> u8) list \<Rightarrow> u64" where
  "find_ahci_in cfg [] = 0"
| "find_ahci_in cfg ((bus, slot) # ps) =
    (let dev = get_device cfg bus slot 0
     in if pd_base_class dev = 0x01 \<and> pd_sub_class dev = 0x06 then pd_bar5 dev else find_ahci_in cfg ps)"

definition find_ahci_base :: "(u32 \<Rightarrow> u32) \<Rightarrow> u64" where
  "find_ahci_base cfg = find_ahci_in cfg scan_order"

section \<open>Addresses\<close>

lemma pci_address_fields:
  assumes "slot < 32" "func < 8"
  shows "ucast (drop_bit 16 (pci_address bus slot func offset)) = bus"
    "ucast (drop_bit 11 (pci_address bus slot func offset) AND 0x1F) = slot"
    "ucast (drop_bit 8 (pci_address bus slot func offset) AND 0x7) = func"
    "ucast (pci_address bus slot func offset) = offset AND 0xFC"
    "bit (pci_address bus slot func offset) 31"
proof -
  have s: "\<not> bit slot n" if "5 \<le> n" for n
    using high_bits_clear [OF _ that, of slot] assms(1) by (simp add: word_less_nat_alt)
  have f: "\<not> bit func n" if "3 \<le> n" for n
    using high_bits_clear [OF _ that, of func] assms(2) by (simp add: word_less_nat_alt)
  have s5: "bit slot n \<Longrightarrow> n < 5" and f3: "bit func n \<Longrightarrow> n < 3" for n using s f not_le by blast+
  have c: "(0x80000000 :: u32) = push_bit 31 1" "(0x1F :: u32) = mask 5" "(0x7 :: u32) = mask 3"
    by (simp_all add: mask_eq_decr_exp push_bit_eq_mult)
  have off: "\<not> bit (offset AND 0xFC) n" if "8 \<le> n" for n
    using that bit_imp_le_length [of "offset AND 0xFC" n] by auto
  show "ucast (drop_bit 16 (pci_address bus slot func offset)) = bus"
    by (rule bit_word_eqI) (auto simp: pci_address_def c bit_simps s f off simp del: push_bit_of_1)
  show "ucast (drop_bit 11 (pci_address bus slot func offset) AND 0x1F) = slot"
    by (rule bit_word_eqI)
      (auto simp: pci_address_def c bit_simps s f off simp del: push_bit_of_1 dest: s5)
  show "ucast (drop_bit 8 (pci_address bus slot func offset) AND 0x7) = func"
    by (rule bit_word_eqI)
      (auto simp: pci_address_def c bit_simps s f off simp del: push_bit_of_1 dest: f3)
  show "ucast (pci_address bus slot func offset) = offset AND 0xFC"
    by (rule bit_word_eqI) (auto simp: pci_address_def c bit_simps simp del: push_bit_of_1)
  show "bit (pci_address bus slot func offset) 31"
    by (simp add: pci_address_def c bit_simps del: push_bit_of_1)
qed

definition is_ahci :: "pci_device \<Rightarrow> bool" where
  "is_ahci dev \<longleftrightarrow> pd_base_class dev = 1 \<and> pd_sub_class dev = 6"

lemma find_ahci_in_eq:
  "find_ahci_in cfg ps =
    (case find (\<lambda>(bus, slot). is_ahci (get_device cfg bus slot 0)) ps of
       None \<Rightarrow> 0 | Some (bus, slot) \<Rightarrow> pd_bar5 (get_device cfg bus slot 0))"
proof (induction ps)
  case (Cons p ps)
  obtain bus slot where p: "p = (bus, slot)" by fastforce
  have "find_ahci_in cfg (p # ps) =
      (if is_ahci (get_device cfg bus slot 0) then pd_bar5 (get_device cfg bus slot 0) else find_ahci_in cfg ps)"
    by (simp add: p is_ahci_def Let_def)
  then show ?case using Cons by (simp add: p)
qed simp

lemma scan_order_nth: "i < 256 \<Longrightarrow> scan_order ! i = (word_of_nat (i div 32), word_of_nat (i mod 32))"
proof -
  assume "i < 256"
  moreover have "list_all (\<lambda>i. scan_order ! i = (word_of_nat (i div 32), word_of_nat (i mod 32))) [0..<256]"
    by code_simp
  ultimately show ?thesis by (simp add: list_all_iff)
qed

lemma length_scan_order: "length scan_order = 256"
  by code_simp

lemma absent_not_ahci:
  "cfg (pci_address bus slot 0 0) AND 0xFFFF = 0xFFFF \<Longrightarrow> \<not> is_ahci (get_device cfg bus slot 0)"
  by (simp add: is_ahci_def get_device_def pci_config_read_def Let_def)

lemma bar5_aligned: "pd_bar5 (get_device cfg bus slot func) AND 0xF = 0"
proof -
  have "(ucast (x AND NOT 0xF) :: u64) AND 0xF = 0" for x :: u32
  proof -
    have "(0xF :: u32) = mask 4" "(0xF :: u64) = mask 4" by (simp_all add: mask_eq_decr_exp)
    then show ?thesis by (intro bit_word_eqI) (auto simp: bit_simps)
  qed
  then show ?thesis by (simp add: get_device_def Let_def)
qed

section \<open>Properties\<close>

definition ahci_at :: "(u32 \<Rightarrow> u32) \<Rightarrow> nat \<Rightarrow> bool" where
  "ahci_at cfg i \<longleftrightarrow> is_ahci (get_device cfg (word_of_nat (i div 32)) (word_of_nat (i mod 32)) 0)"

lemma find_scan_order:
  "find P scan_order = None \<longleftrightarrow> (\<forall>i<256. \<not> P (scan_order ! i))"
  "find P scan_order = Some x \<longleftrightarrow>
    (\<exists>i<256. P (scan_order ! i) \<and> x = scan_order ! i \<and> (\<forall>j<i. \<not> P (scan_order ! j)))"
  unfolding length_scan_order [symmetric] find_None_iff in_set_conv_nth by (blast, rule find_Some_iff)

lemma ahci_at_place:
  "i < 256 \<Longrightarrow> (case scan_order ! i of (bus, slot) \<Rightarrow> is_ahci (get_device cfg bus slot 0)) \<longleftrightarrow> ahci_at cfg i"
  by (subst scan_order_nth) (assumption, simp only: ahci_at_def prod.case)

lemma find_ahci_base_found:
  assumes "i < 256" "ahci_at cfg i"
  shows "\<exists>i<256. ahci_at cfg i \<and> (\<forall>j<i. \<not> ahci_at cfg j) \<and>
    find_ahci_base cfg = pd_bar5 (get_device cfg (word_of_nat (i div 32)) (word_of_nat (i mod 32)) 0)"
proof -
  define P where "P = (\<lambda>(bus, slot). is_ahci (get_device cfg bus slot 0))"
  have P: "P (scan_order ! i) \<longleftrightarrow> ahci_at cfg i" if "i < 256" for i
    unfolding P_def by (rule ahci_at_place [OF that])
  obtain x where x: "find P scan_order = Some x"
    using find_scan_order(1) [of P] assms P [of i] by (cases "find P scan_order") blast+
  then obtain k where k: "k < 256" "P (scan_order ! k)" "x = scan_order ! k" "\<forall>j<k. \<not> P (scan_order ! j)"
    unfolding find_scan_order(2) by blast
  have "find_ahci_base cfg = pd_bar5 (get_device cfg (word_of_nat (k div 32)) (word_of_nat (k mod 32)) 0)"
    unfolding find_ahci_base_def find_ahci_in_eq P_def [symmetric] x option.case k(3) scan_order_nth [OF k(1)]
    by (simp only: prod.case)
  moreover have "\<forall>j<k. \<not> ahci_at cfg j" using k(1,4) P by (meson less_trans)
  ultimately show ?thesis using k(1,2) P by blast
qed

lemma find_ahci_base_none: "\<forall>i<256. \<not> ahci_at cfg i \<Longrightarrow> find_ahci_base cfg = 0"
  unfolding find_ahci_base_def find_ahci_in_eq
  using find_scan_order(1) [of "\<lambda>(bus, slot). is_ahci (get_device cfg bus slot 0)"] ahci_at_place [of _ cfg]
  by (metis (no_types, lifting) option.case(1))

text \<open>The disk the kernel boots from is the AHCI controller with the lowest bus and then the lowest slot
  among function 0 of buses 0 to 7, never an absent device, and its register base is a multiple of 16;
  without one the result is 0. Every configuration read goes to a word that decodes to the bus, slot,
  function and aligned register asked for, with the enable bit set.\<close>
theorem find_ahci_base_first:
  shows "((\<exists>i<256. ahci_at cfg i) \<longrightarrow>
      (\<exists>i<256. ahci_at cfg i \<and> (\<forall>j<i. \<not> ahci_at cfg j) \<and>
         cfg (pci_address (word_of_nat (i div 32)) (word_of_nat (i mod 32)) 0 0) AND 0xFFFF \<noteq> 0xFFFF \<and>
         find_ahci_base cfg = pd_bar5 (get_device cfg (word_of_nat (i div 32)) (word_of_nat (i mod 32)) 0) \<and>
         find_ahci_base cfg AND 0xF = 0)) \<and>
    ((\<forall>i<256. \<not> ahci_at cfg i) \<longrightarrow> find_ahci_base cfg = 0) \<and>
    (slot < 32 \<longrightarrow> func < 8 \<longrightarrow>
      ucast (drop_bit 16 (pci_address bus slot func offset)) = bus \<and>
      ucast (drop_bit 11 (pci_address bus slot func offset) AND 0x1F) = slot \<and>
      ucast (drop_bit 8 (pci_address bus slot func offset) AND 0x7) = func \<and>
      ucast (pci_address bus slot func offset) = offset AND 0xFC \<and> bit (pci_address bus slot func offset) 31)"
proof (intro conjI impI)
  assume "\<exists>i<256. ahci_at cfg i"
  then obtain i where i: "i < 256" "ahci_at cfg i" "\<forall>j<i. \<not> ahci_at cfg j"
    "find_ahci_base cfg = pd_bar5 (get_device cfg (word_of_nat (i div 32)) (word_of_nat (i mod 32)) 0)"
    using find_ahci_base_found by blast
  moreover have "cfg (pci_address (word_of_nat (i div 32)) (word_of_nat (i mod 32)) 0 0) AND 0xFFFF \<noteq> 0xFFFF"
    using absent_not_ahci i(2) unfolding ahci_at_def by blast
  ultimately show "\<exists>i<256. ahci_at cfg i \<and> (\<forall>j<i. \<not> ahci_at cfg j) \<and>
         cfg (pci_address (word_of_nat (i div 32)) (word_of_nat (i mod 32)) 0 0) AND 0xFFFF \<noteq> 0xFFFF \<and>
         find_ahci_base cfg = pd_bar5 (get_device cfg (word_of_nat (i div 32)) (word_of_nat (i mod 32)) 0) \<and>
         find_ahci_base cfg AND 0xF = 0"
    using bar5_aligned by (intro exI [of _ i]) simp
next
  assume "\<forall>i<256. \<not> ahci_at cfg i"
  then show "find_ahci_base cfg = 0"
    by (rule find_ahci_base_none)
qed (simp_all add: pci_address_fields)

text \<open>A machine with a network card in slot 3 and AHCI controllers in slots 5 and 9 of bus 0.\<close>

definition example_pci :: "u32 \<Rightarrow> u32" where
  "example_pci a =
    (if a = pci_address 0 3 0 0 \<or> a = pci_address 0 5 0 0 \<or> a = pci_address 0 9 0 0 then 0x29228086
     else if a = pci_address 0 3 0 8 then 0x02000000
     else if a = pci_address 0 5 0 8 \<or> a = pci_address 0 9 0 8 then 0x01060100
     else if a = pci_address 0 5 0 0x24 then 0xFEBF1004
     else if a = pci_address 0 9 0 0x24 then 0xFEBF2000
     else 0xFFFFFFFF)"

lemma find_ahci_base_first_witness: "find_ahci_base example_pci = 0xFEBF1000"
proof -
  have at5: "ahci_at example_pci 5" by code_simp
  have below: "list_all (\<lambda>j. \<not> ahci_at example_pci j) [0..<5]" by code_simp
  obtain i where i: "ahci_at example_pci i" "\<forall>j<i. \<not> ahci_at example_pci j"
    "find_ahci_base example_pci = pd_bar5 (get_device example_pci (word_of_nat (i div 32)) (word_of_nat (i mod 32)) 0)"
    using find_ahci_base_first [of example_pci 0 0 0 0] at5 by force
  have "i = 5"
    using i(1,2) at5 below by (metis atLeastLessThan_iff list_all_iff nat_neq_iff not_le_imp_less set_upt zero_le)
  moreover have "pd_bar5 (get_device example_pci 0 5 0) = 0xFEBF1000" by code_simp
  ultimately show ?thesis using i(3) by simp
qed

end
