(* ===== verification/Ahci.thy ===== *)
theory Ahci
  imports Serial PhysMem
begin

text \<open>
  \<open>AHCIDriver\<close> of \<open>src/hal/ahci.hpp\<close>: the port registers the driver writes, its structures in physical
  memory byte by byte, and what the controller finds there. The values the hardware gives for the
  registers the driver polls are functions of the read number; a poll that never ends is \<open>None\<close>.
\<close>

unbundle bit_operations_syntax

section \<open>Registers\<close>

record hba_port =
  port_clb :: u32
  port_clbu :: u32
  port_fb :: u32
  port_fbu :: u32
  port_cmd :: u32
  port_ssts :: u32

record ahci_driver =
  base_addr :: u64
  active_port :: "nat option"
  cmd_list :: u64
  cmd_table :: u64
  fis_base :: u64

record ahci_hw =
  hba_ghc :: u32
  hba_pi :: u32
  hba_ports :: "nat \<Rightarrow> hba_port"
  phys_pmm :: phys_mem
  phys_bytes :: mem
  ahci_console :: cstr

text \<open>The members \<open>cmd_list_\<close>, \<open>cmd_table_\<close> and \<open>fis_base_\<close> are not initialised by the constructor.\<close>

definition AHCIDriver :: "u64 \<Rightarrow> u64 \<Rightarrow> u64 \<Rightarrow> u64 \<Rightarrow> ahci_driver" where
  "AHCIDriver base cl0 ct0 fb0 =
    \<lparr>base_addr = base, active_port = None, cmd_list = cl0, cmd_table = ct0, fis_base = fb0\<rparr>"

definition get_port :: "ahci_driver \<Rightarrow> nat \<Rightarrow> u64" where
  "get_port d n = base_addr d + 0x100 + word_of_nat n * 0x80"

section \<open>Initialisation\<close>

definition wait_stopped :: "(nat \<Rightarrow> u32) \<Rightarrow> nat option" where
  "wait_stopped cmd = poll_until (\<lambda>k. \<not> (bit (cmd k) 15 \<or> bit (cmd k) 14)) 0"

definition TABLE_BYTES :: u64 where "TABLE_BYTES = 144"

definition setup_port :: "(nat \<Rightarrow> u32) \<Rightarrow> nat \<Rightarrow> ahci_driver \<times> ahci_hw \<Rightarrow> (ahci_driver \<times> ahci_hw) option" where
  "setup_port polls n = (\<lambda>(d, hw).
    let p = hba_ports hw n;
        p = p\<lparr>port_cmd := port_cmd p AND NOT (push_bit 0 1)\<rparr>;
        p = p\<lparr>port_cmd := port_cmd p AND NOT (push_bit 4 1)\<rparr>
    in case wait_stopped polls of
         None \<Rightarrow> None
       | Some _ \<Rightarrow>
           let (cl, pmm) = allocate (phys_pmm hw) 1024;
               m = kmemset (phys_bytes hw) (unat cl) 0 1024;
               p = p\<lparr>port_clb := ucast cl, port_clbu := 0\<rparr>;
               (fb, pmm) = allocate pmm 256;
               m = kmemset m (unat fb) 0 256;
               p = p\<lparr>port_fb := ucast fb, port_fbu := 0\<rparr>;
               (ct, pmm) = allocate pmm TABLE_BYTES;
               m = kmemset m (unat ct) 0 (unat TABLE_BYTES);
               p = p\<lparr>port_cmd := port_cmd p OR push_bit 4 1\<rparr>;
               p = p\<lparr>port_cmd := port_cmd p OR push_bit 0 1\<rparr>
           in Some (d\<lparr>cmd_list := cl, fis_base := fb, cmd_table := ct\<rparr>,
                hw\<lparr>hba_ports := (hba_ports hw)(n := p), phys_pmm := pmm, phys_bytes := m\<rparr>))"

definition link_up :: "ahci_hw \<Rightarrow> nat \<Rightarrow> bool" where
  "link_up hw i \<longleftrightarrow> bit (hba_pi hw) i \<and> port_ssts (hba_ports hw i) AND 0x0F = 3"

definition ahci_initialize :: "(nat \<Rightarrow> u32) \<Rightarrow> ahci_driver \<times> ahci_hw \<Rightarrow> (ahci_driver \<times> ahci_hw) option" where
  "ahci_initialize polls = (\<lambda>(d, hw).
    if base_addr d = 0 then Some (d, hw)
    else
      let hw = hw\<lparr>hba_ghc := hba_ghc hw OR push_bit 31 1\<rparr>
      in case find (link_up hw) [0..<32] of
           None \<Rightarrow> Some (d, hw)
         | Some i \<Rightarrow>
             (case setup_port polls i (d\<lparr>active_port := Some i\<rparr>, hw) of
                None \<Rightarrow> None
              | Some (d, hw) \<Rightarrow>
                  Some (d, hw\<lparr>ahci_console := ahci_console hw @ lit ''[AHCI] Hardware Verified on Port '' @
                    hex_from 16 (word_of_nat i) @ lit ''\<newline>''\<rparr>)))"

section \<open>Commands\<close>

text \<open>The command header: \<open>cfl\<close> is the low five bits of byte 0 and \<open>w\<close> its bit 6, \<open>prdtl\<close> is at 2,
  \<open>ctba\<close> at 8 and \<open>ctbau\<close> at 12.\<close>

definition build_header :: "ahci_driver \<Rightarrow> bool \<Rightarrow> mem \<Rightarrow> mem" where
  "build_header d wr m =
    (let cl = unat (cmd_list d);
         m = m(cl := (m cl AND NOT 0x1F) OR 5);
         m = m(cl := (m cl AND NOT 0x40) OR (if wr then 0x40 else 0));
         m = mem_write m (cl + 2) (to_le 2 (1 :: u16));
         m = mem_write m (cl + 8) (to_le 4 (ucast (cmd_table d) :: u32))
     in mem_write m (cl + 12) (to_le 4 (0 :: u32)))"

text \<open>The one region descriptor at 128: \<open>dba\<close>, \<open>dbau\<close>, and at 12 the bit fields \<open>dbc\<close> and \<open>i\<close>.\<close>

definition build_prdt :: "ahci_driver \<Rightarrow> u32 \<Rightarrow> u64 \<Rightarrow> mem \<Rightarrow> mem" where
  "build_prdt d count buffer m =
    (let ct = unat (cmd_table d);
         m = mem_write m (ct + 128) (to_le 4 (ucast buffer :: u32));
         m = mem_write m (ct + 132) (to_le 4 (0 :: u32));
         dw = of_le (mem_read m (ct + 140) 4) :: u32;
         m = mem_write m (ct + 140) (to_le 4 ((dw AND NOT 0x7FFFFFFF) OR ((push_bit 9 count - 1) AND 0x7FFFFFFF)));
         dw = of_le (mem_read m (ct + 140) 4) :: u32
     in mem_write m (ct + 140) (to_le 4 (dw OR 0x80000000)))"

text \<open>The stores into \<open>cfis\<close>, offset and byte.\<close>

definition fis_stores :: "u64 \<Rightarrow> u32 \<Rightarrow> bool \<Rightarrow> (nat \<times> u8) list" where
  "fis_stores lba count wr =
    [(0, 0x27), (1, 0x80), (2, if wr then 0x35 else 0x25),
     (4, ucast (lba AND 0xFF)), (5, ucast (drop_bit 8 lba AND 0xFF)), (6, ucast (drop_bit 16 lba AND 0xFF)),
     (7, 0x40),
     (8, ucast (drop_bit 24 lba AND 0xFF)), (9, ucast (drop_bit 32 lba AND 0xFF)), (10, ucast (drop_bit 40 lba AND 0xFF)),
     (12, ucast (count AND 0xFF)), (13, ucast (drop_bit 8 count AND 0xFF))]"

definition build_fis :: "ahci_driver \<Rightarrow> u64 \<Rightarrow> u32 \<Rightarrow> bool \<Rightarrow> mem \<Rightarrow> mem" where
  "build_fis d lba count wr m =
    fold (\<lambda>(off, b) m. m(unat (cmd_table d) + off := b)) (fis_stores lba count wr) m"

definition build_command :: "ahci_driver \<Rightarrow> u64 \<Rightarrow> u32 \<Rightarrow> u64 \<Rightarrow> bool \<Rightarrow> mem \<Rightarrow> mem" where
  "build_command d lba count buffer wr m =
    (let m = build_header d wr m;
         m = kmemset m (unat (cmd_table d)) 0 (unat TABLE_BYTES);
         m = build_prdt d count buffer m
     in build_fis d lba count wr m)"

text \<open>The value of \<open>spin\<close> after the first loop: its last read no longer counts.\<close>

fun spin_ready :: "nat \<Rightarrow> (nat \<Rightarrow> u32) \<Rightarrow> nat \<Rightarrow> nat" where
  "spin_ready 0 tfd spin = spin"
| "spin_ready (Suc r) tfd spin = (if tfd spin AND (0x80 OR 0x08) \<noteq> 0 then spin_ready r tfd (spin + 1) else spin)"

partial_function (option) wait_completion :: "(nat \<Rightarrow> u32) \<Rightarrow> (nat \<Rightarrow> u32) \<Rightarrow> nat \<Rightarrow> bool option" where
  "wait_completion ci is k =
    (if ci k AND 1 = 0 then Some True
     else if bit (is k) 30 then Some False
     else wait_completion ci is (k + 1))"

text \<open>The result is what is returned, whether \<open>ci\<close> was written, and memory.\<close>

definition issue_command ::
    "(nat \<Rightarrow> u32) \<Rightarrow> (nat \<Rightarrow> u32) \<Rightarrow> (nat \<Rightarrow> u32) \<Rightarrow> u64 \<Rightarrow> u32 \<Rightarrow> u64 \<Rightarrow> bool \<Rightarrow> ahci_driver \<Rightarrow> mem \<Rightarrow>
     (bool \<times> bool \<times> mem) option" where
  "issue_command tfd ci is lba count buffer wr d m =
    (if active_port d = None then Some (False, False, m)
     else
       let m = build_command d lba count buffer wr m
       in if spin_ready 1000000 tfd 0 = 1000000 then Some (False, False, m)
          else (case wait_completion ci is 0 of None \<Rightarrow> None | Some ok \<Rightarrow> Some (ok, True, m)))"

text \<open>\<open>read\<close> and \<open>write\<close> return nothing.\<close>

definition ahci_read ::
    "(nat \<Rightarrow> u32) \<Rightarrow> (nat \<Rightarrow> u32) \<Rightarrow> (nat \<Rightarrow> u32) \<Rightarrow> u64 \<Rightarrow> u32 \<Rightarrow> u64 \<Rightarrow> ahci_driver \<Rightarrow> mem \<Rightarrow> mem option" where
  "ahci_read tfd ci is lba count buffer d m =
    (case issue_command tfd ci is lba count buffer False d m of None \<Rightarrow> None | Some (ok, issued, m) \<Rightarrow> Some m)"

definition ahci_write ::
    "(nat \<Rightarrow> u32) \<Rightarrow> (nat \<Rightarrow> u32) \<Rightarrow> (nat \<Rightarrow> u32) \<Rightarrow> u64 \<Rightarrow> u32 \<Rightarrow> u64 \<Rightarrow> ahci_driver \<Rightarrow> mem \<Rightarrow> mem option" where
  "ahci_write tfd ci is lba count buffer d m =
    (case issue_command tfd ci is lba count buffer True d m of None \<Rightarrow> None | Some (ok, issued, m) \<Rightarrow> Some m)"

definition is_ready :: "ahci_driver \<Rightarrow> bool" where
  "is_ready d \<longleftrightarrow> active_port d \<noteq> None"

section \<open>What the controller reads\<close>

text \<open>What the AHCI specification makes of the first command header (direction, ATAPI bit, the byte of reset, BIST,
  clear-busy and port multiplier bits, table address), of the register FIS (type, the byte of the command bit, command,
  device, features and control) and of the region descriptor.\<close>

record hw_command =
  hc_header_write :: bool
  hc_header_atapi :: bool
  hc_header_control :: u8
  hc_fis_dwords :: nat
  hc_regions :: u16
  hc_table :: u32
  hc_table_upper :: u32
  hc_fis_type :: u8
  hc_fis_flags :: u8
  hc_opcode :: u8
  hc_device :: u8
  hc_fis_rest :: "u8 list"
  hc_lba :: u64
  hc_count :: u16
  hc_buffer :: u32
  hc_buffer_upper :: u32
  hc_bytes :: nat

text \<open>The controller starts from the command list base register of the port.\<close>

definition decode_command :: "mem \<Rightarrow> u32 \<Rightarrow> hw_command" where
  "decode_command m clb =
    (let cl = unat clb;
         ct = unat (of_le (mem_read m (cl + 8) 4) :: u32);
         fis = mem_read m ct 20
     in \<lparr>hc_header_write = bit (m cl) 6, hc_header_atapi = bit (m cl) 5, hc_header_control = m (cl + 1),
         hc_fis_dwords = unat (m cl AND 0x1F), hc_regions = of_le (mem_read m (cl + 2) 2),
         hc_table = of_le (mem_read m (cl + 8) 4), hc_table_upper = of_le (mem_read m (cl + 12) 4),
         hc_fis_type = fis ! 0, hc_fis_flags = fis ! 1, hc_opcode = fis ! 2, hc_device = fis ! 7,
         hc_fis_rest = [fis ! 3, fis ! 11, fis ! 14, fis ! 15, fis ! 16, fis ! 17, fis ! 18, fis ! 19],
         hc_lba = of_le [fis ! 4, fis ! 5, fis ! 6, fis ! 8, fis ! 9, fis ! 10],
         hc_count = of_le [fis ! 12, fis ! 13],
         hc_buffer = of_le (mem_read m (ct + 128) 4), hc_buffer_upper = of_le (mem_read m (ct + 132) 4),
         hc_bytes = unat ((of_le (mem_read m (ct + 140) 4) :: u32) AND 0x7FFFFFFF) + 1\<rparr>)"

lemma build_header_reads:
  fixes m :: mem and d :: ahci_driver and wr :: bool
  defines "m' \<equiv> build_header d wr m" and "cl \<equiv> unat (cmd_list d)"
  shows "bit (m' cl) 6 = wr" "m' cl AND 0x1F = 5" "mem_read m' (cl + 2) 2 = to_le 2 (1 :: u16)"
    "mem_read m' (cl + 8) 4 = to_le 4 (ucast (cmd_table d) :: u32)" "mem_read m' (cl + 12) 4 = to_le 4 (0 :: u32)"
    "bit (m' cl) 5 = bit (m cl) 5" "m' (cl + 1) = m (cl + 1)"
proof -
  let ?b = "((m cl AND NOT 0x1F OR 5) AND NOT 0x40) OR (if wr then 0x40 else 0)"
  have m0: "m' cl = ?b" by (simp add: m'_def build_header_def Let_def cl_def [symmetric] mem_write_def)
  have "bit (0x1F :: u8) 6 = False" "bit (0x40 :: u8) 6" "\<not> bit (5 :: u8) 6" by simp_all
  then show "bit (m' cl) 6 = wr" unfolding m0 by (cases wr) (simp_all add: bit_simps)
  show "bit (m' cl) 5 = bit (m cl) 5" unfolding m0 by (cases wr) (simp_all add: bit_simps)
  show "m' (cl + 1) = m (cl + 1)" by (simp add: m'_def build_header_def Let_def cl_def [symmetric] mem_write_def)
  show "mem_read m' (cl + 12) 4 = to_le 4 (0 :: u32)"
    unfolding m'_def build_header_def Let_def cl_def [symmetric]
    by (rule nth_equalityI) (auto simp: mem_write_def)
  have "list_all (\<lambda>n. ((((word_of_nat n :: u8) AND NOT 0x1F OR 5) AND NOT 0x40) OR 0x40) AND 0x1F = 5 \<and>
      ((((word_of_nat n :: u8) AND NOT 0x1F OR 5) AND NOT 0x40) OR 0) AND 0x1F = 5) [0..<256]"
    by code_simp
  then have "((((word_of_nat n :: u8) AND NOT 0x1F OR 5) AND NOT 0x40) OR (if wr then 0x40 else 0)) AND 0x1F = 5"
    if "n < 256" for n using that by (cases wr) (simp_all add: list_all_iff)
  from this [OF unat_u8_lt [of "m cl"]] show "m' cl AND 0x1F = 5" unfolding m0 by simp
  show "mem_read m' (cl + 2) 2 = to_le 2 (1 :: u16)"
    unfolding m'_def build_header_def Let_def cl_def [symmetric]
    by (rule nth_equalityI) (auto simp: mem_write_def)
  show "mem_read m' (cl + 8) 4 = to_le 4 (ucast (cmd_table d) :: u32)"
    unfolding m'_def build_header_def Let_def cl_def [symmetric]
    by (rule nth_equalityI) (auto simp: mem_write_def)
qed

lemma build_fis_outside: "i < unat (cmd_table d) \<or> unat (cmd_table d) + 14 \<le> i \<Longrightarrow> build_fis d lba count wr m i = m i"
  by (auto simp: build_fis_def fis_stores_def)

lemma build_prdt_outside:
  "i < unat (cmd_table d) + 128 \<or> unat (cmd_table d) + 144 \<le> i \<Longrightarrow> build_prdt d count buffer m i = m i"
  by (auto simp: build_prdt_def Let_def mem_write_def)

lemma build_command_header:
  assumes "unat (cmd_list d) + 32 \<le> unat (cmd_table d) \<or> unat (cmd_table d) + 144 \<le> unat (cmd_list d)" "i < 32"
  shows "build_command d lba count buffer wr m (unat (cmd_list d) + i) = build_header d wr m (unat (cmd_list d) + i)"
proof -
  have "unat (cmd_list d) + i < unat (cmd_table d) \<or> unat (cmd_table d) + 144 \<le> unat (cmd_list d) + i" using assms by auto
  moreover have "unat TABLE_BYTES = 144" by (simp add: TABLE_BYTES_def)
  ultimately show ?thesis
    by (auto simp: build_command_def Let_def build_fis_outside build_prdt_outside kmemset_eq mem_write_def)
qed

lemma build_prdt_reads:
  "mem_read (build_prdt d count buffer m) (unat (cmd_table d) + 128) 4 = to_le 4 (ucast buffer :: u32)"
  "mem_read (build_prdt d count buffer m) (unat (cmd_table d) + 132) 4 = to_le 4 (0 :: u32)"
  "(of_le (mem_read (build_prdt d count buffer m) (unat (cmd_table d) + 140) 4) :: u32) AND 0x7FFFFFFF =
     (push_bit 9 count - 1) AND 0x7FFFFFFF"
proof -
  define ct where "ct = unat (cmd_table d)"
  show "mem_read (build_prdt d count buffer m) (unat (cmd_table d) + 128) 4 = to_le 4 (ucast buffer :: u32)"
    unfolding build_prdt_def Let_def ct_def [symmetric] by (rule nth_equalityI) (auto simp: mem_write_def)
  show "mem_read (build_prdt d count buffer m) (unat (cmd_table d) + 132) 4 = to_le 4 (0 :: u32)"
    unfolding build_prdt_def Let_def ct_def [symmetric] by (rule nth_equalityI) (auto simp: mem_write_def)
  have r: "mem_read (mem_write m' (ct + 140) (to_le 4 (w :: u32))) (ct + 140) 4 = to_le 4 w" for m' w
    using mem_read_write_same [of m' "ct + 140" "to_le 4 w"] by simp
  have "((x AND NOT 0x7FFFFFFF OR y AND 0x7FFFFFFF) OR 0x80000000) AND 0x7FFFFFFF = y AND 0x7FFFFFFF" for x y :: u32
  proof -
    have c: "(0x7FFFFFFF :: u32) = mask 31" "(0x80000000 :: u32) = push_bit 31 1"
      by (simp_all add: mask_eq_decr_exp push_bit_eq_mult)
    show ?thesis unfolding c by (intro bit_word_eqI) (auto simp: bit_simps simp del: push_bit_of_1)
  qed
  then show "(of_le (mem_read (build_prdt d count buffer m) (unat (cmd_table d) + 140) 4) :: u32) AND 0x7FFFFFFF =
     (push_bit 9 count - 1) AND 0x7FFFFFFF"
    unfolding build_prdt_def Let_def ct_def [symmetric] r of_le_to_le_u32 by simp
qed

lemma byte_of: "ucast (x AND 0xFF :: u64) = (ucast x :: u8)" "ucast (y AND 0xFF :: u32) = (ucast y :: u8)"
proof -
  have c: "(0xFF :: u64) = mask 8" "(0xFF :: u32) = mask 8" by (simp_all add: mask_eq_decr_exp)
  show "ucast (x AND 0xFF :: u64) = (ucast x :: u8)" "ucast (y AND 0xFF :: u32) = (ucast y :: u8)"
    unfolding c by (rule bit_word_eqI, simp add: bit_simps)+
qed

lemma fis_reads:
  fixes lba :: u64 and count :: u32
  defines "fis \<equiv> \<lambda>d wr m. mem_read (build_fis d lba count wr m) (unat (cmd_table d)) 20"
  shows "fis d wr m ! 0 = 0x27" "fis d wr m ! 1 = 0x80" "fis d wr m ! 2 = (if wr then 0x35 else 0x25)" "fis d wr m ! 7 = 0x40"
    "k \<in> {3, 11, 14, 15, 16, 17, 18, 19} \<Longrightarrow> fis d wr m ! k = m (unat (cmd_table d) + k)"
    "of_le [fis d wr m ! 4, fis d wr m ! 5, fis d wr m ! 6, fis d wr m ! 8, fis d wr m ! 9, fis d wr m ! 10] = take_bit 48 lba"
    "of_le [fis d wr m ! 12, fis d wr m ! 13] = (ucast count :: u16)"
proof -
  define ct where "ct = unat (cmd_table d)"
  have f: "fis d wr m ! k = build_fis d lba count wr m (ct + k)" if "k < 20" for k
    using that by (simp add: fis_def ct_def)
  note upd = build_fis_def fis_stores_def ct_def [symmetric] byte_of
  have b: "fis d wr m ! 4 = ucast lba" "fis d wr m ! 5 = ucast (drop_bit 8 lba)" "fis d wr m ! 6 = ucast (drop_bit 16 lba)"
    "fis d wr m ! 8 = ucast (drop_bit 24 lba)" "fis d wr m ! 9 = ucast (drop_bit 32 lba)"
    "fis d wr m ! 10 = ucast (drop_bit 40 lba)"
    "fis d wr m ! 12 = ucast count" "fis d wr m ! 13 = ucast (drop_bit 8 count)"
    by (subst f, simp, simp add: upd)+
  show "fis d wr m ! 0 = 0x27" "fis d wr m ! 1 = 0x80" "fis d wr m ! 2 = (if wr then 0x35 else 0x25)" "fis d wr m ! 7 = 0x40"
    by (subst f, simp, simp add: upd)+
  show "fis d wr m ! k = m (unat (cmd_table d) + k)" if "k \<in> {3, 11, 14, 15, 16, 17, 18, 19}"
    using that by (subst f) (auto simp: upd)
  have "[ucast lba, ucast (drop_bit 8 lba), ucast (drop_bit 16 lba), ucast (drop_bit 24 lba), ucast (drop_bit 32 lba),
      ucast (drop_bit 40 lba)] = to_le 6 lba"
    by (simp add: eval_nat_numeral drop_bit_drop_bit)
  then show "of_le [fis d wr m ! 4, fis d wr m ! 5, fis d wr m ! 6, fis d wr m ! 8, fis d wr m ! 9, fis d wr m ! 10] = take_bit 48 lba"
    unfolding b using of_le_to_le [of 6 lba] by simp
  have "[ucast count, ucast (drop_bit 8 count)] = to_le 2 (ucast count :: u16)"
    by (auto simp: eval_nat_numeral intro!: bit_word_eqI simp: bit_simps)
  then show "of_le [fis d wr m ! 12, fis d wr m ! 13] = (ucast count :: u16)"
    unfolding b by (simp only: of_le_to_le_u16)
qed

text \<open>Header, table and received FIS area do not overlap, are aligned as the specification asks, and their addresses fit 32 bits.\<close>

definition placed :: "ahci_driver \<Rightarrow> bool" where
  "placed d \<longleftrightarrow> (unat (cmd_list d) + 32 \<le> unat (cmd_table d) \<or> unat (cmd_table d) + 144 \<le> unat (cmd_list d)) \<and>
     (unat (cmd_list d) + 32 \<le> unat (fis_base d) \<or> unat (fis_base d) + 256 \<le> unat (cmd_list d)) \<and>
     1024 dvd unat (cmd_list d) \<and> 128 dvd unat (cmd_table d) \<and> unat (cmd_list d) < 2 ^ 32 \<and> unat (cmd_table d) < 2 ^ 32"

text \<open>The bits of the first header the driver never writes are clear: ATAPI, reset, BIST, clear busy, port multiplier.\<close>

definition header_ready :: "ahci_driver \<Rightarrow> mem \<Rightarrow> bool" where
  "header_ready d m \<longleftrightarrow> \<not> bit (m (unat (cmd_list d))) 5 \<and> m (unat (cmd_list d) + 1) = 0"

lemma build_command_ready:
  assumes "placed d"
  shows "header_ready d (build_command d lba count buffer wr m) = header_ready d m"
proof -
  have "build_command d lba count buffer wr m (unat (cmd_list d) + i) = build_header d wr m (unat (cmd_list d) + i)" if "i < 32" for i
    using assms that by (intro build_command_header) (auto simp: placed_def)
  from this [of 0] this [of 1] show ?thesis
    using build_header_reads(6,7) [where d = d and wr = wr and m = m] by (simp add: header_ready_def)
qed

text \<open>Its bits 0 to 6 are reserved in a table address.\<close>

definition table_aligned :: "u32 \<Rightarrow> bool" where
  "table_aligned a \<longleftrightarrow> 128 dvd unat a"

lemma decode_built:
  assumes "placed d"
  shows "decode_command (build_command d lba count buffer wr m) (ucast (cmd_list d)) =
    \<lparr>hc_header_write = wr, hc_header_atapi = bit (m (unat (cmd_list d))) 5, hc_header_control = m (unat (cmd_list d) + 1),
     hc_fis_dwords = 5, hc_regions = 1, hc_table = ucast (cmd_table d), hc_table_upper = 0, hc_fis_type = 0x27,
     hc_fis_flags = 0x80, hc_opcode = (if wr then 0x35 else 0x25), hc_device = 0x40, hc_fis_rest = [0, 0, 0, 0, 0, 0, 0, 0],
     hc_lba = take_bit 48 lba, hc_count = ucast count, hc_buffer = ucast buffer, hc_buffer_upper = 0, hc_bytes = unat ((push_bit 9 count - 1) AND 0x7FFFFFFF) + 1\<rparr>"
proof -
  define m' where "m' = build_command d lba count buffer wr m"
  define m1 where "m1 = kmemset (build_header d wr m) (unat (cmd_table d)) 0 (unat TABLE_BYTES)"
  have u: "unat (ucast x :: u32) = unat x" if "unat x < 2 ^ 32" for x :: u64
    using that by (simp add: unsigned_ucast_eq take_bit_nat_eq_self)
  have cl: "unat (ucast (cmd_list d) :: u32) = unat (cmd_list d)" and ct: "unat (ucast (cmd_table d) :: u32) = unat (cmd_table d)"
    using assms by (simp_all add: placed_def u)
  have h: "m' (unat (cmd_list d) + i) = build_header d wr m (unat (cmd_list d) + i)" if "i < 32" for i
    using assms that unfolding m'_def placed_def by (intro build_command_header) auto
  have r: "mem_read m' (unat (cmd_list d) + off) n = mem_read (build_header d wr m) (unat (cmd_list d) + off) n"
    if "off + n \<le> 32" for off n
    by (rule nth_equalityI) (use h that in \<open>auto simp: add.assoc\<close>)
  have head: "bit (m' (unat (cmd_list d))) 6 = wr" "m' (unat (cmd_list d)) AND 0x1F = 5"
    "mem_read m' (unat (cmd_list d) + 2) 2 = to_le 2 (1 :: u16)"
    "mem_read m' (unat (cmd_list d) + 8) 4 = to_le 4 (ucast (cmd_table d) :: u32)"
    "mem_read m' (unat (cmd_list d) + 12) 4 = to_le 4 (0 :: u32)"
    "bit (m' (unat (cmd_list d))) 5 = bit (m (unat (cmd_list d))) 5" "m' (unat (cmd_list d) + 1) = m (unat (cmd_list d) + 1)"
    using build_header_reads [where d = d and wr = wr and m = m] h [of 0] h [of 1] r [of 2 2] r [of 8 4] r [of 12 4] by simp_all
  have m': "m' = build_fis d lba count wr (build_prdt d count buffer m1)"
    by (simp add: m'_def m1_def build_command_def Let_def)
  have p: "mem_read m' (unat (cmd_table d) + off) n = mem_read (build_prdt d count buffer m1) (unat (cmd_table d) + off) n"
    if "14 \<le> off" for off n
    unfolding m' by (rule nth_equalityI) (use that in \<open>auto simp: build_fis_outside\<close>)
  have t: "mem_read m' (unat (cmd_table d) + 128) 4 = to_le 4 (ucast buffer :: u32)"
    "(of_le (mem_read m' (unat (cmd_table d) + 140) 4) :: u32) AND 0x7FFFFFFF = (push_bit 9 count - 1) AND 0x7FFFFFFF"
    "mem_read m' (unat (cmd_table d) + 132) 4 = to_le 4 (0 :: u32)"
    using p [of 128 4] p [of 140 4] p [of 132 4] build_prdt_reads [of d count buffer m1] by simp_all
  note f = fis_reads [where d = d and lba = lba and count = count and wr = wr and m = "build_prdt d count buffer m1", folded m']
  have zero: "build_prdt d count buffer m1 (unat (cmd_table d) + k) = 0" if "k < 20" for k
    using that by (simp add: build_prdt_outside m1_def kmemset_eq mem_write_def TABLE_BYTES_def)
  have rest: "m' (unat (cmd_table d) + k) = 0" if "k \<in> {3, 11, 14, 15, 16, 17, 18, 19}" for k
    using f(5) [OF that] zero [of k] that by auto
  show ?thesis
    unfolding decode_command_def Let_def m'_def [symmetric] cl head of_le_to_le_u32 ct f t
    by (simp add: rest)
qed

section \<open>Polling\<close>

definition busy :: "u32 \<Rightarrow> bool" where
  "busy t \<longleftrightarrow> t AND (0x80 OR 0x08) \<noteq> 0"

lemma spin_ready_cases:
  "(\<forall>k<r. busy (tfd (s + k))) \<Longrightarrow> spin_ready r tfd s = s + r"
  "k < r \<Longrightarrow> \<not> busy (tfd (s + k)) \<Longrightarrow> spin_ready r tfd s < s + r"
proof (induction r arbitrary: s k)
  case 0
  {
    case 1
    show ?case by simp
  next
    case 2
    then show ?case by simp
  }
next
  case (Suc r)
  {
    case 1
    then have "busy (tfd s)" "\<forall>k<r. busy (tfd (s + 1 + k))" by force+
    then show ?case using Suc.IH(1) [of "s + 1"] by (simp add: busy_def)
  next
    case 2
    show ?case
    proof (cases "busy (tfd s)")
      case True
      then obtain j where "k = Suc j" using 2 by (cases k) auto
      then show ?thesis using Suc.IH(2) [of j "s + 1"] 2 True by (simp add: busy_def)
    next
      case False
      then show ?thesis by (simp add: busy_def)
    qed
  }
qed

lemma wait_completion_done:
  "\<lbrakk>\<forall>i. k \<le> i \<and> i < j \<longrightarrow> ci i AND 1 \<noteq> 0 \<and> \<not> bit (is i) 30; k \<le> j; ci j AND 1 = 0 \<or> bit (is j) 30\<rbrakk> \<Longrightarrow>
     wait_completion ci is k = Some (ci j AND 1 = 0)"
proof (induction "j - k" arbitrary: k)
  case 0
  then have "k = j" by simp
  then show ?case using 0 by (subst wait_completion.simps) auto
next
  case (Suc n)
  then have "ci k AND 1 \<noteq> 0 \<and> \<not> bit (is k) 30" by simp
  then show ?case using Suc by (simp add: wait_completion.simps [of ci "is" k])
qed

lemma wait_completion_Some: "wait_completion ci is k = Some ok \<Longrightarrow> \<exists>j. ci j AND 1 = 0 \<or> bit (is j) 30"
proof (rule wait_completion.raw_induct [where P = "\<lambda>ci is k ok. \<exists>j. ci j AND 1 = 0 \<or> bit (is j) 30"])
  fix f and ci "is" :: "nat \<Rightarrow> u32" and k ok
  assume IH: "\<And>(ci :: nat \<Rightarrow> u32) (is :: nat \<Rightarrow> u32) k ok. f ci is k = Some ok \<Longrightarrow> \<exists>j. ci j AND 1 = 0 \<or> bit (is j) 30"
    and eq: "(if ci k AND 1 = 0 then Some True else if bit (is k) 30 then Some False else f ci is (k + 1)) = Some ok"
  show "\<exists>j. ci j AND 1 = 0 \<or> bit (is j) 30"
  proof (cases "ci k AND 1 = 0 \<or> bit (is k) 30")
    case False
    then show ?thesis using IH [of ci "is" "k + 1" ok] eq by simp
  qed blast
qed

lemma decoded_request:
  assumes "placed d" "unat lba < 2 ^ 48" "0 < unat count" "unat count < 65536" "unat buffer < 2 ^ 32"
    and "c = decode_command (build_command d lba count buffer wr m) (ucast (cmd_list d))"
  shows "hc_header_write c = wr \<and> hc_opcode c = (if wr then 0x35 else 0x25) \<and> hc_fis_type c = 0x27 \<and>
       hc_fis_dwords c = 5 \<and> hc_regions c = 1 \<and>
       unat (hc_lba c) = unat lba \<and> unat (hc_count c) = unat count \<and> unat (hc_buffer c) = unat buffer \<and>
       hc_bytes c = 512 * unat count \<and> hc_fis_flags c = 0x80 \<and> hc_device c = 0x40 \<and> hc_fis_rest c = [0, 0, 0, 0, 0, 0, 0, 0] \<and>
       hc_table_upper c = 0 \<and> hc_buffer_upper c = 0 \<and> table_aligned (hc_table c) \<and>
       hc_header_atapi c = bit (m (unat (cmd_list d))) 5 \<and> hc_header_control c = m (unat (cmd_list d) + 1)"
proof -
  have l: "take_bit 48 lba = lba" using assms(2) by (simp add: word_unat_eq_iff unsigned_take_bit_eq take_bit_nat_eq_self)
  have c: "unat (ucast count :: u16) = unat count" "unat (ucast buffer :: u32) = unat buffer"
    using assms(4,5) by (simp_all add: unsigned_ucast_eq take_bit_nat_eq_self)
  have s: "unat (push_bit 9 count) = 512 * unat count"
    using assms(4) by (simp add: push_bit_eq_mult) (subst unat_mult_lem [THEN iffD1], simp_all)
  have one: "(1 :: u32) \<le> push_bit 9 count" using s assms(3) by (simp add: word_le_nat_alt)
  have d: "unat (push_bit 9 count - 1) = 512 * unat count - 1" using s one by (simp add: unat_sub)
  have "(0x7FFFFFFF :: u32) = mask 31" by (simp add: mask_eq_decr_exp)
  then have "unat ((push_bit 9 count - 1) AND 0x7FFFFFFF) = 512 * unat count - 1"
    using d assms(4) by (simp only: take_bit_eq_mask [symmetric] unsigned_take_bit_eq) (simp add: take_bit_nat_eq_self)
  moreover have "unat (ucast (cmd_table d) :: u32) = unat (cmd_table d)" "128 dvd unat (cmd_table d)"
    using assms(1) by (simp_all add: placed_def unsigned_ucast_eq take_bit_nat_eq_self)
  ultimately show ?thesis using assms(3) unfolding assms(6) by (simp add: decode_built [OF assms(1)] l c table_aligned_def)
qed

text \<open>A port that is ready in time and completes the command without an error.\<close>

lemma issue_command_done:
  assumes "active_port d \<noteq> None" "k < 1000000" "\<not> busy (tfd k)" "\<forall>i<j. ci i AND 1 \<noteq> 0 \<and> \<not> bit (is i) 30"
    "ci j AND 1 = 0 \<or> bit (is j) 30"
  shows "issue_command tfd ci is lba count buffer wr d m = Some (ci j AND 1 = 0, True, build_command d lba count buffer wr m)"
proof -
  define N where "N = (1000000 :: nat)"
  have "spin_ready N tfd 0 \<noteq> N" using spin_ready_cases(2) [of k N tfd 0] assms(2,3) by (simp add: N_def)
  moreover have "wait_completion ci is 0 = Some (ci j AND 1 = 0)" using wait_completion_done [of 0 j ci "is"] assms(4,5) by simp
  ultimately show ?thesis using assms(1) by (auto simp: issue_command_def Let_def N_def)
qed

section \<open>Properties\<close>

text \<open>The request the controller reads is the request made. For sector addresses below \<open>2 ^ 48\<close>, 1 to
  65535 sectors and a buffer below 4 GiB, the header, the command FIS and the region descriptor decode,
  from the address in the command list register, to the same direction, address, count and buffer with a
  transfer of 512 bytes a sector.\<close>
theorem command_roundtrip:
  assumes "placed d" "unat lba < 2 ^ 48" "0 < unat count" "unat count < 65536" "unat buffer < 2 ^ 32"
  shows "let c = decode_command (build_command d lba count buffer wr m) (ucast (cmd_list d))
    in hc_header_write c = wr \<and> hc_opcode c = (if wr then 0x35 else 0x25) \<and> hc_fis_type c = 0x27 \<and>
       hc_fis_dwords c = 5 \<and> hc_regions c = 1 \<and>
       unat (hc_lba c) = unat lba \<and> unat (hc_count c) = unat count \<and> unat (hc_buffer c) = unat buffer \<and>
       hc_bytes c = 512 * unat count"
  using decoded_request [OF assms refl] by (simp add: Let_def)

definition example_driver :: ahci_driver where
  "example_driver = \<lparr>base_addr = 0xFEBF1000, active_port = Some 0, cmd_list = 0x2000000, cmd_table = 0x2008000, fis_base = 0x2004000\<rparr>"

lemma command_roundtrip_witness:
  "let c = decode_command (build_command example_driver 0x123456789ABC 300 0x2010000 True (\<lambda>i. word_of_nat i)) 0x2000000
   in unat (hc_lba c) = 0x123456789ABC \<and> hc_bytes c = 153600"
proof -
  have "placed example_driver" by (simp add: placed_def example_driver_def)
  then show ?thesis
    using command_roundtrip [of example_driver "0x123456789ABC" 300 "0x2010000" True "\<lambda>i. word_of_nat i"]
    by (simp add: Let_def example_driver_def)
qed

text \<open>C29: how a command ends. Without a port nothing happens. A drive that is busy for the first million
  status reads makes it fail before it is issued, even if it is ready at the next; otherwise it is issued,
  succeeds when the issue bit clears before the error bit is seen, fails when the error comes first, and
  never returns when neither does. \<open>read\<close> and \<open>write\<close> return normally in every case that returns, with no sign of
  whether the transfer happened.\<close>
theorem issue_command_outcomes:
  shows "(active_port d = None \<longrightarrow> issue_command tfd ci is lba count buffer wr d m = Some (False, False, m) \<and>
      ahci_read tfd ci is lba count buffer d m = Some m \<and> ahci_write tfd ci is lba count buffer d m = Some m) \<and>
    (active_port d \<noteq> None \<longrightarrow> (\<forall>k<1000000. busy (tfd k)) \<longrightarrow>
      issue_command tfd ci is lba count buffer wr d m = Some (False, False, build_command d lba count buffer wr m) \<and>
      ahci_read tfd ci is lba count buffer d m = Some (build_command d lba count buffer False m) \<and>
      ahci_write tfd ci is lba count buffer d m = Some (build_command d lba count buffer True m)) \<and>
    (active_port d \<noteq> None \<longrightarrow> (\<exists>k<1000000. \<not> busy (tfd k)) \<longrightarrow>
      (\<forall>j. (\<forall>i<j. ci i AND 1 \<noteq> 0 \<and> \<not> bit (is i) 30) \<longrightarrow> ci j AND 1 = 0 \<or> bit (is j) 30 \<longrightarrow>
        issue_command tfd ci is lba count buffer wr d m = Some (ci j AND 1 = 0, True, build_command d lba count buffer wr m) \<and>
        ahci_read tfd ci is lba count buffer d m = Some (build_command d lba count buffer False m) \<and>
      ahci_write tfd ci is lba count buffer d m = Some (build_command d lba count buffer True m)) \<and>
      ((\<forall>j. ci j AND 1 \<noteq> 0 \<and> \<not> bit (is j) 30) \<longrightarrow> issue_command tfd ci is lba count buffer wr d m = None))"
proof -
  define N where "N = (1000000 :: nat)"
  have busy: "spin_ready N tfd 0 = N" if "\<forall>k<N. busy (tfd k)" using spin_ready_cases(1) [of N tfd 0] that by simp
  have ready: "spin_ready N tfd 0 \<noteq> N" if "\<exists>k<N. \<not> busy (tfd k)" using spin_ready_cases(2) [of _ N tfd 0] that by force
  have hang: "wait_completion ci is 0 = None" if "\<forall>j. ci j AND 1 \<noteq> 0 \<and> \<not> bit (is j) 30"
    using wait_completion_Some [of ci "is" 0] that by (cases "wait_completion ci is 0") auto
  have fin: "wait_completion ci is 0 = Some (ci j AND 1 = 0)"
    if "\<forall>i<j. ci i AND 1 \<noteq> 0 \<and> \<not> bit (is i) 30" "ci j AND 1 = 0 \<or> bit (is j) 30" for j
    using wait_completion_done [of 0 j ci "is"] that by simp
  show ?thesis
    unfolding issue_command_def ahci_read_def ahci_write_def N_def [symmetric] Let_def
    using busy ready hang fin by (intro conjI impI allI) auto
qed

lemma issue_command_outcomes_witness:
  "ahci_read (\<lambda>_. 0) (\<lambda>_. 1) (\<lambda>k. if k = 5 then 0x40000000 else 0) 7 1 0x2010000 example_driver (\<lambda>_. 0) =
     Some (build_command example_driver 7 1 0x2010000 False (\<lambda>_. 0)) \<and>
   ahci_write (\<lambda>_. 0) (\<lambda>_. 1) (\<lambda>k. if k = 5 then 0x40000000 else 0) 7 1 0x2010000 example_driver (\<lambda>_. 0) =
     Some (build_command example_driver 7 1 0x2010000 True (\<lambda>_. 0))"
proof -
  define iss where "iss = (\<lambda>k :: nat. if k = 5 then 0x40000000 else 0 :: u32)"
  have a: "active_port example_driver \<noteq> None" by (simp add: example_driver_def)
  have r: "\<exists>k<1000000. \<not> busy ((\<lambda>_ :: nat. 0) k)" by (rule exI [of _ 0]) (simp add: busy_def)
  have i: "\<forall>i<5. (\<lambda>_ :: nat. 1 :: u32) i AND 1 \<noteq> 0 \<and> \<not> bit (iss i) 30"
    and e: "(\<lambda>_ :: nat. 1 :: u32) 5 AND 1 = 0 \<or> bit (iss 5) 30" by (simp_all add: iss_def)
  from issue_command_outcomes [of example_driver "\<lambda>_. 0" "\<lambda>_. 1" iss 7 1 "0x2010000" False "\<lambda>_. 0",
      THEN conjunct2, THEN conjunct2, THEN mp, OF a, THEN mp, OF r, THEN conjunct1, THEN spec, of 5,
      THEN mp, OF i, THEN mp, OF e, THEN conjunct2]
  show ?thesis by (simp only: iss_def)
qed

lemma setup_port_Some:
  assumes "\<not> bit (polls k) 15" "\<not> bit (polls k) 14"
    and "alloc_seq allocate (phys_pmm hw) [1024, 256, TABLE_BYTES] = ([(cl, 1024), (fb, 256), (ct, TABLE_BYTES)], pmm)"
  shows "\<exists>hw'. setup_port polls n (d, hw) = Some (d\<lparr>cmd_list := cl, fis_base := fb, cmd_table := ct\<rparr>, hw') \<and>
    port_clb (hba_ports hw' n) = ucast cl \<and> port_fb (hba_ports hw' n) = ucast fb \<and>
    bit (port_cmd (hba_ports hw' n)) 0 \<and> bit (port_cmd (hba_ports hw' n)) 4 \<and> phys_pmm hw' = pmm"
proof -
  obtain p1 p2 where a: "allocate (phys_pmm hw) 1024 = (cl, p1)" "allocate p1 256 = (fb, p2)" "allocate p2 TABLE_BYTES = (ct, pmm)"
    using assms(3) by (auto simp: split_def Let_def prod_eq_iff)
  obtain w where w: "wait_stopped polls = Some w"
    unfolding wait_stopped_def using poll_until_iff [of "\<lambda>k. \<not> (bit (polls k) 15 \<or> bit (polls k) 14)" 0] assms(1,2) by blast
  show ?thesis
    unfolding setup_port_def Let_def prod.case w option.case a
    by (intro exI conjI, rule refl) (simp_all add: bit_simps)
qed

lemma ahci_blocks:
  assumes "alloc_seq allocate pmm [1024, 256, TABLE_BYTES] = ([(cl, 1024), (fb, 256), (ct, TABLE_BYTES)], pmm')"
    "arena_ok pmm" "unat (max_address pmm) \<le> 2 ^ 32" "cl \<noteq> 0" "fb \<noteq> 0" "ct \<noteq> 0"
  shows "unat cl < 2 ^ 32" "unat fb < 2 ^ 32" "unat ct < 2 ^ 32" "16384 dvd unat cl" "16384 dvd unat ct"
    "block_bytes (cl, 1024) \<inter> block_bytes (fb, 256) = {}" "block_bytes (fb, 256) \<inter> block_bytes (ct, TABLE_BYTES) = {}"
    "unat cl + 32 \<le> unat ct \<or> unat ct + 144 \<le> unat cl" "unat cl + 32 \<le> unat fb \<or> unat fb + 256 \<le> unat cl"
proof -
  let ?ns = "[1024, 256, TABLE_BYTES]"
  define bs where "bs = fst (alloc_seq allocate pmm ?ns)"
  have bs: "bs = [(cl, 1024), (fb, 256), (ct, TABLE_BYTES)]" unfolding bs_def assms(1) by simp
  have ok: "list_all request_ok ?ns" by (simp add: request_ok_def TABLE_BYTES_def)
  have ab: "unat (fst b) + unat (snd b) < 2 ^ 32 \<and> 16384 dvd unat (fst b)" if "b \<in> set bs" "fst b \<noteq> 0" for b
    using pmm.alloc_seq_above [OF assms(2) ok _ that(2)] that(1) assms(3) unfolding bs_def by fastforce
  then show "unat cl < 2 ^ 32" "unat fb < 2 ^ 32" "unat ct < 2 ^ 32" "16384 dvd unat cl" "16384 dvd unat ct"
    using ab [of "(cl, 1024)"] ab [of "(fb, 256)"] ab [of "(ct, TABLE_BYTES)"] assms(4-6) bs by auto
  note dis = pmm.alloc_seq_disjoint [OF assms(2) ok bs_def]
  show "block_bytes (cl, 1024) \<inter> block_bytes (fb, 256) = {}" "block_bytes (fb, 256) \<inter> block_bytes (ct, TABLE_BYTES) = {}"
    using dis [of 0 1] dis [of 1 2] assms(4-6) unfolding bs by simp_all
  show "unat cl + 32 \<le> unat ct \<or> unat ct + 144 \<le> unat cl"
  proof (rule ccontr)
    assume "\<not> ?thesis"
    then have "max (unat cl) (unat ct) \<in> block_bytes (cl, 1024) \<inter> block_bytes (ct, TABLE_BYTES)"
      by (auto simp: block_bytes_def TABLE_BYTES_def max_def)
    then show False using dis [of 0 2] assms(4,6) unfolding bs by auto
  qed
  show "unat cl + 32 \<le> unat fb \<or> unat fb + 256 \<le> unat cl"
  proof (rule ccontr)
    assume "\<not> ?thesis"
    then have "max (unat cl) (unat fb) \<in> block_bytes (cl, 1024) \<inter> block_bytes (fb, 256)"
      by (auto simp: block_bytes_def max_def)
    then show False using dis [of 0 1] assms(4,5) unfolding bs by auto
  qed
qed

text \<open>Initialisation takes the lowest implemented port with an established link, and on an arena below
  4 GiB the controller then finds the driver's structures: command list, received FIS area and command
  table do not overlap, start on 16 KiB boundaries, and the 32-bit base registers hold their whole
  addresses. It returns as soon as the port reports that it stopped.\<close>
theorem ahci_initialize_places:
  assumes "base_addr d \<noteq> 0" "link_up hw i" "i < 32" "\<forall>j<i. \<not> link_up hw j" "\<not> bit (polls k) 15" "\<not> bit (polls k) 14"
    and "arena_ok (phys_pmm hw)" "unat (max_address (phys_pmm hw)) \<le> 2 ^ 32"
    and "\<forall>b \<in> set (fst (alloc_seq allocate (phys_pmm hw) [1024, 256, TABLE_BYTES])). fst b \<noteq> 0"
  shows "\<exists>d' hw'. ahci_initialize polls (d, hw) = Some (d', hw') \<and> active_port d' = Some i \<and> placed d' \<and>
    unat (port_clb (hba_ports hw' i)) = unat (cmd_list d') \<and> unat (port_fb (hba_ports hw' i)) = unat (fis_base d') \<and>
    16384 dvd unat (cmd_list d') \<and> 16384 dvd unat (cmd_table d') \<and>
    block_bytes (cmd_list d', 1024) \<inter> block_bytes (fis_base d', 256) = {} \<and>
    block_bytes (fis_base d', 256) \<inter> block_bytes (cmd_table d', TABLE_BYTES) = {} \<and>
    bit (port_cmd (hba_ports hw' i)) 0 \<and> bit (port_cmd (hba_ports hw' i)) 4"
proof -
  let ?ns = "[1024, 256, TABLE_BYTES]"
  obtain cl fb ct pmm where seq: "alloc_seq allocate (phys_pmm hw) ?ns = ([(cl, 1024), (fb, 256), (ct, TABLE_BYTES)], pmm)"
    by (auto simp: split_def Let_def)
  have nz: "cl \<noteq> 0" "fb \<noteq> 0" "ct \<noteq> 0" using assms(9) unfolding seq by auto
  note blocks = ahci_blocks [OF seq assms(7,8) nz]
  have u: "unat (ucast x :: u32) = unat x" if "unat x < 2 ^ 32" for x :: u64
    using that by (simp add: unsigned_ucast_eq take_bit_nat_eq_self)
  have pl: "placed (d\<lparr>active_port := Some i, cmd_list := cl, fis_base := fb, cmd_table := ct\<rparr>)"
    using blocks by (auto simp: placed_def elim: dvd_trans [rotated])
  let ?hw = "hw\<lparr>hba_ghc := hba_ghc hw OR push_bit 31 1\<rparr>"
  have "link_up ?hw = link_up hw" by (simp add: link_up_def fun_eq_iff)
  then have f: "find (link_up ?hw) [0..<32] = Some i"
    using assms(2-4) by (simp add: find_Some_iff) (intro exI [of _ i], simp)
  obtain hw' where s: "setup_port polls i (d\<lparr>active_port := Some i\<rparr>, ?hw) =
      Some (d\<lparr>active_port := Some i, cmd_list := cl, fis_base := fb, cmd_table := ct\<rparr>, hw')"
    "port_clb (hba_ports hw' i) = ucast cl" "port_fb (hba_ports hw' i) = ucast fb"
    "bit (port_cmd (hba_ports hw' i)) 0" "bit (port_cmd (hba_ports hw' i)) 4"
    using setup_port_Some [where polls = polls and k = k and hw = ?hw and n = i and d = "d\<lparr>active_port := Some i\<rparr>",
        OF assms(5,6)] seq by auto
  define d' where "d' = d\<lparr>active_port := Some i, cmd_list := cl, fis_base := fb, cmd_table := ct\<rparr>"
  have "ahci_initialize polls (d, hw) = Some (d', hw'\<lparr>ahci_console := ahci_console hw' @
      lit ''[AHCI] Hardware Verified on Port '' @ hex_from 16 (word_of_nat i) @ lit ''\<newline>''\<rparr>)"
    unfolding ahci_initialize_def Let_def prod.case f option.case s(1) if_not_P [OF assms(1)] d'_def by (rule refl)
  moreover have "placed d'" "cmd_list d' = cl" "fis_base d' = fb" "cmd_table d' = ct" "active_port d' = Some i"
    using pl by (simp_all add: d'_def)
  moreover have "unat (ucast cl :: u32) = unat cl" "unat (ucast fb :: u32) = unat fb" using u blocks by auto
  ultimately show ?thesis using blocks s(2-5) by auto
qed

definition example_hw :: ahci_hw where
  "example_hw = \<lparr>hba_ghc = 0, hba_pi = 0x3F,
     hba_ports = (\<lambda>n. \<lparr>port_clb = 0, port_clbu = 0, port_fb = 0, port_fbu = 0, port_cmd = 0, port_ssts = if n = 2 then 0x123 else 0\<rparr>),
     phys_pmm = PhysicalMemory 0x2000000 0x40000000, phys_bytes = (\<lambda>_. 0), ahci_console = []\<rparr>"

lemma ahci_initialize_places_witness:
  "\<exists>d' hw'. ahci_initialize (\<lambda>k. if k < 3 then 0xC000 else 0) (AHCIDriver 0xFEBF1000 0 0 0, example_hw) = Some (d', hw') \<and>
    active_port d' = Some 2 \<and> placed d'"
proof -
  have l: "link_up example_hw 2" "\<forall>j<2. \<not> link_up example_hw j"
    by (simp_all add: link_up_def example_hw_def)
  define polls where "polls = (\<lambda>k :: nat. if k < 3 then 0xC000 else 0 :: u32)"
  have z: "\<not> bit (polls 3) 15" "\<not> bit (polls 3) 14" by (simp_all add: polls_def)
  have a: "arena_ok (phys_pmm example_hw)" "unat (max_address (phys_pmm example_hw)) \<le> 2 ^ 32"
    by (simp_all add: example_hw_def PhysicalMemory_def arena_ok_def align16k_def)
  have s: "\<forall>b \<in> set (fst (alloc_seq allocate (phys_pmm example_hw) [1024, 256, TABLE_BYTES])). fst b \<noteq> 0"
    by (simp add: example_hw_def PhysicalMemory_def allocate_def Let_def TABLE_BYTES_def)
  have b: "base_addr (AHCIDriver 0xFEBF1000 0 0 0) \<noteq> 0" by (simp add: AHCIDriver_def)
  from ahci_initialize_places [where polls = polls and k = 3, OF b l(1) _ l(2) z a s]
  show ?thesis unfolding polls_def by auto
qed

end
