(* ===== verification/Vmx.thy ===== *)
theory Vmx
  imports PhysMem
begin

text \<open>
  Hardware virtualisation: \<open>VMXController\<close> of \<open>src/core/vmx_impl.hpp\<close> and the \<open>Hypervisor\<close> stub of
  \<open>src/core/vmx.hpp\<close>. The processor is its model-specific registers, the feature word of \<open>cpuid\<close> and the
  control registers; whether \<open>vmxon\<close> and \<open>vmptrld\<close> succeed on a region is decided by parameters, which
  get the processor, memory and the region's address.
\<close>

unbundle bit_operations_syntax

record cpu =
  msr :: "u32 \<Rightarrow> u32 \<times> u32"
  cpuid1_ecx :: u32
  cr0 :: u64
  cr3 :: u64
  cr4 :: u64

record vmx =
  vmxon_region :: u64
  vmcs_region :: u64

definition VMXController :: "phys_mem \<Rightarrow> mem \<Rightarrow> vmx \<times> phys_mem \<times> mem" where
  "VMXController pmm m =
    (let (a, pmm) = allocate pmm 4096;
         (b, pmm) = allocate pmm 4096;
         m = kmemset m (unat a) 0 4096;
         m = kmemset m (unat b) 0 4096
     in (\<lparr>vmxon_region = a, vmcs_region = b\<rparr>, pmm, m))"

definition rdmsr_lo :: "cpu \<Rightarrow> u32 \<Rightarrow> u32" where
  "rdmsr_lo c r = fst (msr c r)"

section \<open>Enabling\<close>

text \<open>Step 0: \<open>None\<close> when the firmware locked VMX off.\<close>

definition unlock_vmx :: "cpu \<Rightarrow> cpu option" where
  "unlock_vmx c =
    (let (lo, hi) = msr c 0x3A
     in if lo AND 1 = 0 then Some (c\<lparr>msr := (msr c)(0x3A := (lo OR 0x5, hi))\<rparr>)
        else if lo AND 0x4 = 0 then None
        else Some c)"

definition fix_cr4 :: "cpu \<Rightarrow> cpu" where
  "fix_cr4 c =
    (let v = cr4 c OR push_bit 13 1;
         v = v OR ucast (rdmsr_lo c 0x488);
         v = v AND ucast (rdmsr_lo c 0x489)
     in c\<lparr>cr4 := v\<rparr>)"

definition fix_cr0 :: "cpu \<Rightarrow> cpu" where
  "fix_cr0 c =
    (let v = cr0 c OR ucast (rdmsr_lo c 0x486);
         v = v AND ucast (rdmsr_lo c 0x487)
     in c\<lparr>cr0 := v\<rparr>)"

type_synonym vmx_instruction = "cpu \<Rightarrow> mem \<Rightarrow> u64 \<Rightarrow> bool"

text \<open>The result of \<open>enable\<close>, the processor and memory after it.\<close>

definition vmx_enable :: "vmx_instruction \<Rightarrow> vmx_instruction \<Rightarrow> vmx \<Rightarrow> cpu \<Rightarrow> mem \<Rightarrow> bool \<times> cpu \<times> mem" where
  "vmx_enable vmxon vmptrld v c m =
    (case unlock_vmx c of
       None \<Rightarrow> (False, c, m)
     | Some c \<Rightarrow>
         if cpuid1_ecx c AND push_bit 5 1 = 0 then (False, c, m)
         else
           let c = fix_cr0 (fix_cr4 c);
               r_lo = rdmsr_lo c 0x480;
               m = mem_write m (unat (vmxon_region v)) (to_le 4 r_lo)
           in if \<not> vmxon c m (vmxon_region v) then (False, c, m)
              else
                let m = mem_write m (unat (vmcs_region v)) (to_le 4 r_lo)
                in (vmptrld c m (vmcs_region v), c, m))"

section \<open>Guest setup\<close>

definition VMCS_LINK_POINTER :: u64 where "VMCS_LINK_POINTER = 0x2800"
definition GUEST_RIP :: u64 where "GUEST_RIP = 0x681E"
definition GUEST_RSP :: u64 where "GUEST_RSP = 0x681C"
definition HOST_CR0 :: u64 where "HOST_CR0 = 0x6C00"
definition HOST_CR3 :: u64 where "HOST_CR3 = 0x6C02"
definition HOST_CR4 :: u64 where "HOST_CR4 = 0x6C04"
definition HOST_RIP :: u64 where "HOST_RIP = 0x6C16"
definition HOST_RSP :: u64 where "HOST_RSP = 0x6C14"
definition GUEST_CR0 :: u64 where "GUEST_CR0 = 0x6800"
definition GUEST_CR3 :: u64 where "GUEST_CR3 = 0x6802"
definition GUEST_CR4 :: u64 where "GUEST_CR4 = 0x6804"
definition GUEST_ES_SELECTOR :: u64 where "GUEST_ES_SELECTOR = 0x0800"
definition GUEST_CS_SELECTOR :: u64 where "GUEST_CS_SELECTOR = 0x0802"
definition GUEST_SS_SELECTOR :: u64 where "GUEST_SS_SELECTOR = 0x0804"
definition GUEST_DS_SELECTOR :: u64 where "GUEST_DS_SELECTOR = 0x0806"
definition EXIT_REASON :: u64 where "EXIT_REASON = 0x4402"

lemmas vmx_fields = VMCS_LINK_POINTER_def GUEST_RIP_def GUEST_RSP_def HOST_CR0_def HOST_CR3_def HOST_CR4_def HOST_RIP_def
  HOST_RSP_def GUEST_CR0_def GUEST_CR3_def GUEST_CR4_def GUEST_ES_SELECTOR_def GUEST_CS_SELECTOR_def GUEST_SS_SELECTOR_def
  GUEST_DS_SELECTOR_def EXIT_REASON_def

text \<open>The current VMCS as a map of fields.\<close>

type_synonym vmcs = "u64 \<rightharpoonup> u64"

definition vmwrite :: "u64 \<Rightarrow> u64 \<Rightarrow> vmcs \<Rightarrow> vmcs" where
  "vmwrite field v s = s(field \<mapsto> v)"

text \<open>A field that was never written has no value the code could rely on.\<close>

definition vmread :: "u64 \<Rightarrow> vmcs \<Rightarrow> u64 option" where
  "vmread field s = s field"

definition setup_guest :: "u64 \<Rightarrow> u64 \<Rightarrow> cpu \<Rightarrow> vmcs \<Rightarrow> vmcs" where
  "setup_guest entry_point stack_ptr c s =
    (let s = vmwrite VMCS_LINK_POINTER 0xFFFFFFFFFFFFFFFF s;
         s = vmwrite GUEST_RIP entry_point s;
         s = vmwrite GUEST_RSP stack_ptr s;
         s = vmwrite HOST_CR0 (cr0 c) s;
         s = vmwrite HOST_CR3 (cr3 c) s
     in vmwrite HOST_CR4 (cr4 c) s)"

text \<open>\<open>vmlaunch\<close> is a parameter: whether the processor enters the guest. \<open>launch\<close> returns only when it does not,
  and then without a result.\<close>

definition vmx_launch :: "(vmcs \<Rightarrow> bool) \<Rightarrow> vmcs \<Rightarrow> vmcs option" where
  "vmx_launch vmlaunch s = (if vmlaunch s then None else Some s)"

text \<open>The \<open>Hypervisor\<close> stub: its messages.\<close>

definition hypervisor_initialize :: cstr where
  "hypervisor_initialize =
    lit ''[VMX] HARDWARE VIRT BYPASS ACTIVE.\<newline>'' @ lit ''[VMX] Sovereign Shield: RING_0_NATIVE.\<newline>''"

definition hypervisor_run :: cstr where
  "hypervisor_run = lit ''[EM-1] Topology Active. ALU Bypass confirmed.\<newline>''"

section \<open>Lemmas\<close>

lemma unlock_vmx_cases:
  "unlock_vmx c = None \<longleftrightarrow> bit (rdmsr_lo c 0x3A) 0 \<and> \<not> bit (rdmsr_lo c 0x3A) 2"
  "unlock_vmx c = Some c' \<Longrightarrow> bit (rdmsr_lo c' 0x3A) 0 \<and> bit (rdmsr_lo c' 0x3A) 2 \<and> cpuid1_ecx c' = cpuid1_ecx c \<and>
     cr0 c' = cr0 c \<and> cr4 c' = cr4 c \<and> (\<forall>r. r \<noteq> 0x3A \<longrightarrow> msr c' r = msr c r)"
proof -
  have b: "(x AND 1 = 0) = (\<not> bit x 0)" "(x AND 0x4 = 0) = (\<not> bit x 2)" for x :: u32
    using and_exp_eq_0_iff_not_bit [of x 0] and_exp_eq_0_iff_not_bit [of x 2] by simp_all
  show "unlock_vmx c = None \<longleftrightarrow> bit (rdmsr_lo c 0x3A) 0 \<and> \<not> bit (rdmsr_lo c 0x3A) 2"
    by (cases "msr c 0x3A") (simp add: unlock_vmx_def rdmsr_lo_def b)
  have five: "bit (x OR 0x5 :: u32) 0" "bit (x OR 0x5 :: u32) 2" for x by (simp_all add: bit_simps)
  show "unlock_vmx c = Some c' \<Longrightarrow> bit (rdmsr_lo c' 0x3A) 0 \<and> bit (rdmsr_lo c' 0x3A) 2 \<and> cpuid1_ecx c' = cpuid1_ecx c \<and>
     cr0 c' = cr0 c \<and> cr4 c' = cr4 c \<and> (\<forall>r. r \<noteq> 0x3A \<longrightarrow> msr c' r = msr c r)"
    using five by (cases "msr c 0x3A") (auto simp: unlock_vmx_def rdmsr_lo_def b split: if_splits)
qed

text \<open>A control register obeys its fixed bits: those of the first register are set, and none is set
  outside the second.\<close>

definition obeys :: "u64 \<Rightarrow> u32 \<Rightarrow> u32 \<Rightarrow> bool" where
  "obeys v fixed0 fixed1 \<longleftrightarrow> (\<forall>n. (bit fixed0 n \<longrightarrow> bit v n) \<and> (bit v n \<longrightarrow> bit fixed1 n))"

lemma obeys_fixed:
  assumes "\<forall>n. bit f0 n \<longrightarrow> bit f1 n"
  shows "obeys ((v OR ucast f0) AND ucast f1) f0 f1"
proof -
  have "n < 64" if "bit (f :: u32) n" for f n using bit_imp_le_length [OF that] by simp
  then show ?thesis using assms by (auto simp: obeys_def bit_simps)
qed

section \<open>Properties\<close>

text \<open>\<open>enable\<close> reports success exactly when the firmware has not locked VMX off, the processor has it,
  and both instructions succeed. When the instructions are reached, both control registers obey the fixed
  bits the processor names, VMX is switched on in CR4 if it may be, and the region begins with the
  revision identifier; when VMX is locked off nothing has changed.\<close>
theorem vmx_enable_contract:
  assumes "\<forall>n. bit (rdmsr_lo c 0x486) n \<longrightarrow> bit (rdmsr_lo c 0x487) n" "\<forall>n. bit (rdmsr_lo c 0x488) n \<longrightarrow> bit (rdmsr_lo c 0x489) n"
    and "vmx_enable vmxon vmptrld v c m = (ok, c', m')"
  shows "(unlock_vmx c = None \<longrightarrow> \<not> ok \<and> c' = c \<and> m' = m) \<and>
    (ok \<longleftrightarrow> unlock_vmx c \<noteq> None \<and> cpuid1_ecx c AND 0x20 \<noteq> 0 \<and>
      (let m1 = mem_write m (unat (vmxon_region v)) (to_le 4 (rdmsr_lo c' 0x480))
       in vmxon c' m1 (vmxon_region v) \<and>
          vmptrld c' (mem_write m1 (unat (vmcs_region v)) (to_le 4 (rdmsr_lo c' 0x480))) (vmcs_region v))) \<and>
    (unlock_vmx c \<noteq> None \<and> cpuid1_ecx c AND 0x20 \<noteq> 0 \<longrightarrow>
      obeys (cr0 c') (rdmsr_lo c 0x486) (rdmsr_lo c 0x487) \<and> obeys (cr4 c') (rdmsr_lo c 0x488) (rdmsr_lo c 0x489) \<and>
      (bit (rdmsr_lo c 0x489) 13 \<longrightarrow> bit (cr4 c') 13) \<and> rdmsr_lo c' 0x480 = rdmsr_lo c 0x480 \<and>
      bit (rdmsr_lo c' 0x3A) 0 \<and> bit (rdmsr_lo c' 0x3A) 2)"
proof (cases "unlock_vmx c")
  case None
  then show ?thesis using assms(3) by (simp add: vmx_enable_def)
next
  case (Some c1)
  note u = unlock_vmx_cases(2) [OF Some]
  have r: "rdmsr_lo c1 x = rdmsr_lo c x" if "x \<noteq> 0x3A" for x using u that by (simp add: rdmsr_lo_def)
  have p5: "push_bit 5 1 = (0x20 :: u32)" by (simp add: push_bit_eq_mult)
  show ?thesis
  proof (cases "cpuid1_ecx c AND 0x20 = 0")
    case True
    then show ?thesis using assms(3) Some u by (simp add: vmx_enable_def p5)
  next
    case False
    define c2 where "c2 = fix_cr0 (fix_cr4 c1)"
    have msr: "rdmsr_lo c2 x = rdmsr_lo c1 x" for x by (simp add: c2_def fix_cr0_def fix_cr4_def rdmsr_lo_def Let_def)
    have c: "cr0 c2 = (cr0 c OR ucast (rdmsr_lo c 0x486)) AND ucast (rdmsr_lo c 0x487)"
      "cr4 c2 = ((cr4 c OR push_bit 13 1) OR ucast (rdmsr_lo c 0x488)) AND ucast (rdmsr_lo c 0x489)"
      using u by (simp_all add: c2_def fix_cr0_def fix_cr4_def Let_def rdmsr_lo_def)
    have "vmx_enable vmxon vmptrld v c m =
        (let m1 = mem_write m (unat (vmxon_region v)) (to_le 4 (rdmsr_lo c2 0x480))
         in if \<not> vmxon c2 m1 (vmxon_region v) then (False, c2, m1)
            else (let m2 = mem_write m1 (unat (vmcs_region v)) (to_le 4 (rdmsr_lo c2 0x480))
                  in (vmptrld c2 m2 (vmcs_region v), c2, m2)))"
      using Some False u by (simp add: vmx_enable_def c2_def p5 Let_def)
    then have e: "c' = c2" "ok \<longleftrightarrow> (let m1 = mem_write m (unat (vmxon_region v)) (to_le 4 (rdmsr_lo c2 0x480))
       in vmxon c2 m1 (vmxon_region v) \<and>
          vmptrld c2 (mem_write m1 (unat (vmcs_region v)) (to_le 4 (rdmsr_lo c2 0x480))) (vmcs_region v))"
      using assms(3) by (auto simp: Let_def split: if_splits)
    have o: "obeys (cr0 c2) (rdmsr_lo c 0x486) (rdmsr_lo c 0x487)" "obeys (cr4 c2) (rdmsr_lo c 0x488) (rdmsr_lo c 0x489)"
      unfolding c by (rule obeys_fixed, rule assms(1), rule obeys_fixed, rule assms(2))
    have "bit (rdmsr_lo c 0x489) 13 \<longrightarrow> bit (cr4 c2) 13" unfolding c by (simp add: bit_simps)
    then show ?thesis
      using Some False u e o msr r by (simp add: Let_def)
  qed
qed

lemma vmx_enable_contract_witness:
  "let c = \<lparr>msr = (\<lambda>r. if r = 0x486 then (0x80000021, 0) else if r = 0x488 then (0x2000, 0) else
        if r = 0x480 then (7, 0) else if r = 0x3A then (0, 0) else (0xFFFFFFFF, 0)),
        cpuid1_ecx = 0x20, cr0 = 0x11, cr3 = 0, cr4 = 0x20\<rparr>;
       (ok, c', m') = vmx_enable (\<lambda>c m a. bit (cr4 c) 13) (\<lambda>c m a. True) \<lparr>vmxon_region = 0x1000, vmcs_region = 0x2000\<rparr> c (\<lambda>_. 0)
   in ok \<and> obeys (cr0 c') 0x80000021 0xFFFFFFFF"
proof -
  define c where "c = \<lparr>msr = (\<lambda>r. if r = 0x486 then (0x80000021, 0) else if r = 0x488 then (0x2000, 0) else
        if r = 0x480 then (7, 0) else if r = 0x3A then (0, 0) else (0xFFFFFFFF, 0)) :: u32 \<Rightarrow> u32 \<times> u32,
        cpuid1_ecx = 0x20, cr0 = 0x11, cr3 = 0, cr4 = 0x20\<rparr>"
  have all: "(0xFFFFFFFF :: u32) = mask 32" by (simp add: mask_eq_decr_exp)
  have f: "\<forall>n. bit (rdmsr_lo c 0x486) n \<longrightarrow> bit (rdmsr_lo c 0x487) n" "\<forall>n. bit (rdmsr_lo c 0x488) n \<longrightarrow> bit (rdmsr_lo c 0x489) n"
    unfolding c_def rdmsr_lo_def by (auto simp: all bit_simps simp del: bit_numeral_word_iff dest: bit_imp_le_length)
  obtain ok c' m' where e: "vmx_enable (\<lambda>c m a. bit (cr4 c) 13) (\<lambda>c m a. True) \<lparr>vmxon_region = 0x1000, vmcs_region = 0x2000\<rparr> c (\<lambda>_. 0) =
      (ok, c', m')" by (metis prod_cases3)
  have "unlock_vmx c \<noteq> None" "cpuid1_ecx c AND 0x20 \<noteq> 0" by (simp_all add: unlock_vmx_def c_def)
  moreover have "bit (rdmsr_lo c 0x489) 13" "rdmsr_lo c 0x486 = 0x80000021" "rdmsr_lo c 0x487 = 0xFFFFFFFF"
    by (simp_all add: c_def rdmsr_lo_def)
  ultimately show ?thesis
    unfolding Let_def c_def [symmetric] e prod.case
    using vmx_enable_contract [OF f e] by (simp add: Let_def)
qed

text \<open>Guest setup is incomplete. It writes six fields and no other; on a processor that enters a guest only when
  the host's instruction and stack pointer and the guest's control registers have been given, every launch
  of a guest set up on a fresh VMCS returns, and the caller is told nothing.\<close>
theorem guest_never_launches:
  assumes "\<And>s. vmlaunch s \<Longrightarrow> vmread HOST_RIP s \<noteq> None \<and> vmread HOST_RSP s \<noteq> None \<and> vmread GUEST_CR0 s \<noteq> None"
  shows "dom (setup_guest entry_point stack_ptr c Map.empty) =
      {VMCS_LINK_POINTER, GUEST_RIP, GUEST_RSP, HOST_CR0, HOST_CR3, HOST_CR4} \<and>
    vmread GUEST_RIP (setup_guest entry_point stack_ptr c s) = Some entry_point \<and>
    vmread GUEST_RSP (setup_guest entry_point stack_ptr c s) = Some stack_ptr \<and>
    vmread HOST_CR3 (setup_guest entry_point stack_ptr c s) = Some (cr3 c) \<and>
    vmx_launch vmlaunch (setup_guest entry_point stack_ptr c Map.empty) = Some (setup_guest entry_point stack_ptr c Map.empty)"
proof -
  have "vmread HOST_RIP (setup_guest entry_point stack_ptr c Map.empty) = None"
    by (simp add: vmread_def setup_guest_def vmwrite_def vmx_fields Let_def)
  then have "\<not> vmlaunch (setup_guest entry_point stack_ptr c Map.empty)" using assms by blast
  then show ?thesis by (auto simp: vmx_launch_def vmread_def setup_guest_def vmwrite_def vmx_fields Let_def)
qed

lemma guest_never_launches_witness:
  "vmx_launch (\<lambda>s. vmread HOST_RIP s \<noteq> None \<and> vmread HOST_RSP s \<noteq> None \<and> vmread GUEST_CR0 s \<noteq> None)
      (setup_guest 0x100000 0x9000 \<lparr>msr = (\<lambda>_. (0, 0)), cpuid1_ecx = 0, cr0 = 0x11, cr3 = 0x104000, cr4 = 0x20\<rparr> Map.empty) \<noteq> None"
  using guest_never_launches [of "\<lambda>s. vmread HOST_RIP s \<noteq> None \<and> vmread HOST_RSP s \<noteq> None \<and> vmread GUEST_CR0 s \<noteq> None"] by simp

end
