(* ===== verification/Kernel.thy ===== *)
theory Kernel
  imports Multiboot Shell Idt Pci Ahci Vmx Keygen
begin

text \<open>
  \<open>kmain\<close> of \<open>src/boot/kmain.cpp\<close> up to its main loop: every component of the kernel built on the ones
  before it, in the order of the code. What the machine gives (registers, memory, key presses, the bytes
  of uninitialised storage) is one record; the kernel's globals are another. \<open>None\<close> is a step that never
  ends or leaves its storage.
\<close>

unbundle bit_operations_syntax

section \<open>The machine and the kernel\<close>

record machine =
  mc_entry :: entry_points
  mc_idt_addr :: u64
  mc_pci :: "u32 \<Rightarrow> u32"
  mc_ghc :: u32
  mc_pi :: u32
  mc_ports :: "nat \<Rightarrow> hba_port"
  mc_port_polls :: "nat \<Rightarrow> u32"
  mc_mem :: mem
  mc_pixels :: "u64 \<Rightarrow> u32 list"
  mc_back0 :: "nat \<Rightarrow> u32"
  mc_cpu :: cpu
  mc_vmxon :: vmx_instruction
  mc_vmptrld :: vmx_instruction
  mc_keyboard :: keyboard
  mc_stack :: "u8 list"
  mc_signature :: u32
  mc_features :: u32
  mc_brand :: "u32 \<times> u32 \<times> u32 \<times> u32"
  mc_storage :: "u64 \<times> u64 \<times> u64"
  mc_pool0 :: mem
  mc_map0 :: "nat \<Rightarrow> u64"

record kernel =
  g_faults :: fault_state
  g_pit :: "port_write list"
  g_disk :: "ahci_driver option"
  g_hba :: ahci_hw
  g_vga :: graphics
  g_res :: resources
  g_vmx :: vmx
  vmx_ready :: bool
  g_cpu :: cpu
  g_mem :: mem
  g_kb :: keyboard
  g_master_seed :: seed
  g_manifold :: manifold
  g_control :: control_panel
  g_pmm :: phys_mem

text \<open>The C string in a buffer.\<close>

definition c_string :: "u8 list \<Rightarrow> cstr" where
  "c_string buf = takeWhile (\<lambda>c. c \<noteq> 0) buf"

section \<open>Start-up\<close>

definition boot_disk :: "machine \<Rightarrow> phys_mem \<Rightarrow> (ahci_driver option \<times> ahci_hw) option" where
  "boot_disk mc pmm =
    (let ahci_base = find_ahci_base (mc_pci mc);
         hw = \<lparr>hba_ghc = mc_ghc mc, hba_pi = mc_pi mc, hba_ports = mc_ports mc, phys_pmm = pmm,
               phys_bytes = mc_mem mc, ahci_console = []\<rparr>
     in if ahci_base \<noteq> 0 then
          (let (cl0, ct0, fb0) = mc_storage mc
           in case ahci_initialize (mc_port_polls mc) (AHCIDriver ahci_base cl0 ct0 fb0, hw) of
                None \<Rightarrow> None
              | Some (d, hw) \<Rightarrow> Some (Some d, hw))
        else Some (None, hw))"

text \<open>The pixels of the framebuffer that the page tables of \<open>boot.S\<close> map: a store behind them is a page fault, which
  \<open>swap_buffers\<close> gives as \<open>None\<close>.\<close>

definition mapped_pixels :: "u64 \<Rightarrow> u32 list \<Rightarrow> u32 list" where
  "mapped_pixels lfb px = take ((2 ^ 32 - unat lfb) div 4) px"

text \<open>Without a framebuffer the screen stays the empty one of the constructor.\<close>

definition boot_screen :: "machine \<Rightarrow> u32 \<Rightarrow> u32 \<Rightarrow> ahci_hw \<Rightarrow> (graphics \<times> phys_mem) option" where
  "boot_screen mc magic info_addr hw =
    (case (if magic = 0x36d76289 then find_framebuffer (phys_bytes hw) info_addr else Some None) of
       None \<Rightarrow> None
     | Some None \<Rightarrow> Some (Graphics, phys_pmm hw)
     | Some (Some fb) \<Rightarrow>
         graphics_initialize (phys_pmm hw) (mc_back0 mc) (mapped_pixels (fb_lfb fb) (mc_pixels mc (fb_lfb fb)))
           (fb_w fb) (fb_h fb) (fb_p fb) Graphics)"

definition ignition_calls :: "gfx_call list" where
  "ignition_calls =
    [Clear 0x00080808] @ draw_border 200 200 600 200 0x00222222 1 @
    [PrintAt (lit ''CONSENSUS SOVEREIGN ACCESS'') 350 220 0x0000FFFF,
     PrintAt (lit ''ENTER ACCESS KEY: '') 250 280 0x00FFFFFF]"

text \<open>The echo of the prompt: each character, then the buffers swapped.\<close>

definition echo_calls :: "echo \<Rightarrow> gfx_call list" where
  "echo_calls out = concat (map (\<lambda>(c, color). [PutChar c color, SwapBuffers]) out)"

definition ignition :: "machine \<Rightarrow> graphics \<Rightarrow> (u8 list \<times> graphics \<times> keyboard) option" where
  "ignition mc vga =
    (case run_calls ignition_calls vga of
       None \<Rightarrow> None
     | Some vga \<Rightarrow>
         (case swap_buffers (set_cursor 400 280 vga) of
            None \<Rightarrow> None
          | Some vga \<Rightarrow>
              (case read_password 64 (mc_stack mc) (mc_keyboard mc) of
                 None \<Rightarrow> None
               | Some (pass, out, kb) \<Rightarrow>
                   (case run_calls (echo_calls out) vga of None \<Rightarrow> None | Some vga \<Rightarrow> Some (pass, vga, kb)))))"

definition kmain_boot :: "machine \<Rightarrow> u32 \<Rightarrow> u32 \<Rightarrow> kernel option" where
  "kmain_boot mc magic info_addr =
    (case (init_idt (mc_entry mc) (mc_idt_addr mc) fault_state0, timer_initialize 100,
           boot_disk mc (PhysicalMemory 0x2000000 0x40000000)) of
       (Some faults, Some pit, Some (disk, hw)) \<Rightarrow>
         (case boot_screen mc magic info_addr hw of
            None \<Rightarrow> None
          | Some (vga, pmm) \<Rightarrow>
              (let res = DynamicResourceAllocator 0x40000000;
                   (vmx, pmm, m) = VMXController pmm (phys_bytes hw);
                   (ready, cpu, m) = vmx_enable (mc_vmxon mc) (mc_vmptrld mc) vmx (mc_cpu mc) m
               in case ignition mc vga of
                    None \<Rightarrow> None
                  | Some (pass, vga, kb) \<Rightarrow>
                      (let hwid = generate_device_id (mc_signature mc) (mc_features mc) (mc_brand mc);
                           master = argon2_derive (c_string pass) (c_string hwid) None;
                           (manifold, pmm) = SubstrateManifold pmm (mc_pool0 mc) (mc_map0 mc);
                           manifold = manifold_initialize (manual_init manifold 32) master;
                           control = \<lparr>cp_width = width_px vga, cp_master_seed = master, cp_manifold = manifold\<rparr>
                       in Some \<lparr>g_faults = faults, g_pit = pit, g_disk = disk, g_hba = hw, g_vga = vga, g_res = res,
                            g_vmx = vmx, vmx_ready = ready, g_cpu = cpu, g_mem = m, g_kb = kb,
                            g_master_seed = master, g_manifold = manifold, g_control = control, g_pmm = pmm\<rparr>)))
     | _ \<Rightarrow> None)"

section \<open>The arena after start-up\<close>

definition disk_blocks :: "ahci_driver option \<Rightarrow> (u64 \<times> u64) list" where
  "disk_blocks disk =
    (case disk of
       None \<Rightarrow> []
     | Some d \<Rightarrow> if is_ready d then [(cmd_list d, 1024), (fis_base d, 256), (cmd_table d, TABLE_BYTES)] else [])"

definition core_blocks :: "kernel \<Rightarrow> (u64 \<times> u64) list" where
  "core_blocks k = [(vmxon_region (g_vmx k), 4096), (vmcs_region (g_vmx k), 4096),
     (cache_pool_base (g_manifold k), word_of_nat POOL_BYTES)]"

abbreviation kernel_arena :: phys_mem where
  "kernel_arena \<equiv> PhysicalMemory 0x2000000 0x40000000"

lemma alloc_seq_append:
  "alloc_seq alloc p (xs @ ys) =
    (fst (alloc_seq alloc p xs) @ fst (alloc_seq alloc (snd (alloc_seq alloc p xs)) ys),
     snd (alloc_seq alloc (snd (alloc_seq alloc p xs)) ys))"
  by (induction xs arbitrary: p) (simp_all add: split_def Let_def)

lemma map_snd_alloc_seq: "map snd (fst (alloc_seq alloc p ns)) = ns"
  by (induction ns arbitrary: p) (simp_all add: split_def Let_def)

lemma alloc_seq_fits:
  assumes "arena_ok p" "list_all request_ok ns" "0 < unat (current_address p)"
    and "unat (current_address p) + (\<Sum>n\<leftarrow>ns. unat n + 16384) < unat (max_address p)"
  shows "\<forall>b \<in> set (fst (alloc_seq allocate p ns)). fst b \<noteq> 0"
  using assms
proof (induction ns arbitrary: p)
  case (Cons n ns)
  let ?p = "snd (allocate p n)"
  have n: "request_ok n" "list_all request_ok ns" using Cons.prems(2) by simp_all
  note a = allocate_nat [OF Cons.prems(1) n(1)] align16k_bounds [of "unat (current_address p)"]
  have fits: "\<not> unat (max_address p) \<le> align16k (unat (current_address p)) + unat n"
    using Cons.prems(4) a(3) by simp
  then have b: "unat (fst (allocate p n)) = align16k (unat (current_address p))"
    "unat (current_address ?p) = align16k (unat (current_address p)) + unat n"
    using a(1) by simp_all
  have "unat (fst (allocate p n)) \<noteq> 0" using b(1) a(2) Cons.prems(3) by linarith
  then have "fst (allocate p n) \<noteq> 0" by auto
  moreover have "\<forall>b \<in> set (fst (alloc_seq allocate ?p ns)). fst b \<noteq> 0"
  proof (rule Cons.IH)
    show "arena_ok ?p" using pmm.inv_alloc Cons.prems(1) n(1) .
    show "0 < unat (current_address ?p)" using b(2) a(2) Cons.prems(3) by linarith
    show "unat (current_address ?p) + (\<Sum>n\<leftarrow>ns. unat n + 16384) < unat (max_address ?p)"
      using b(2) a(3) Cons.prems(4) by simp
  qed (rule n)
  ultimately show ?case by (simp add: split_def Let_def)
qed simp

lemma alloc_seq_pairwise:
  assumes "arena_ok p" "list_all request_ok ns" "\<forall>b \<in> set (fst (alloc_seq allocate p ns)). fst b \<noteq> 0"
  shows "sorted_wrt (\<lambda>b c. block_bytes b \<inter> block_bytes c = {}) (fst (alloc_seq allocate p ns))"
  unfolding sorted_wrt_iff_nth_less
  using pmm.alloc_seq_disjoint [OF assms(1,2) refl] assms(3) by fastforce

section \<open>The stages\<close>

lemma setup_port_bytes:
  "setup_port polls n (d, hw) = Some (d', hw') \<Longrightarrow>
    phys_bytes hw' = kmemset (kmemset (kmemset (phys_bytes hw) (unat (cmd_list d')) 0 1024) (unat (fis_base d')) 0 256)
      (unat (cmd_table d')) 0 (unat TABLE_BYTES)"
  by (auto simp: setup_port_def Let_def split: option.splits prod.splits)

lemma boot_disk_runs:
  assumes "\<not> bit (mc_port_polls mc k) 15" "\<not> bit (mc_port_polls mc k) 14"
  shows "\<exists>disk hw. boot_disk mc kernel_arena = Some (disk, hw) \<and>
    map snd (disk_blocks disk) \<in> {[], [1024, 256, TABLE_BYTES]} \<and>
    alloc_seq allocate kernel_arena (map snd (disk_blocks disk)) = (disk_blocks disk, phys_pmm hw) \<and>
    (\<forall>i < 0x2000000. phys_bytes hw i = mc_mem mc i)"
proof -
  define hw0 where "hw0 = \<lparr>hba_ghc = mc_ghc mc, hba_pi = mc_pi mc, hba_ports = mc_ports mc, phys_pmm = kernel_arena,
               phys_bytes = mc_mem mc, ahci_console = []\<rparr>"
  obtain cl0 ct0 fb0 where st: "mc_storage mc = (cl0, ct0, fb0)" by (metis prod_cases3)
  let ?base = "find_ahci_base (mc_pci mc)"
  let ?d = "AHCIDriver ?base cl0 ct0 fb0"
  let ?hw = "hw0\<lparr>hba_ghc := hba_ghc hw0 OR push_bit 31 1\<rparr>"
  have boot: "boot_disk mc kernel_arena = (if ?base \<noteq> 0 then
      case ahci_initialize (mc_port_polls mc) (?d, hw0) of None \<Rightarrow> None | Some (d, hw) \<Rightarrow> Some (Some d, hw)
      else Some (None, hw0))"
    unfolding boot_disk_def Let_def st prod.case hw0_def by (rule refl)
  consider "?base = 0" | "?base \<noteq> 0" "find (link_up ?hw) [0..<32] = None"
    | i where "?base \<noteq> 0" "find (link_up ?hw) [0..<32] = Some i" by (cases "find (link_up ?hw) [0..<32]") auto
  then show ?thesis
  proof cases
    case 1
    then show ?thesis unfolding boot by (simp add: disk_blocks_def hw0_def)
  next
    case 2
    then have "ahci_initialize (mc_port_polls mc) (?d, hw0) = Some (?d, ?hw)"
      by (simp add: ahci_initialize_def AHCIDriver_def Let_def)
    then show ?thesis
      unfolding boot using 2(1) by (simp add: disk_blocks_def is_ready_def AHCIDriver_def hw0_def)
  next
    case (3 i)
    have seq: "alloc_seq allocate (phys_pmm ?hw) [1024, 256, TABLE_BYTES] =
        ([(0x2000000, 1024), (0x2004000, 256), (0x2008000, TABLE_BYTES)], \<lparr>current_address = 0x2008090, max_address = 0x42000000\<rparr>)"
      by (simp add: hw0_def PhysicalMemory_def allocate_def TABLE_BYTES_def Let_def)
    let ?d2 = "?d\<lparr>active_port := Some i, cmd_list := 0x2000000, fis_base := 0x2004000, cmd_table := 0x2008000\<rparr>"
    obtain hw' where s: "setup_port (mc_port_polls mc) i (?d\<lparr>active_port := Some i\<rparr>, ?hw) = Some (?d2, hw')"
      "phys_pmm hw' = \<lparr>current_address = 0x2008090, max_address = 0x42000000\<rparr>"
      using setup_port_Some [where polls = "mc_port_polls mc" and n = i and d = "?d\<lparr>active_port := Some i\<rparr>", OF assms seq] by auto
    have bytes: "phys_bytes hw' j = mc_mem mc j" if "j < 0x2000000" for j
      unfolding setup_port_bytes [OF s(1)] kmemset_eq using that by (simp add: mem_write_def hw0_def)
    have "ahci_initialize (mc_port_polls mc) (?d, hw0) = Some (?d2, hw'\<lparr>ahci_console := ahci_console hw' @
        lit ''[AHCI] Hardware Verified on Port '' @ hex_from 16 (word_of_nat i) @ lit ''\<newline>''\<rparr>)"
      using 3 s(1) by (simp add: ahci_initialize_def AHCIDriver_def Let_def)
    then show ?thesis
      unfolding boot using 3(1) s(2) seq bytes
      by (simp add: disk_blocks_def is_ready_def hw0_def)
  qed
qed

lemma read_password_echo:
  assumes "read_password_loop mx buf i out kb = Some (buf', i', out', kb')"
  shows "set out' \<subseteq> set out \<union> {(8, 0), (42, 0x00FFFF00)}"
  using assms by (rule read_password_loop_invariant [where P = "\<lambda>b k o'. set o' \<subseteq> set out \<union> {(8, 0), (42, 0x00FFFF00)}"]) auto

lemma echo_ok: "set out \<subseteq> {(8, 0), (42, 0x00FFFF00)} \<Longrightarrow> list_all call_ok (echo_calls out)"
proof -
  assume "set out \<subseteq> {(8, 0), (42, 0x00FFFF00)}"
  moreover have "printable_text [42]" by (simp add: printable_text_def)
  ultimately show ?thesis by (auto simp: echo_calls_def list_all_iff)
qed

lemma ignition_ok: "list_all call_ok ignition_calls"
proof -
  have "printable_text (lit ''CONSENSUS SOVEREIGN ACCESS'')" "printable_text (lit ''ENTER ACCESS KEY: '')" by code_simp+
  then show ?thesis by (simp add: ignition_calls_def)
qed

lemma ignition_runs:
  assumes "gfx_ok g" "read_password 64 (mc_stack mc) (mc_keyboard mc) = Some (pass, out, kb)"
  shows "\<exists>g'. ignition mc g = Some (pass, g', kb) \<and> gfx_ok g' \<and> same_shape g g'"
proof -
  obtain g1 where g1: "run_calls ignition_calls g = Some g1" "gfx_ok g1" "same_shape g g1"
    using screen.steps_total [of g g ignition_calls] assms(1) ignition_ok by (auto simp: run_calls_def)
  have c: "gfx_ok (set_cursor 400 280 g1)" "same_shape g1 (set_cursor 400 280 g1)"
    using g1(2) by (simp_all add: set_cursor_def gfx_ok_def same_shape_def stride_def)
  obtain g2 where g2: "swap_buffers (set_cursor 400 280 g1) = Some g2" "same_shape (set_cursor 400 280 g1) g2"
    using swap_shape [OF c(1)] by blast
  have ok2: "gfx_ok g2" by (rule same_shape_ok [OF g2(2) c(1)])
  have "set out \<subseteq> {(8, 0), (42, 0x00FFFF00)}"
    using assms(2) by (auto simp: read_password_def split: option.splits dest!: read_password_echo)
  then obtain g3 where g3: "run_calls (echo_calls out) g2 = Some g3" "gfx_ok g3" "same_shape g2 g3"
    using screen.steps_total [of g2 g2 "echo_calls out"] ok2 echo_ok by (auto simp: run_calls_def)
  have "same_shape g g3"
    by (rule same_shape_trans [OF same_shape_trans [OF g1(3) c(2)] same_shape_trans [OF g2(2) g3(3)]])
  then show ?thesis using g1(1) g2(1) g3(1,2) assms(2) by (simp add: ignition_def)
qed

lemma initialize_pmm:
  "graphics_initialize pmm mem0 lfb w h p g = Some (g', pmm') \<Longrightarrow> pmm' = snd (allocate pmm (ucast (h * p)))"
  by (auto simp: graphics_initialize_def Let_def split: option.splits prod.splits)

text \<open>The requests of start-up fit the arena: those of the disk, if any, the back buffer's, and the rest.\<close>

lemma arena_requests:
  assumes "ds \<in> {[], [1024, 256, TABLE_BYTES]}" "unat hp \<le> 2 ^ 29"
    and "bs = fst (alloc_seq allocate kernel_arena (ds @ [hp] @ [4096, 4096, word_of_nat POOL_BYTES]))"
  shows "\<forall>b \<in> set bs. fst b \<noteq> 0"
    and "\<forall>b \<in> set bs. 0x2000000 \<le> unat (fst b) \<and> unat (fst b) + unat (snd b) < 0x42000000 \<and> 16384 dvd unat (fst b)"
    and "sorted_wrt (\<lambda>b c. block_bytes b \<inter> block_bytes c = {}) bs"
proof -
  have arena: "arena_ok kernel_arena" by (simp add: PhysicalMemory_def arena_ok_def align16k_def)
  have req: "list_all request_ok (ds @ [hp] @ [4096, 4096, word_of_nat POOL_BYTES])"
    using assms(1,2) by (auto simp: request_ok_def TABLE_BYTES_def POOL_BYTES_def)
  show nonnull: "\<forall>b \<in> set bs. fst b \<noteq> 0"
    unfolding assms(3) using assms(1,2)
    by (intro alloc_seq_fits arena req) (auto simp: PhysicalMemory_def TABLE_BYTES_def POOL_BYTES_def)
  show "\<forall>b \<in> set bs. 0x2000000 \<le> unat (fst b) \<and> unat (fst b) + unat (snd b) < 0x42000000 \<and> 16384 dvd unat (fst b)"
    using pmm.alloc_seq_above [OF arena req] nonnull unfolding assms(3) by (fastforce simp: PhysicalMemory_def)
  show "sorted_wrt (\<lambda>b c. block_bytes b \<inter> block_bytes c = {}) bs"
    using alloc_seq_pairwise [OF arena req] nonnull unfolding assms(3) by blast
qed

lemma back_buffer_bytes:
  assumes "unat (h :: u32) * unat p \<le> 2 ^ 29"
  shows "unat (ucast (h * p) :: u64) = unat h * unat p"
proof -
  have "unat (h * p) = unat h * unat p" using assms by (subst unat_mult_lem [THEN iffD1]) simp_all
  then show ?thesis using assms by (simp add: unsigned_ucast_eq take_bit_nat_eq_self)
qed

lemma boot_screen_runs:
  assumes "list_all tag_ok tags" "mem_read (mc_mem mc) (unat info_addr) (length (info_bytes tags)) = info_bytes tags"
    and "unat info_addr + length (info_bytes tags) \<le> 0x2000000"
    and "last_framebuffer tags = Some fb" "unat (fb_w fb) \<le> unat (fb_p fb) div 4"
    and "unat (fb_h fb) * unat (fb_p fb) \<le> 2 ^ 29" "length (mc_pixels mc (fb_lfb fb)) = unat (fb_h fb) * unat (fb_p fb) div 4"
    and "unat (fb_lfb fb) + unat (fb_h fb) * unat (fb_p fb) \<le> 2 ^ 32"
    and "\<forall>i < 0x2000000. phys_bytes hw i = mc_mem mc i" "allocate (phys_pmm hw) (ucast (fb_h fb * fb_p fb)) = (bb, pmm)" "bb \<noteq> 0"
  shows "\<exists>g. boot_screen mc 0x36d76289 info_addr hw = Some (g, pmm) \<and> gfx_ok g \<and> width_px g = fb_w fb \<and> height_px g = fb_h fb"
proof -
  have "mem_read (phys_bytes hw) (unat info_addr) (length (info_bytes tags)) = mem_read (mc_mem mc) (unat info_addr) (length (info_bytes tags))"
    using assms(3,9) by (auto simp: mem_read_def)
  then have "mem_read (phys_bytes hw) (unat info_addr) (length (info_bytes tags)) = info_bytes tags" using assms(2) by simp
  then have found: "find_framebuffer (phys_bytes hw) info_addr = Some (Some fb)"
    using framebuffer_walk [OF assms(1), of "phys_bytes hw" info_addr] assms(3,4) by simp
  have "fst (allocate (phys_pmm hw) (ucast (fb_h fb * fb_p fb))) \<noteq> 0" using assms(10,11) by simp
  moreover have "mapped_pixels (fb_lfb fb) (mc_pixels mc (fb_lfb fb)) = mc_pixels mc (fb_lfb fb)"
    using assms(7,8) by (simp add: mapped_pixels_def div_le_mono)
  ultimately obtain g pmm' where g: "graphics_initialize (phys_pmm hw) (mc_back0 mc)
      (mapped_pixels (fb_lfb fb) (mc_pixels mc (fb_lfb fb))) (fb_w fb) (fb_h fb) (fb_p fb) Graphics =
      Some (g, pmm')" "gfx_ok g" "width_px g = fb_w fb" "height_px g = fb_h fb"
    using graphics_initialize_ok [OF assms(5) _ assms(7)] assms(6) by fastforce
  have "pmm' = pmm" using initialize_pmm [OF g(1)] assms(10) by simp
  then show ?thesis using g by (simp add: boot_screen_def found)
qed

text \<open>Once disk and screen are there, the rest of start-up runs.\<close>

lemma kmain_boot_runs:
  assumes "boot_disk mc kernel_arena = Some (disk, hw)" "boot_screen mc magic info_addr hw = Some (g, p1)" "gfx_ok g"
    and "read_password 64 (mc_stack mc) (mc_keyboard mc) = Some (pass, out, kb)"
  shows "\<exists>s. kmain_boot mc magic info_addr = Some s \<and> gfx_ok (g_vga s) \<and> same_shape g (g_vga s) \<and>
    g_disk s = disk \<and> g_hba s = hw \<and> alloc_seq allocate p1 [4096, 4096, word_of_nat POOL_BYTES] = (core_blocks s, g_pmm s) \<and>
    g_master_seed s = argon2_derive (c_string pass) (c_string (generate_device_id (mc_signature mc) (mc_features mc) (mc_brand mc))) None \<and>
    (\<forall>a. holographic_fetch (g_manifold s) a = val128 0 0)"
proof -
  obtain faults where faults: "init_idt (mc_entry mc) (mc_idt_addr mc) fault_state0 = Some faults"
    by (simp add: init_idt_def set_idt_gate_def fault_state0_def Let_def)
  obtain pit where pit: "timer_initialize 100 = Some pit" by (simp add: timer_initialize_def Let_def)
  obtain g' where g': "ignition mc g = Some (pass, g', kb)" "gfx_ok g'" "same_shape g g'"
    using ignition_runs [OF assms(3,4)] by blast
  obtain a p2 where a: "allocate p1 4096 = (a, p2)" by fastforce
  obtain b p3 where b: "allocate p2 4096 = (b, p3)" by fastforce
  obtain c p4 where c: "allocate p3 (word_of_nat POOL_BYTES) = (c, p4)" by fastforce
  let ?vmx = "\<lparr>vmxon_region = a, vmcs_region = b\<rparr>"
  obtain m1 where vmx: "VMXController p1 (phys_bytes hw) = (?vmx, p3, m1)" by (simp add: VMXController_def a b)
  obtain ready cpu m2 where en: "vmx_enable (mc_vmxon mc) (mc_vmptrld mc) ?vmx (mc_cpu mc) m1 = (ready, cpu, m2)"
    by (metis prod_cases3)
  let ?mf = "\<lparr>cache_pool_base = c, cache_pool = mc_pool0 mc, cache_state = (\<lambda>_. EMPTY), vblock_map = mc_map0 mc, vblock_counter = 0\<rparr>"
  have mf: "SubstrateManifold p3 (mc_pool0 mc) (mc_map0 mc) = (?mf, p4)" by (simp add: SubstrateManifold_def c)
  let ?seed = "argon2_derive (c_string pass) (c_string (generate_device_id (mc_signature mc) (mc_features mc) (mc_brand mc))) None"
  obtain s where s: "kmain_boot mc magic info_addr = Some s" "g_vga s = g'" "g_disk s = disk" "g_hba s = hw"
    "g_vmx s = ?vmx" "g_manifold s = ?mf" "g_master_seed s = ?seed" "g_pmm s = p4"
    unfolding kmain_boot_def faults pit assms(1,2) prod.case option.case vmx Let_def en g'(1) mf manual_init_def manifold_initialize_def
    by (metis (no_types, lifting) kernel.select_convs)
  have "find_slot ?mf vb = None" for vb by (simp add: find_slot_def find_None_iff)
  then have "\<forall>x. holographic_fetch (g_manifold s) x = val128 0 0" by (simp add: fetch_find_slot s)
  moreover have "alloc_seq allocate p1 [4096, 4096, word_of_nat POOL_BYTES] = (core_blocks s, g_pmm s)"
    by (simp add: core_blocks_def s a b c)
  ultimately show ?thesis using s g'(2,3) by simp
qed

section \<open>Properties\<close>


definition example_machine :: machine where
  "example_machine =
    \<lparr>mc_entry = \<lparr>exception_handler_ud = 1, exception_handler_nm = 2, exception_handler_df = 3,
                 exception_handler_gp = 4, timer_interrupt_handler = 5\<rparr>,
     mc_idt_addr = 0x100000, mc_pci = example_pci, mc_ghc = 0, mc_pi = 1,
     mc_ports = (\<lambda>_. \<lparr>port_clb = 0, port_clbu = 0, port_fb = 0, port_fbu = 0, port_cmd = 0, port_ssts = 3\<rparr>),
     mc_port_polls = (\<lambda>k. if k = 0 then 0xC000 else 0),
     mc_mem = mem_write (\<lambda>_. 0) 0x10000
       (info_bytes [(8, to_le 8 (0xFD000000 :: u64) @ to_le 4 (64 :: u32) @ to_le 4 (16 :: u32) @ to_le 4 (8 :: u32))]),
     mc_pixels = (\<lambda>_. replicate 128 0), mc_back0 = (\<lambda>_. 7),
     mc_cpu = \<lparr>msr = (\<lambda>_. (0, 0)), cpuid1_ecx = 0, cr0 = 0, cr3 = 0, cr4 = 0\<rparr>,
     mc_vmxon = (\<lambda>_ _ _. True), mc_vmptrld = (\<lambda>_ _ _. True),
     mc_keyboard = Keyboard [[0x1C, 0x1C], [], []], mc_stack = replicate 64 0,
     mc_signature = 1, mc_features = 2, mc_brand = (3, 4, 5, 6), mc_storage = (0, 0, 0),
     mc_pool0 = (\<lambda>_. 0), mc_map0 = (\<lambda>_. 0)\<rparr>"


text \<open>The access key typed at the prompt.\<close>

definition typed_key :: "machine \<Rightarrow> cstr option" where
  "typed_key mc = map_option (\<lambda>(pass, out, kb). c_string pass) (read_password 64 (mc_stack mc) (mc_keyboard mc))"

lemma kmain_boot_seed:
  assumes "kmain_boot mc magic info_addr = Some s"
  shows "\<exists>key. typed_key mc = Some key \<and>
    g_master_seed s = argon2_derive key (c_string (generate_device_id (mc_signature mc) (mc_features mc) (mc_brand mc))) None"
proof -
  have "ignition mc g = Some (pass, vga, kb) \<Longrightarrow> typed_key mc = Some (c_string pass)" for g pass vga kb
    by (auto simp: ignition_def typed_key_def split: option.splits)
  then show ?thesis
    using assms by (fastforce simp: kmain_boot_def Let_def split: option.splits prod.splits)
qed

lemma kmain_boot_rest:
  assumes "kmain_boot mc magic info_addr = Some s" "kmain_boot (mc\<lparr>mc_keyboard := kb2, mc_stack := st2\<rparr>) magic info_addr = Some s2"
  shows "s2 = s\<lparr>g_vga := g_vga s2, g_kb := g_kb s2, g_master_seed := g_master_seed s2,
    g_control := \<lparr>cp_width = width_px (g_vga s2), cp_master_seed = g_master_seed s2, cp_manifold = g_manifold s\<rparr>\<rparr>"
proof -
  have "boot_disk (mc\<lparr>mc_keyboard := kb2, mc_stack := st2\<rparr>) p = boot_disk mc p"
    "boot_screen (mc\<lparr>mc_keyboard := kb2, mc_stack := st2\<rparr>) magic info_addr hw = boot_screen mc magic info_addr hw" for p hw
    by (simp_all add: boot_disk_def boot_screen_def Let_def cong: if_cong option.case_cong)
  then show ?thesis
    using assms by (auto simp: kmain_boot_def Let_def manual_init_def manifold_initialize_def split: option.splits prod.splits)
qed

lemma boot_without_screen:
  assumes "\<not> bit (mc_port_polls mc n) 15" "\<not> bit (mc_port_polls mc n) 14"
    and "read_password 64 (mc_stack mc) (mc_keyboard mc) \<noteq> None"
  shows "\<exists>s. kmain_boot mc 0 0 = Some s \<and> gfx_ok (g_vga s)"
proof -
  have g: "gfx_ok Graphics" by (simp add: gfx_ok_def Graphics_def stride_def)
  obtain disk hw where disk: "boot_disk mc kernel_arena = Some (disk, hw)" using boot_disk_runs [OF assms(1,2)] by blast
  have screen: "boot_screen mc 0 0 hw = Some (Graphics, phys_pmm hw)" by (simp add: boot_screen_def)
  show ?thesis using kmain_boot_runs [OF disk screen g] assms(3) by fastforce
qed

text \<open>C39: the access key opens nothing. Whatever is typed, the kernel starts with the same disk, processor,
  memory, resources and empty manifold; only the screen, the keyboard and the seed kept in the globals
  differ. And two keys that are each some string of eight, sixteen, \<open>\<dots>\<close> characters typed twice even give
  the same seed.\<close>
theorem access_key_opens_nothing:
  assumes "kmain_boot mc magic info_addr = Some s" "kmain_boot (mc\<lparr>mc_keyboard := kb2, mc_stack := st2\<rparr>) magic info_addr = Some s2"
  shows "s2 = s\<lparr>g_vga := g_vga s2, g_kb := g_kb s2, g_master_seed := g_master_seed s2,
      g_control := \<lparr>cp_width = width_px (g_vga s2), cp_master_seed = g_master_seed s2, cp_manifold = g_manifold s\<rparr>\<rparr> \<and>
    (typed_key mc = Some (p @ p) \<and> typed_key (mc\<lparr>mc_keyboard := kb2, mc_stack := st2\<rparr>) = Some (q @ q) \<and>
     8 dvd length p \<and> 8 dvd length q \<longrightarrow> g_master_seed s2 = g_master_seed s)"
proof -
  have "argon2_derive (r @ r) h None = argon2_derive [] h None" if "8 dvd length r" for r h
    using that by (simp add: argon2_derive_def mix_from_twice)
  then have "g_master_seed s2 = g_master_seed s"
    if "typed_key mc = Some (p @ p)" "typed_key (mc\<lparr>mc_keyboard := kb2, mc_stack := st2\<rparr>) = Some (q @ q)" "8 dvd length p" "8 dvd length q"
    using that kmain_boot_seed [OF assms(1)] kmain_boot_seed [OF assms(2)] by auto
  then show ?thesis using kmain_boot_rest [OF assms] by blast
qed

lemma access_key_opens_nothing_witness:
  "\<exists>s s2. kmain_boot example_machine 0 0 = Some s \<and>
    kmain_boot (example_machine\<lparr>mc_keyboard := Keyboard [[0x1E, 0x1E], [], [], [0x1C, 0x1C], [], []], mc_stack := replicate 64 1\<rparr>) 0 0 = Some s2 \<and>
    g_manifold s2 = g_manifold s \<and> g_hba s2 = g_hba s"
proof -
  define kb2 where "kb2 = Keyboard [[0x1E, 0x1E], [], [], [0x1C, 0x1C], [], []]"
  define st2 :: "u8 list" where "st2 = replicate 64 1"
  let ?m2 = "example_machine\<lparr>mc_keyboard := kb2, mc_stack := st2\<rparr>"
  have polls: "\<not> bit (mc_port_polls example_machine 1) 15" "\<not> bit (mc_port_polls example_machine 1) 14"
    by (simp_all add: example_machine_def)
  have "read_password 64 (replicate 64 0) (Keyboard [[0x1C, 0x1C], [], []]) \<noteq> None" by code_simp
  then have p1: "read_password 64 (mc_stack example_machine) (mc_keyboard example_machine) \<noteq> None"
    by (simp add: example_machine_def)
  have p2: "read_password 64 st2 kb2 \<noteq> None" unfolding kb2_def st2_def by code_simp
  obtain s where s: "kmain_boot example_machine 0 0 = Some s" using boot_without_screen [OF polls p1] by blast
  obtain s2 where s2: "kmain_boot ?m2 0 0 = Some s2" using boot_without_screen [of ?m2 1] polls p2 by auto
  note eq = conjunct1 [OF access_key_opens_nothing [OF s s2]]
  have "g_manifold s2 = g_manifold s" "g_hba s2 = g_hba s"
    using arg_cong [OF eq, of g_manifold] arg_cong [OF eq, of g_hba] by simp_all
  then show ?thesis using s s2 unfolding kb2_def st2_def by blast
qed

end
