(* ===== verification/FaultStub.thy ===== *)
theory FaultStub
  imports Idt
begin

text \<open>
  The assembly entry points of \<open>src/boot/boot.S\<close> that the descriptor table leads to, instruction by
  instruction, together with the C++ handlers they call. The stack is a store of 64-bit slots by address;
  the C++ function \<open>resolve_hic\<close> is given here on pointers into it, as the code has it. A C++ function keeps
  the registers the calling convention says and may leave anything in the others and below the stack
  pointer.
\<close>

unbundle bit_operations_syntax

section \<open>Registers, stack and instructions\<close>

datatype reg = RAX | RBX | RCX | RDX | RSI | RDI | R8 | R9 | R10 | R11 | RSP

record asm_state =
  regs :: "reg \<Rightarrow> u64"
  slots :: "u64 \<Rightarrow> u64"
  outs :: "port_write list"
  globals :: fault_state

definition set_reg :: "reg \<Rightarrow> u64 \<Rightarrow> asm_state \<Rightarrow> asm_state" where
  "set_reg r v s = s\<lparr>regs := (regs s)(r := v)\<rparr>"

text \<open>\<open>Invoke\<close> is \<open>call\<close> of a C++ function, \<open>Iret\<close> ends a handler.\<close>

datatype instr =
    Push reg
  | Pop reg
  | Mov reg reg
  | AddImm reg u64
  | Lea reg reg u64
  | Load reg reg
  | MovImm8 u8
  | OutAL u8
  | Invoke
  | Halt
  | Iret

datatype asm_outcome =
    Running asm_state
  | Returned asm_state u64
  | Hung uart

text \<open>A C++ function: what it does to slots and globals, or what it has printed when it never returns.\<close>

datatype c_result =
    Done "u64 \<Rightarrow> u64" fault_state
  | Never uart

type_synonym c_function = "(reg \<Rightarrow> u64) \<Rightarrow> (u64 \<Rightarrow> u64) \<Rightarrow> fault_state \<Rightarrow> c_result"

definition callee_saved :: "reg \<Rightarrow> bool" where
  "callee_saved r \<longleftrightarrow> r = RBX \<or> r = RSP"

text \<open>\<open>junk\<close> is what the function leaves in the registers it may change, \<open>below\<close> what it leaves below the
  stack pointer, the return address included.\<close>

definition c_call :: "(reg \<Rightarrow> u64) \<Rightarrow> (u64 \<Rightarrow> u64) \<Rightarrow> c_function \<Rightarrow> asm_state \<Rightarrow> asm_outcome" where
  "c_call junk below f s =
    (case f (regs s) (slots s) (globals s) of
       Never u \<Rightarrow> Hung u
     | Done st g \<Rightarrow> Running (s\<lparr>regs := (\<lambda>r. if callee_saved r then regs s r else junk r),
         slots := (\<lambda>a. if a < regs s RSP then below a else st a), globals := g\<rparr>))"

fun exec_instr :: "(reg \<Rightarrow> u64) \<Rightarrow> (u64 \<Rightarrow> u64) \<Rightarrow> c_function \<Rightarrow> uart \<Rightarrow> instr \<Rightarrow> asm_state \<Rightarrow> asm_outcome" where
  "exec_instr junk below f u (Push r) s =
    (let sp = regs s RSP - 8 in Running (s\<lparr>regs := (regs s)(RSP := sp), slots := (slots s)(sp := regs s r)\<rparr>))"
| "exec_instr junk below f u (Pop r) s =
    (let sp = regs s RSP in Running (s\<lparr>regs := (regs s)(RSP := sp + 8, r := slots s sp)\<rparr>))"
| "exec_instr junk below f u (Mov d r) s = Running (set_reg d (regs s r) s)"
| "exec_instr junk below f u (AddImm d n) s = Running (set_reg d (regs s d + n) s)"
| "exec_instr junk below f u (Lea d b off) s = Running (set_reg d (regs s b + off) s)"
| "exec_instr junk below f u (Load d b) s = Running (set_reg d (slots s (regs s b)) s)"
| "exec_instr junk below f u (MovImm8 n) s = Running (set_reg RAX ((regs s RAX AND NOT 0xFF) OR ucast n) s)"
| "exec_instr junk below f u (OutAL port) s = Running (s\<lparr>outs := outs s @ [(ucast port, ucast (regs s RAX))]\<rparr>)"
| "exec_instr junk below f u Invoke s = c_call junk below f s"
| "exec_instr junk below f u Halt s = Hung u"
| "exec_instr junk below f u Iret s = Returned s (slots s (regs s RSP))"

fun exec_asm :: "(reg \<Rightarrow> u64) \<Rightarrow> (u64 \<Rightarrow> u64) \<Rightarrow> c_function \<Rightarrow> uart \<Rightarrow> instr list \<Rightarrow> asm_state \<Rightarrow> asm_outcome" where
  "exec_asm junk below f u [] s = Running s"
| "exec_asm junk below f u (i # is) s =
    (case exec_instr junk below f u i s of Running s' \<Rightarrow> exec_asm junk below f u is s' | out \<Rightarrow> out)"

section \<open>The handlers\<close>

definition exception_handler_ud_code :: "instr list" where
  "exception_handler_ud_code =
    [Push RAX, Push RBX, Mov RAX RSP, AddImm RAX 16, Mov RDX RSP, AddImm RDX 8, Push RCX,
     Lea RDI RSP 24, Mov RSI RAX, Invoke, Pop RCX, Pop RBX, Pop RAX, Iret]"

definition exception_handler_gp_code :: "instr list" where
  "exception_handler_gp_code = [Pop RSI, Load RDI RSP, Invoke, Halt]"

definition exception_handler_nm_code :: "instr list" where
  "exception_handler_nm_code = [Lea RDI RSP 0, Invoke, Iret]"

definition exception_handler_df_code :: "instr list" where
  "exception_handler_df_code = [Halt]"

definition timer_interrupt_handler_code :: "instr list" where
  "timer_interrupt_handler_code =
    [Push RAX, Push RCX, Push RDX, Push RSI, Push RDI, Push R8, Push R9, Push R10, Push R11, Invoke,
     Pop R11, Pop R10, Pop R9, Pop R8, Pop RDI, Pop RSI, Pop RDX, Pop RCX, Pop RAX,
     Push RAX, MovImm8 0x20, OutAL 0x20, Pop RAX, Iret]"

text \<open>\<open>resolve_hic\<close> on its three pointers; the stores are in the order of the code.\<close>

definition resolve_hic_at :: "mem \<Rightarrow> manifold option \<Rightarrow> uart \<Rightarrow> u64 \<Rightarrow> u64 \<Rightarrow> u64 \<Rightarrow> (u64 \<Rightarrow> u64) \<Rightarrow> fault_state \<Rightarrow> c_result" where
  "resolve_hic_at m g_manifold_instance u rip rax rbx st s =
    (if g_fuzz_active s \<noteq> 0 then Done (st(rip := st rip + 2)) (s\<lparr>g_fault_detected := 1\<rparr>)
     else if m (unat (st rip)) = 0x0F \<and> m (unat (st rip + 1)) = 0xFF then
       (case g_manifold_instance of
          None \<Rightarrow> (let st = st(rax := 0x0A) in Done (st(rip := st rip + 2)) s)
        | Some manifold \<Rightarrow>
            let intent = st rax XOR st rbx; res = holographic_fetch manifold intent;
                st = st(rax := v_lo res)
            in Done (st(rip := st rip + 2)) s)
     else Never (dump_registers (st rip) (st rax) (st rbx) u))"

definition call_resolve_hic :: "mem \<Rightarrow> manifold option \<Rightarrow> uart \<Rightarrow> c_function" where
  "call_resolve_hic m mo u r st s = resolve_hic_at m mo u (r RDI) (r RSI) (r RDX) st s"

definition of_outcome :: "(u64 \<Rightarrow> u64) \<Rightarrow> fault_outcome \<Rightarrow> c_result" where
  "of_outcome st out = (case out of Resumed s rip rax \<Rightarrow> Done st s | Halted s u \<Rightarrow> Never u)"

definition call_gp_fault :: "uart \<Rightarrow> c_function" where
  "call_gp_fault u r st s = of_outcome st (handle_gp_fault (r RDI) u s)"

definition call_nm_fault :: "uart \<Rightarrow> c_function" where
  "call_nm_fault u r st s = of_outcome st (handle_nm_fault (r RDI) u s)"

definition call_timer_pulse :: c_function where
  "call_timer_pulse r st s = Done st (handle_timer_pulse s)"

section \<open>Lemmas\<close>

text \<open>On three different pointers the handler is the one on values.\<close>

lemma resolve_hic_at_values:
  assumes "rip \<noteq> rax" "rip \<noteq> rbx" "rax \<noteq> rbx"
  shows "resolve_hic_at m mo u rip rax rbx st s =
    (case resolve_hic m mo u (st rip) (st rax) (st rbx) s of
       Resumed s' rip' rax' \<Rightarrow> Done (st(rax := rax', rip := rip')) s'
     | Halted s' u' \<Rightarrow> Never u')"
  using assms by (auto simp: resolve_hic_at_def resolve_hic_def Let_def fun_upd_twist split: option.split)

lemma stack_slot_kept: "unat j \<le> unat n \<Longrightarrow> unat n \<le> unat (sp :: u64) \<Longrightarrow> \<not> sp - j < sp - n"
  by (simp add: word_less_nat_alt unat_sub word_le_nat_alt)

lemma stack_above_kept:
  assumes "0 < unat n" "unat n \<le> unat (sp :: u64)" "sp \<le> a"
  shows "\<not> a < sp - n" "a \<noteq> sp - n"
  using assms by (auto simp: word_less_nat_alt unat_sub word_le_nat_alt)

lemma al_loaded: "ucast ((x :: u64) AND - 256 OR 32) = (32 :: u8)"
proof -
  have "x AND - 256 = x AND NOT (mask 8)" by (simp add: mask_eq_decr_exp)
  then show ?thesis by (auto intro!: bit_word_eqI simp: bit_simps)
qed

lemmas stub_simps = c_call_def set_reg_def callee_saved_def diff_diff_add

section \<open>Properties\<close>

text \<open>The entry of the invalid-opcode handler around any C++ function that leaves its three saved slots and the
  interrupt frame where they are.\<close>

lemma ud_stub_calls:
  assumes "24 \<le> unat (regs s RSP)" "regs s RSP = sp"
    and "f ((regs s)(RAX := sp, RDX := sp - 8, RSP := sp - 24, RDI := sp, RSI := sp))
          ((slots s)(sp - 8 := regs s RAX, sp - 16 := regs s RBX, sp - 24 := regs s RCX)) (globals s) = Done st g"
  shows "\<exists>s'. exec_asm junk below f u exception_handler_ud_code s = Returned s' (st sp) \<and> globals s' = g \<and>
    regs s' = junk(RAX := st (sp - 8), RBX := st (sp - 16), RCX := st (sp - 24), RSP := sp) \<and> outs s' = outs s"
  using assms stack_above_kept(1) [of 24 sp sp] unfolding exception_handler_ud_code_def
  by (auto simp: stub_simps Let_def stack_slot_kept)

lemma ud_stub_hangs:
  assumes "regs s RSP = sp"
    and "f ((regs s)(RAX := sp, RDX := sp - 8, RSP := sp - 24, RDI := sp, RSI := sp))
          ((slots s)(sp - 8 := regs s RAX, sp - 16 := regs s RBX, sp - 24 := regs s RCX)) (globals s) = Never u'"
  shows "exec_asm junk below f u exception_handler_ud_code s = Hung u'"
  using assms unfolding exception_handler_ud_code_def by (simp add: stub_simps Let_def)

lemma timer_stub_calls:
  assumes "72 \<le> unat (regs s RSP)"
  shows "\<exists>s'. exec_asm junk below call_timer_pulse u timer_interrupt_handler_code s = Returned s' (slots s (regs s RSP)) \<and>
    globals s' = handle_timer_pulse (globals s) \<and> regs s' r = regs s r \<and> outs s' = outs s @ [(0x20, 0x20)] \<and>
    (regs s RSP \<le> a \<longrightarrow> slots s' a = slots s a)"
  using assms stack_above_kept [of _ "regs s RSP" a] stack_above_kept(1) [of 72 "regs s RSP" "regs s RSP"]
  unfolding timer_interrupt_handler_code_def
  by (cases r) (simp_all add: stub_simps call_timer_pulse_def Let_def stack_slot_kept al_loaded)

section \<open>Properties\<close>

definition emergent_at :: "mem \<Rightarrow> u64 \<Rightarrow> bool" where
  "emergent_at m rip \<longleftrightarrow> m (unat rip) = 0x0F \<and> m (unat (rip + 1)) = 0xFF"

text \<open>C36: the entry of the invalid-opcode exception hands its handler the wrong slots, so the emergent
  instruction never delivers: where the handler on the right slots would put the word at \<open>rax XOR rbx\<close> in
  rax and go on behind the instruction, the processor jumps to the word stored at \<open>rip XOR rax\<close> plus two
  (to address 12 without a manifold) with rax, rbx and rcx as they were and every other register the C++
  function may change lost. Any other instruction is reported with rip printed as rax and rax as rbx; only
  in fuzzing mode are two bytes skipped as meant.\<close>
theorem ud_stub_swaps_slots:
  assumes "24 \<le> unat (regs s RSP)" "slots s (regs s RSP) = rip"
  shows "(g_fuzz_active (globals s) = 0 \<longrightarrow> emergent_at m rip \<longrightarrow>
      (\<exists>s'. exec_asm junk below (call_resolve_hic m mo u) u exception_handler_ud_code s =
          Returned s' (case mo of None \<Rightarrow> 12 | Some mf \<Rightarrow> v_lo (holographic_fetch mf (rip XOR regs s RAX)) + 2) \<and>
        globals s' = globals s \<and>
        regs s' = junk(RAX := regs s RAX, RBX := regs s RBX, RCX := regs s RCX, RSP := regs s RSP))) \<and>
    (g_fuzz_active (globals s) = 0 \<longrightarrow> \<not> emergent_at m rip \<longrightarrow>
      exec_asm junk below (call_resolve_hic m mo u) u exception_handler_ud_code s = Hung (dump_registers rip rip (regs s RAX) u)) \<and>
    (g_fuzz_active (globals s) \<noteq> 0 \<longrightarrow>
      (\<exists>s'. exec_asm junk below (call_resolve_hic m mo u) u exception_handler_ud_code s = Returned s' (rip + 2) \<and>
        globals s' = (globals s)\<lparr>g_fault_detected := 1\<rparr>))"
proof -
  define sp where "sp = regs s RSP"
  define st where "st = (slots s)(sp - 8 := regs s RAX, sp - 16 := regs s RBX, sp - 24 := regs s RCX)"
  define f where "f = call_resolve_hic m mo u"
  let ?r = "(regs s)(RAX := sp, RDX := sp - 8, RSP := sp - 24, RDI := sp, RSI := sp)"
  have st: "st sp = rip" "st (sp - 8) = regs s RAX" "st (sp - 16) = regs s RBX" "st (sp - 24) = regs s RCX"
    using assms(2) by (simp_all add: st_def sp_def)
  have f: "f ?r st (globals s) = resolve_hic_at m mo u sp sp (sp - 8) st (globals s)"
    by (simp add: f_def call_resolve_hic_def)
  note runs = ud_stub_calls [OF assms(1) sp_def [symmetric], of f, folded st_def]
    and hangs = ud_stub_hangs [OF sp_def [symmetric], of f, folded st_def]
  show ?thesis
    unfolding f_def [symmetric] sp_def [symmetric]
  proof (intro conjI impI)
    assume a: "g_fuzz_active (globals s) = 0" "emergent_at m rip"
    let ?pc = "case mo of None \<Rightarrow> 12 | Some mf \<Rightarrow> v_lo (holographic_fetch mf (rip XOR regs s RAX)) + 2"
    have "f ?r st (globals s) = Done (st(sp := ?pc)) (globals s)"
      using a st unfolding f by (auto simp: resolve_hic_at_def emergent_at_def Let_def split: option.splits)
    from runs [OF this, of junk below u]
    show "\<exists>s'. exec_asm junk below f u exception_handler_ud_code s = Returned s' ?pc \<and> globals s' = globals s \<and>
        regs s' = junk(RAX := regs s RAX, RBX := regs s RBX, RCX := regs s RCX, RSP := sp)"
      by (auto simp: st)
  next
    assume a: "g_fuzz_active (globals s) = 0" "\<not> emergent_at m rip"
    show "exec_asm junk below f u exception_handler_ud_code s = Hung (dump_registers rip rip (regs s RAX) u)"
      by (rule hangs) (use a st f in \<open>auto simp: resolve_hic_at_def emergent_at_def\<close>)
  next
    assume a: "g_fuzz_active (globals s) \<noteq> 0"
    have "f ?r st (globals s) = Done (st(sp := rip + 2)) ((globals s)\<lparr>g_fault_detected := 1\<rparr>)"
      using a st unfolding f by (simp add: resolve_hic_at_def)
    from runs [OF this, of junk below u]
    show "\<exists>s'. exec_asm junk below f u exception_handler_ud_code s = Returned s' (rip + 2) \<and>
        globals s' = (globals s)\<lparr>g_fault_detected := 1\<rparr>" by auto
  qed
qed

definition example_frame :: asm_state where
  "example_frame = \<lparr>regs = (\<lambda>r. if r = RSP then 0x8000 else if r = RAX then 0x1230 else 0),
     slots = (\<lambda>a. if a = 0x8000 then 0x5000 else 0), outs = [], globals = fault_state0\<rparr>"

lemma ud_stub_swaps_slots_witness:
  "\<exists>s'. exec_asm (\<lambda>_. 9) (\<lambda>_. 9) (call_resolve_hic (\<lambda>i. if i = 0x5000 then 0x0F else 0xFF) None
      \<lparr>line_status = (\<lambda>_. 0), status_reads = 0, sent = []\<rparr>) \<lparr>line_status = (\<lambda>_. 0), status_reads = 0, sent = []\<rparr>
      exception_handler_ud_code example_frame = Returned s' 12 \<and> regs s' RAX = 0x1230 \<and> regs s' RDX = 9"
proof -
  have h: "24 \<le> unat (regs example_frame RSP)" "slots example_frame (regs example_frame RSP) = 0x5000"
    by (simp_all add: example_frame_def)
  have e: "emergent_at (\<lambda>i. if i = 0x5000 then 0x0F else 0xFF) 0x5000" by (simp add: emergent_at_def)
  from ud_stub_swaps_slots [OF h, of "\<lambda>i. if i = 0x5000 then 0x0F else 0xFF" "\<lambda>_. 9" "\<lambda>_. 9" None
      "\<lparr>line_status = (\<lambda>_. 0), status_reads = 0, sent = []\<rparr>"] e
  show ?thesis by (auto simp: example_frame_def fault_state0_def)
qed

text \<open>C37: the timer interrupt is invisible to the code it stops: every register has its value again, the
  stack from the interrupt frame on is untouched, execution goes on at the interrupted instruction, the
  pulse has gone up by one and the interrupt controller has been told.\<close>
theorem timer_stub_transparent:
  assumes "72 \<le> unat (regs s RSP)"
  shows "\<exists>s'. exec_asm junk below call_timer_pulse u timer_interrupt_handler_code s = Returned s' (slots s (regs s RSP)) \<and>
    regs s' = regs s \<and> (\<forall>a. slots s' a \<noteq> slots s a \<longrightarrow> a < regs s RSP) \<and>
    globals s' = (globals s)\<lparr>g_temporal_pulse := g_temporal_pulse (globals s) + 1\<rparr> \<and> outs s' = outs s @ [(0x20, 0x20)]"
proof -
  note t = timer_stub_calls [OF assms, of junk below u]
  obtain s' where s': "exec_asm junk below call_timer_pulse u timer_interrupt_handler_code s = Returned s' (slots s (regs s RSP))"
    "globals s' = handle_timer_pulse (globals s)" "outs s' = outs s @ [(0x20, 0x20)]" using t [of RAX 0] by blast
  have "regs s' r = regs s r" "regs s RSP \<le> a \<longrightarrow> slots s' a = slots s a" for r a using t [of r a] s'(1) by auto
  then show ?thesis using s' by (auto simp: handle_timer_pulse_def not_le [symmetric])
qed

lemma timer_stub_transparent_witness:
  "\<exists>s'. exec_asm (\<lambda>_. 9) (\<lambda>_. 9) call_timer_pulse \<lparr>line_status = (\<lambda>_. 0), status_reads = 0, sent = []\<rparr>
      timer_interrupt_handler_code example_frame = Returned s' 0x5000 \<and> regs s' RAX = 0x1230 \<and>
    g_temporal_pulse (globals s') = 1"
  using timer_stub_transparent [of example_frame "\<lambda>_. 9" "\<lambda>_. 9" "\<lparr>line_status = (\<lambda>_. 0), status_reads = 0, sent = []\<rparr>"]
  by (auto simp: example_frame_def fault_state0_def)

text \<open>The other two reporting entries: a general protection fault is reported at the address the processor
  pushed above the error code, but an unavailable unit at the address of the stack slot that holds it.\<close>
theorem fault_reports:
  "exec_asm junk below (call_gp_fault u) u exception_handler_gp_code s =
     Hung (raw_print_hex (slots s (regs s RSP + 8)) (raw_print (lit ''\<newline>[GP] Fault at '') u)) \<and>
   exec_asm junk below (call_nm_fault u) u exception_handler_nm_code s =
     Hung (raw_print_hex (regs s RSP) (raw_print (lit ''\<newline>[NM] SSE Unavailable at '') u)) \<and>
   exec_asm junk below f u exception_handler_df_code s = Hung u"
  by (simp add: exception_handler_gp_code_def exception_handler_nm_code_def exception_handler_df_code_def
      stub_simps call_gp_fault_def call_nm_fault_def handle_gp_fault_def handle_nm_fault_def of_outcome_def Let_def)

end
