(* ===== verification/KernelLoop.thy ===== *)
theory KernelLoop
  imports Kernel FaultStub
begin

text \<open>
  The kernel after start-up: the endless loop of \<open>kmain\<close> (\<open>src/boot/kmain.cpp\<close>) with the shell it calls, and
  the timer interrupt that can come between any two of its turns. A turn of the main thread draws one frame
  and handles one scancode (0 when the keyboard had none); in the shell it is the body of the loop after the
  wait for the next pulse. An interrupt within a turn is one right after it, since a turn reads the pulse
  only at its start. What C++ leaves undefined (a
  store outside a buffer, the overflow of an \<open>int\<close>) ends the model at the place \<open>Undefined\<close>.
\<close>

unbundle bit_operations_syntax

section \<open>Turns\<close>

text \<open>\<open>Workspace\<close> has \<open>g_in_control_panel\<close> and \<open>last_pulse\<close>.\<close>

datatype place = Menu nat | Workspace bool u64 | Undefined

record console =
  cn_faults :: fault_state
  cn_vga :: graphics
  cn_shell :: shell
  cn_place :: place

datatype event = Tick | Key u8

text \<open>The main loop is entered with the globals \<open>g_focus\<close> and \<open>hypercube_frame\<close> at their initial values.\<close>

definition loop_start :: "kernel \<Rightarrow> console" where
  "loop_start k = \<lparr>cn_faults = g_faults k, cn_vga = g_vga k, cn_shell = enter_shell REGION_CONSOLE 0 (g_res k),
     cn_place = Menu 0\<rparr>"

text \<open>The call of the shell: the command line is emptied, the pulse read and the screen cleared.\<close>

definition call_shell :: "bool \<Rightarrow> console \<Rightarrow> console option" where
  "call_shell panel c =
    (let sh = enter_shell (g_focus (cn_shell c)) (hypercube_frame (cn_shell c)) (sh_res (cn_shell c));
         last_pulse = g_temporal_pulse (cn_faults c)
     in case run_calls [Clear 0x00080808] (cn_vga c) of
          None \<Rightarrow> None
        | Some g \<Rightarrow> Some (c\<lparr>cn_vga := g, cn_shell := sh, cn_place := Workspace panel last_pulse\<rparr>))"

definition menu_turn :: "build \<Rightarrow> bool \<Rightarrow> nat \<Rightarrow> u8 \<Rightarrow> console \<Rightarrow> console option" where
  "menu_turn b ready selection sc c =
    (case run_calls (menu_frame b ready selection) (cn_vga c) of
       None \<Rightarrow> None
     | Some g \<Rightarrow>
         let c = c\<lparr>cn_vga := g\<rparr>;
             selection = (if sc = KEY_UP then 0 else selection);
             selection = (if sc = KEY_DOWN then 1 else selection)
         in if sc = 0x1C then call_shell (selection \<noteq> 0) c else Some (c\<lparr>cn_place := Menu selection\<rparr>))"

definition shell_turn :: "build \<Rightarrow> control_panel \<Rightarrow> bool \<Rightarrow> u8 \<Rightarrow> console \<Rightarrow> console option" where
  "shell_turn b control panel sc c =
    (let last_pulse = g_temporal_pulse (cn_faults c)
     in case shell_frame b control panel (cn_shell c) of
          None \<Rightarrow> None
        | Some calls \<Rightarrow>
            (case run_calls calls (cn_vga c) of
               None \<Rightarrow> None
             | Some g \<Rightarrow>
                 (case handle_key sc (cn_shell c) of
                    None \<Rightarrow> None
                  | Some sh \<Rightarrow> Some (c\<lparr>cn_vga := g, cn_shell := sh,
                      cn_place := (if g_in_shell sh then Workspace panel last_pulse else Menu 0)\<rparr>))))"

definition or_undefined :: "console \<Rightarrow> console option \<Rightarrow> console" where
  "or_undefined c r = (case r of None \<Rightarrow> c\<lparr>cn_place := Undefined\<rparr> | Some c' \<Rightarrow> c')"

inductive kernel_step :: "build \<Rightarrow> kernel \<Rightarrow> event \<Rightarrow> console \<Rightarrow> console \<Rightarrow> bool" for b k where
  pulse: "cn_place c \<noteq> Undefined \<Longrightarrow> kernel_step b k Tick c (c\<lparr>cn_faults := handle_timer_pulse (cn_faults c)\<rparr>)"
| menu: "cn_place c = Menu sel \<Longrightarrow> kernel_step b k (Key sc) c (or_undefined c (menu_turn b (vmx_ready k) sel sc c))"
| frame: "cn_place c = Workspace panel lp \<Longrightarrow> g_temporal_pulse (cn_faults c) \<noteq> lp \<Longrightarrow>
    kernel_step b k (Key sc) c (or_undefined c (shell_turn b (g_control k) panel sc c))"

inductive kernel_run :: "build \<Rightarrow> kernel \<Rightarrow> event list \<Rightarrow> console \<Rightarrow> bool" for b k where
  start: "kernel_run b k [] (loop_start k)"
| step: "kernel_run b k es c \<Longrightarrow> kernel_step b k e c c' \<Longrightarrow> kernel_run b k (es @ [e]) c'"

code_pred kernel_step .

inductive_simps tick_step_iff: "kernel_step b k Tick c c'"
inductive_simps key_step_iff: "kernel_step b k (Key sc) c c'"

section \<open>What the user sees of it\<close>

text \<open>The desk: the menu with its selection, or the line editor under the panel or not. It knows no pulse, no
  frame number and no screen.\<close>

datatype desk = At_menu nat editor | At_work bool editor

fun desk_key :: "u8 \<Rightarrow> desk \<Rightarrow> desk" where
  "desk_key sc (At_menu sel e) =
    (let sel = (if sc = KEY_UP then 0 else if sc = KEY_DOWN then 1 else sel)
     in if sc = 0x1C then At_work (sel \<noteq> 0) (e\<lparr>ed_line := [], ed_running := True\<rparr>) else At_menu sel e)"
| "desk_key sc (At_work panel e) =
    (let e = editor_step sc e in if ed_running e then At_work panel e else At_menu 0 e)"

definition desk_start :: "kernel \<Rightarrow> desk" where
  "desk_start k = At_menu 0 \<lparr>ed_line = [], ed_running = True, ed_focus = REGION_CONSOLE, ed_nodes = get_active_nodes (g_res k)\<rparr>"

fun desk_of :: "place \<Rightarrow> editor \<Rightarrow> desk option" where
  "desk_of (Menu sel) e = Some (At_menu sel e)"
| "desk_of (Workspace panel lp) e = Some (At_work panel e)"
| "desk_of Undefined e = None"

definition console_abs :: "console \<Rightarrow> desk option" where
  "console_abs c = desk_of (cn_place c) (shell_abs (cn_shell c))"

fun key_of :: "event \<Rightarrow> u8 option" where
  "key_of Tick = None"
| "key_of (Key sc) = Some sc"

definition keys :: "event list \<Rightarrow> u8 list" where
  "keys es = List.map_filter key_of es"

definition ticks :: "event list \<Rightarrow> nat" where
  "ticks es = length (filter (\<lambda>e. e = Tick) es)"

lemma keys_append [simp]: "keys [] = []" "keys (es @ [Tick]) = keys es" "keys (es @ [Key sc]) = keys es @ [sc]"
  by (simp_all add: keys_def List.map_filter_def)

lemma ticks_append [simp]: "ticks [] = 0" "ticks (es @ [Tick]) = ticks es + 1" "ticks (es @ [Key sc]) = ticks es"
  by (simp_all add: ticks_def)

section \<open>Each turn\<close>

lemma calls_run:
  assumes "gfx_ok g" "list_all call_ok cs"
  shows "\<exists>g'. run_calls cs g = Some g' \<and> gfx_ok g' \<and> same_shape g g'"
  using screen.steps_total [of g g cs] assms by (simp add: run_calls_def)

lemma menu_frame_ok: "list_all call_ok (menu_frame b ready sel)"
proof -
  have "printable_text (lit ''=== CONSENSUS ENTERPRISE HYPERVISOR ==='')"
    "printable_text (lit ''PHOENIX vX [SOVEREIGN] | CAPACITY: UNLIMITED'')"
    "printable_text (lit ''PHOENIX v0.5 [OPEN] | CAPACITY: 1 TB'')"
    "printable_text (lit ''PHOENIX v1.0 [RELEASE] | CAPACITY: 10 TB'')"
    "printable_text (lit ''VMX_ACCELERATION: [ENABLED]'')"
    "printable_text (lit ''> 1. Launch Sovereign Workspace'')" "printable_text (lit ''  1. Launch Sovereign Workspace'')"
    "printable_text (lit ''> 2. Neumann Control Panel'')" "printable_text (lit ''  2. Neumann Control Panel'')"
    by code_simp+
  then show ?thesis by (cases b) (simp_all add: menu_frame_def)
qed

lemma handle_key_frame: "handle_key sc s = Some s' \<Longrightarrow> hypercube_frame s' = hypercube_frame s + 1"
  by (auto simp: handle_key_def run_command_def store_cmd_def Let_def split: if_splits option.splits)

text \<open>A console in good order, on a screen of the shape of \<open>g0\<close>.\<close>

definition console_ok :: "graphics \<Rightarrow> console \<Rightarrow> bool" where
  "console_ok g0 c \<longleftrightarrow> gfx_ok (cn_vga c) \<and> same_shape g0 (cn_vga c) \<and> shell_ok (cn_shell c) \<and>
    (case cn_place c of Workspace panel lp \<Rightarrow> g_in_shell (cn_shell c) | _ \<Rightarrow> True)"

text \<open>After \<open>n\<close> ticks: at most \<open>n\<close> frames have been drawn in the shell.\<close>

definition clock_ok :: "nat \<Rightarrow> u64 \<Rightarrow> console \<Rightarrow> bool" where
  "clock_ok n p0 c \<longleftrightarrow> g_temporal_pulse (cn_faults c) = p0 + word_of_nat n \<and>
    (case cn_place c of
       Workspace panel lp \<Rightarrow> \<exists>j \<le> n. lp = p0 + word_of_nat j \<and> unat (hypercube_frame (cn_shell c)) \<le> j
     | _ \<Rightarrow> unat (hypercube_frame (cn_shell c)) \<le> n)"

lemma call_shell_sim:
  assumes "console_ok g0 c" "clock_ok n p0 (c\<lparr>cn_place := Menu sel\<rparr>)" "shell_abs (cn_shell c) = e"
  shows "\<exists>c'. call_shell panel c = Some c' \<and> console_ok g0 c' \<and> clock_ok n p0 c' \<and>
    console_abs c' = Some (At_work panel (e\<lparr>ed_line := [], ed_running := True\<rparr>))"
proof -
  obtain g where "run_calls [Clear 0x00080808] (cn_vga c) = Some g" "gfx_ok g" "same_shape (cn_vga c) g"
    using calls_run [of "cn_vga c" "[Clear 0x00080808]"] assms(1) by (auto simp: console_ok_def)
  then show ?thesis
    using assms same_shape_trans
    by (auto simp: call_shell_def console_ok_def clock_ok_def console_abs_def enter_shell_def shell_ok_def one_line_def
        shell_abs_def Let_def)
qed

lemma menu_turn_sim:
  assumes "console_ok g0 c" "clock_ok n p0 c" "cn_place c = Menu sel"
  shows "\<exists>c'. menu_turn b ready sel sc c = Some c' \<and> console_ok g0 c' \<and> clock_ok n p0 c' \<and>
    console_abs c' = map_option (desk_key sc) (console_abs c)"
proof -
  obtain g where g: "run_calls (menu_frame b ready sel) (cn_vga c) = Some g" "gfx_ok g" "same_shape (cn_vga c) g"
    using calls_run [OF _ menu_frame_ok, of "cn_vga c" b ready sel] assms(1) by (auto simp: console_ok_def)
  have ok: "console_ok g0 (c\<lparr>cn_vga := g\<rparr>)" "clock_ok n p0 (c\<lparr>cn_vga := g, cn_place := Menu i\<rparr>)" for i
    using assms g(2,3) same_shape_trans by (auto simp: console_ok_def clock_ok_def)
  show ?thesis
  proof (cases "sc = 0x1C")
    case True
    then show ?thesis
      using call_shell_sim [OF ok refl, of "sel \<noteq> 0"] assms(3) g(1)
      by (simp add: menu_turn_def console_abs_def KEY_UP_def KEY_DOWN_def)
  next
    case False
    then show ?thesis
      using ok assms(3) g(1) by (auto simp: menu_turn_def console_abs_def console_ok_def KEY_UP_def KEY_DOWN_def Let_def)
  qed
qed

lemma shell_turn_sim:
  assumes "console_ok g0 c" "clock_ok n p0 c" "cn_place c = Workspace panel lp" "g_temporal_pulse (cn_faults c) \<noteq> lp"
    and "n < 2147483633"
  shows "\<exists>c'. shell_turn b control panel sc c = Some c' \<and> console_ok g0 c' \<and> clock_ok n p0 c' \<and>
    console_abs c' = map_option (desk_key sc) (console_abs c)"
proof -
  let ?s = "cn_shell c"
  have ok: "gfx_ok (cn_vga c)" "same_shape g0 (cn_vga c)" "shell_ok ?s" "g_in_shell ?s"
    using assms(1,3) by (simp_all add: console_ok_def)
  obtain j where j: "j \<le> n" "lp = p0 + word_of_nat j" "unat (hypercube_frame ?s) \<le> j"
    "g_temporal_pulse (cn_faults c) = p0 + word_of_nat n" using assms(2,3) by (auto simp: clock_ok_def)
  then have "j < n" using assms(4) by (cases "j = n") auto
  then have early: "unat (hypercube_frame ?s) < n" using j(3) by simp
  then have "unat (hypercube_frame ?s + 1) = unat (hypercube_frame ?s) + 1"
    using assms(5) by (simp add: unat_word_ariths)
  then have next_frame: "unat (hypercube_frame ?s + 1) \<le> n" using early by simp
  obtain calls g where g: "shell_frame b control panel ?s = Some calls" "run_calls calls (cn_vga c) = Some g" "gfx_ok g"
    "same_shape (cn_vga c) g"
    using shell_frame_drawn [OF ok(1,3), where b = b and cp = control and panel = panel] early assms(5) by (auto split: option.splits)
  obtain sh where sh: "handle_key sc ?s = Some sh" "shell_ok sh" "shell_abs sh = editor_step sc (shell_abs ?s)"
    using handle_key_sim [OF ok(3)] by blast
  let ?p = "if g_in_shell sh then Workspace panel (p0 + word_of_nat n) else Menu 0"
  have turn: "shell_turn b control panel sc c = Some (c\<lparr>cn_vga := g, cn_shell := sh, cn_place := ?p\<rparr>)"
    by (simp add: shell_turn_def g(1,2) sh(1) j(4))
  have "same_shape g0 g" using ok(2) g(4) by (rule same_shape_trans)
  then have "console_ok g0 (c\<lparr>cn_vga := g, cn_shell := sh, cn_place := ?p\<rparr>)"
    using g(3) sh(2) by (simp add: console_ok_def)
  moreover have "clock_ok n p0 (c\<lparr>cn_vga := g, cn_shell := sh, cn_place := ?p\<rparr>)"
    using j(4) next_frame by (auto simp: clock_ok_def handle_key_frame [OF sh(1)])
  moreover have "ed_running (shell_abs sh) = g_in_shell sh" by (simp add: shell_abs_def)
  then have "console_abs (c\<lparr>cn_vga := g, cn_shell := sh, cn_place := ?p\<rparr>) = map_option (desk_key sc) (console_abs c)"
    by (simp add: console_abs_def assms(3) sh(3) [symmetric] Let_def)
  ultimately show ?thesis using turn by blast
qed

section \<open>Runs\<close>

lemma tick_sim:
  assumes "console_ok g0 c" "clock_ok n p0 c"
  shows "console_ok g0 (c\<lparr>cn_faults := handle_timer_pulse (cn_faults c)\<rparr>)"
    "clock_ok (n + 1) p0 (c\<lparr>cn_faults := handle_timer_pulse (cn_faults c)\<rparr>)"
    "console_abs (c\<lparr>cn_faults := handle_timer_pulse (cn_faults c)\<rparr>) = console_abs c"
  using assms by (auto simp: console_ok_def clock_ok_def console_abs_def handle_timer_pulse_def split: place.splits intro: le_SucI)

lemma step_sim:
  assumes "kernel_step b k e c c'" "console_ok g0 c" "clock_ok n p0 c" "n < 2147483633"
  shows "console_ok g0 c' \<and> clock_ok (n + ticks [e]) p0 c' \<and>
    console_abs c' = map_option (fold desk_key (keys [e])) (console_abs c)"
  using assms(1)
proof cases
  case pulse
  then show ?thesis
    using tick_sim [OF assms(2,3)] by (simp add: keys_def List.map_filter_def ticks_def option.map_id)
next
  case (menu sel sc)
  then show ?thesis
    using menu_turn_sim [OF assms(2,3) menu(3), of b "vmx_ready k" sc]
    by (auto simp: or_undefined_def keys_def List.map_filter_def ticks_def)
next
  case (frame panel lp sc)
  then show ?thesis
    using shell_turn_sim [OF assms(2,3) frame(3,4), of b "g_control k" sc] assms(4)
    by (auto simp: or_undefined_def keys_def List.map_filter_def ticks_def)
qed

lemma loop_start_ok:
  assumes "gfx_ok (g_vga k)"
  shows "console_ok (g_vga k) (loop_start k)" "clock_ok 0 (g_temporal_pulse (g_faults k)) (loop_start k)"
    "console_abs (loop_start k) = Some (desk_start k)"
  using assms by (simp_all add: console_ok_def clock_ok_def console_abs_def loop_start_def desk_start_def enter_shell_def
      shell_ok_def one_line_def shell_abs_def)

lemma run_sim:
  assumes "kernel_run b k es c" "gfx_ok (g_vga k)" "ticks es \<le> 2147483632"
  shows "console_ok (g_vga k) c \<and> clock_ok (ticks es) (g_temporal_pulse (g_faults k)) c \<and>
    console_abs c = Some (fold desk_key (keys es) (desk_start k))"
  using assms(1,3)
proof induction
  case start
  then show ?case using loop_start_ok [OF assms(2)] by simp
next
  case (step es c e c')
  have t: "ticks (es @ [e]) = ticks es + ticks [e]" "keys (es @ [e]) = keys es @ keys [e]"
    by (simp_all add: ticks_def keys_def List.map_filter_def)
  then show ?case
    using step_sim [OF step.hyps(2), of "g_vga k" "ticks es"] step.IH step.prems by auto
qed

lemma abs_defined: "console_abs c = Some d \<Longrightarrow> cn_place c \<noteq> Undefined"
  by (auto simp: console_abs_def)

text \<open>A session under the panel in which a frame is drawn at each of \<open>m\<close> ticks and no key pressed.\<close>

definition panel_session :: "nat \<Rightarrow> event list" where
  "panel_session m = [Key KEY_DOWN, Key 0x1C] @ concat (replicate m [Tick, Key 0])"

lemma panel_session_Suc: "panel_session (Suc m) = (panel_session m @ [Tick]) @ [Key 0]"
proof -
  have "concat (replicate m l) @ l = l @ concat (replicate m l)" for l :: "event list"
    by (induction m) simp_all
  then show ?thesis by (simp add: panel_session_def)
qed

lemma keys_panel_session [simp]: "keys (panel_session m) = [KEY_DOWN, 0x1C] @ replicate m 0" "ticks (panel_session m) = m"
  by (induction m) (simp_all add: panel_session_def keys_def ticks_def List.map_filter_def)

lemma desk_panel_session:
  "\<exists>e. fold desk_key ([KEY_DOWN, 0x1C] @ replicate m 0) (desk_start k) = At_work True e \<and> ed_running e"
proof -
  have "desk_key 0 (At_work True e) = At_work True e" if "ed_running e" for e
  proof -
    have "scancode_to_char 0 = 0" by code_simp
    then have "editor_step 0 e = e" by (simp add: editor_step_def KEY_TAB_def)
    then show ?thesis using that by simp
  qed
  then have "fold desk_key (replicate m 0) (At_work True e) = At_work True e" if "ed_running e" for e
    using that by (induction m) simp_all
  then show ?thesis by (simp add: desk_start_def KEY_DOWN_def KEY_UP_def)
qed

lemma shell_turn_counts:
  assumes "shell_turn b control panel sc c = Some c'" "cn_place c' = Workspace panel' lp"
  shows "hypercube_frame (cn_shell c') = hypercube_frame (cn_shell c) + 1 \<and> lp = g_temporal_pulse (cn_faults c')"
  using assms handle_key_frame by (auto simp: shell_turn_def Let_def split: option.splits if_splits)

lemma menu_turn_counts:
  assumes "menu_turn b ready sel sc c = Some c'"
  shows "hypercube_frame (cn_shell c') = hypercube_frame (cn_shell c) \<and>
    (\<forall>panel lp. cn_place c' = Workspace panel lp \<longrightarrow> lp = g_temporal_pulse (cn_faults c'))"
  using assms by (auto simp: menu_turn_def call_shell_def enter_shell_def Let_def split: option.splits if_splits)

lemma or_undefined_Some: "console_abs (or_undefined c r) = Some d \<Longrightarrow> r = Some (or_undefined c r)"
  by (cases r) (simp_all add: or_undefined_def console_abs_def)

lemma panel_session_run:
  assumes "gfx_ok (g_vga k)" "m \<le> 2147483632"
  shows "\<exists>c. kernel_run b k (panel_session m) c \<and> cn_place c = Workspace True (g_temporal_pulse (cn_faults c)) \<and>
    hypercube_frame (cn_shell c) = word_of_nat m"
  using assms(2)
proof (induction m)
  case 0
  define c1 where "c1 = or_undefined (loop_start k) (menu_turn b (vmx_ready k) 0 KEY_DOWN (loop_start k))"
  define c2 where "c2 = or_undefined c1 (menu_turn b (vmx_ready k) 1 0x1C c1)"
  have s1: "kernel_step b k (Key KEY_DOWN) (loop_start k) c1"
    unfolding c1_def by (rule kernel_step.menu) (simp add: loop_start_def)
  have r1: "kernel_run b k [Key KEY_DOWN] c1" using kernel_run.step [OF kernel_run.start s1] by simp
  have a1: "console_abs c1 = Some (At_menu 1 (shell_abs (cn_shell (loop_start k))))"
    using run_sim [OF r1 assms(1)] by (simp add: keys_def ticks_def List.map_filter_def desk_start_def KEY_DOWN_def KEY_UP_def
        loop_start_def enter_shell_def shell_abs_def)
  then have p1: "cn_place c1 = Menu 1" by (cases "cn_place c1") (auto simp: console_abs_def)
  have f1: "hypercube_frame (cn_shell c1) = 0"
    using menu_turn_counts or_undefined_Some [OF a1 [unfolded c1_def], folded c1_def] by (simp add: loop_start_def enter_shell_def)
  have s2: "kernel_step b k (Key 0x1C) c1 c2"
    unfolding c2_def by (rule kernel_step.menu) (rule p1)
  have run: "kernel_run b k (panel_session 0) c2" using kernel_run.step [OF r1 s2] by (simp add: panel_session_def)
  obtain e where a2: "console_abs c2 = Some (At_work True e)"
    using run_sim [OF run assms(1)] desk_panel_session [of 0 k] by fastforce
  then obtain lp where p2: "cn_place c2 = Workspace True lp" by (cases "cn_place c2") (auto simp: console_abs_def)
  then show ?case
    using menu_turn_counts or_undefined_Some [OF a2 [unfolded c2_def], folded c2_def] run f1 by auto
next
  case (Suc m)
  then obtain c where c: "kernel_run b k (panel_session m) c" "cn_place c = Workspace True (g_temporal_pulse (cn_faults c))"
    "hypercube_frame (cn_shell c) = word_of_nat m" by auto
  define c1 where "c1 = c\<lparr>cn_faults := handle_timer_pulse (cn_faults c)\<rparr>"
  define c2 where "c2 = or_undefined c1 (shell_turn b (g_control k) True 0 c1)"
  have "kernel_step b k Tick c c1" unfolding c1_def by (rule kernel_step.pulse) (simp add: c(2))
  moreover have "kernel_step b k (Key 0) c1 c2"
    unfolding c2_def by (rule kernel_step.frame [of _ _ "g_temporal_pulse (cn_faults c)"])
      (simp_all add: c1_def c(2) handle_timer_pulse_def)
  ultimately have run: "kernel_run b k (panel_session (Suc m)) c2"
    unfolding panel_session_Suc using c(1) kernel_run.step by blast
  obtain e where a2: "console_abs c2 = Some (At_work True e)"
    using run_sim [OF run assms(1)] Suc.prems desk_panel_session [of "Suc m" k] by fastforce
  then obtain lp where p2: "cn_place c2 = Workspace True lp" by (cases "cn_place c2") (auto simp: console_abs_def)
  have "shell_turn b (g_control k) True 0 c1 = Some c2" using or_undefined_Some [OF a2 [unfolded c2_def], folded c2_def] .
  then show ?case using shell_turn_counts p2 run c(3) by (auto simp: c1_def)
qed

lemma example_boots: "\<exists>k. kmain_boot example_machine 0 0 = Some k \<and> gfx_ok (g_vga k)"
proof (rule boot_without_screen [of _ 1])
  have "read_password 64 (replicate 64 0) (Keyboard [[0x1C, 0x1C], [], []]) \<noteq> None" by code_simp
  then show "read_password 64 (mc_stack example_machine) (mc_keyboard example_machine) \<noteq> None" by (simp add: example_machine_def)
qed (simp_all add: example_machine_def)

section \<open>Properties\<close>

text \<open>C5: the running kernel is the desk. From a start-up with a well-formed screen, however timer interrupts and turns interleave, for the first
  2147483632 ticks nothing undefined has happened (no store outside a buffer, no \<open>int\<close> overflow), its screen is well formed in the shape it had after start-up,
  its shell is in order, and where it is, what the command line holds, which region has the focus and how
  many nodes it has are what the keys alone make of the desk: no timing, frame number or screen content
  matters.\<close>
theorem kernel_refines_desk:
  assumes "kernel_run b k es c" "gfx_ok (g_vga k)" "ticks es \<le> 2147483632"
  shows "console_abs c = Some (fold desk_key (keys es) (desk_start k)) \<and> cn_place c \<noteq> Undefined \<and>
    gfx_ok (cn_vga c) \<and> same_shape (g_vga k) (cn_vga c) \<and> shell_ok (cn_shell c)"
  using run_sim [OF assms] abs_defined [of c] by (auto simp: console_ok_def)

lemma kernel_refines_desk_witness:
  "\<exists>k c e. kmain_boot example_machine 0 0 = Some k \<and> kernel_run DEFAULT_BUILD k (panel_session 3) c \<and>
    console_abs c = Some (At_work True e) \<and> gfx_ok (cn_vga c)"
proof -
  obtain k where k: "kmain_boot example_machine 0 0 = Some k" "gfx_ok (g_vga k)" using example_boots by blast
  obtain c where c: "kernel_run DEFAULT_BUILD k (panel_session 3) c" using panel_session_run [OF k(2), of 3] by auto
  show ?thesis using kernel_refines_desk [OF c k(2)] desk_panel_session [of 3 k] k(1) c by fastforce
qed

text \<open>C20: it never gets stuck. After any run of fewer than 2147483632 ticks a tick can come, and after it the main thread can
  take its turn on any scancode; the turn succeeds, with the desk moved on by its key.\<close>
theorem kernel_never_stuck:
  assumes "kernel_run b k es c" "gfx_ok (g_vga k)" "ticks es < 2147483632"
  shows "\<exists>c1. kernel_step b k Tick c c1 \<and> (\<forall>sc. \<exists>c2. kernel_step b k (Key sc) c1 c2 \<and> cn_place c2 \<noteq> Undefined \<and>
    gfx_ok (cn_vga c2) \<and> shell_ok (cn_shell c2) \<and> console_abs c2 = map_option (desk_key sc) (console_abs c))"
proof -
  have "ticks es \<le> 2147483632" using assms(3) by simp
  note r = run_sim [OF assms(1,2) this]
  define c1 where "c1 = c\<lparr>cn_faults := handle_timer_pulse (cn_faults c)\<rparr>"
  have nc: "cn_place c \<noteq> Undefined" using r abs_defined by blast
  then have t1: "kernel_step b k Tick c c1" unfolding c1_def by (rule kernel_step.pulse)
  have "\<exists>c2. kernel_step b k (Key sc) c1 c2" for sc
  proof (cases "cn_place c")
    case (Menu sel)
    then show ?thesis using kernel_step.menu [of c1 sel] by (auto simp: c1_def)
  next
    case (Workspace panel lp)
    then obtain j where j: "j \<le> ticks es" "lp = g_temporal_pulse (g_faults k) + word_of_nat j"
      "g_temporal_pulse (cn_faults c) = g_temporal_pulse (g_faults k) + word_of_nat (ticks es)"
      using r by (auto simp: clock_ok_def)
    have "word_of_nat (ticks es + 1) \<noteq> (word_of_nat j :: u64)"
      using j(1) assms(3) by (simp add: word_of_nat_eq_iff take_bit_nat_eq_self del: of_nat_Suc)
    then have "g_temporal_pulse (cn_faults c1) \<noteq> lp" using j by (simp add: c1_def handle_timer_pulse_def algebra_simps)
    then show ?thesis using kernel_step.frame [of c1 panel lp] Workspace by (auto simp: c1_def)
  next
    case Undefined
    then show ?thesis using nc by simp
  qed
  moreover have "cn_place c2 \<noteq> Undefined \<and> gfx_ok (cn_vga c2) \<and> shell_ok (cn_shell c2) \<and>
      console_abs c2 = map_option (desk_key sc) (console_abs c)" if "kernel_step b k (Key sc) c1 c2" for sc c2
  proof -
    have "ticks ((es @ [Tick]) @ [Key sc]) \<le> 2147483632" unfolding ticks_append using assms(3) by linarith
    note r2 = run_sim [OF kernel_run.step [OF kernel_run.step [OF assms(1) t1] that] assms(2) this]
    moreover have "keys ((es @ [Tick]) @ [Key sc]) = keys es @ [sc]" by (simp add: keys_def List.map_filter_def)
    ultimately show ?thesis using r abs_defined [of c2] by (auto simp: console_ok_def)
  qed
  ultimately show ?thesis using t1 by blast
qed

lemma kernel_never_stuck_witness:
  "\<exists>k c c1 c2. kmain_boot example_machine 0 0 = Some k \<and> kernel_run DEFAULT_BUILD k (panel_session 3) c \<and>
    kernel_step DEFAULT_BUILD k Tick c c1 \<and> kernel_step DEFAULT_BUILD k (Key 0x1C) c1 c2 \<and> cn_place c2 \<noteq> Undefined"
proof -
  obtain k where k: "kmain_boot example_machine 0 0 = Some k" "gfx_ok (g_vga k)" using example_boots by blast
  obtain c where c: "kernel_run DEFAULT_BUILD k (panel_session 3) c" using panel_session_run [OF k(2), of 3] by auto
  show ?thesis using kernel_never_stuck [OF c k(2)] k(1) c by fastforce
qed

text \<open>The bound is exact. Under the panel, one frame to each tick and no key pressed, the turn after tick 2147483633
  (248 days at 100 ticks a second) adds 16 to frame 2147483632, which overflows the \<open>int\<close> of
  \<open>draw_spinning_cube\<close>: whatever the screen and the next scancode, that turn is undefined behaviour.\<close>
theorem panel_undefined_after_bound:
  assumes "gfx_ok (g_vga k)"
  shows "\<exists>c c1. kernel_run b k (panel_session 2147483632) c \<and> kernel_step b k Tick c c1 \<and> cn_place c1 \<noteq> Undefined \<and>
    int32 (sint (hypercube_frame (cn_shell c1)) + 16) = None \<and>
    (\<forall>sc. \<exists>c2. kernel_step b k (Key sc) c1 c2) \<and> (\<forall>sc c2. kernel_step b k (Key sc) c1 c2 \<longrightarrow> cn_place c2 = Undefined)"
proof -
  obtain c where c: "kernel_run b k (panel_session 2147483632) c"
    "cn_place c = Workspace True (g_temporal_pulse (cn_faults c))" "hypercube_frame (cn_shell c) = word_of_nat 2147483632"
    using panel_session_run [OF assms order_refl] by blast
  define c1 where "c1 = c\<lparr>cn_faults := handle_timer_pulse (cn_faults c)\<rparr>"
  have ok: "gfx_ok (cn_vga c1)" "shell_ok (cn_shell c1)" "unat (hypercube_frame (cn_shell c1)) = 2147483632"
    using run_sim [OF c(1) assms] c(3) by (simp_all add: console_ok_def c1_def)
  have "shell_frame b (g_control k) True (cn_shell c1) = None"
    using shell_frame_drawn [OF ok(1,2), where b = b and cp = "g_control k" and panel = True] ok(3) by (auto split: option.splits)
  then have stop: "or_undefined c1 (shell_turn b (g_control k) True sc c1) = c1\<lparr>cn_place := Undefined\<rparr>" for sc
    by (simp add: or_undefined_def shell_turn_def)
  have p1: "cn_place c1 = Workspace True (g_temporal_pulse (cn_faults c))" "g_temporal_pulse (cn_faults c1) \<noteq> g_temporal_pulse (cn_faults c)"
    by (simp_all add: c1_def c(2) handle_timer_pulse_def)
  have "kernel_step b k Tick c c1" unfolding c1_def by (rule kernel_step.pulse) (simp add: c(2))
  moreover have "kernel_step b k (Key sc) c1 (c1\<lparr>cn_place := Undefined\<rparr>)" for sc
    unfolding stop [of sc, symmetric] by (rule kernel_step.frame [OF p1])
  moreover have "cn_place c2 = Undefined" if "kernel_step b k (Key sc) c1 c2" for sc c2
    using that stop [of sc] by (auto simp: key_step_iff p1)
  moreover have "int32 (sint (hypercube_frame (cn_shell c1)) + 16) = None"
    using c(3) by (simp add: c1_def int32_def)
  ultimately have "cn_place c1 \<noteq> Undefined" "\<And>sc. \<exists>c2. kernel_step b k (Key sc) c1 c2"
    "\<And>sc c2. kernel_step b k (Key sc) c1 c2 \<Longrightarrow> cn_place c2 = Undefined" "kernel_step b k Tick c c1"
    "int32 (sint (hypercube_frame (cn_shell c1)) + 16) = None" using p1(1) by (simp, blast+)
  then show ?thesis using c(1) by blast
qed

lemma panel_undefined_after_bound_witness:
  "\<exists>k c c1 c2. kmain_boot example_machine 0 0 = Some k \<and> kernel_run DEFAULT_BUILD k (panel_session 2147483632) c \<and>
    kernel_step DEFAULT_BUILD k Tick c c1 \<and> kernel_step DEFAULT_BUILD k (Key 0) c1 c2 \<and> cn_place c2 = Undefined"
  using example_boots panel_undefined_after_bound by meson

end
