(* ===== verification/DiskIo.thy ===== *)
theory DiskIo
  imports Ahci ResidueJournal
begin

text \<open>
  Block devices: the interface \<open>SubstrateIO\<close> of \<open>src/vdev/substrate_io.hpp\<close> as a locale, the AHCI driver of
  \<open>src/hal/ahci.hpp\<close> as a provider of it, and the residue journal of \<open>src/vdev/residue_persistence.hpp\<close> as a
  client. A state is physical memory and the bytes of the disk. The disk controller is a parameter; what is
  relied on is the documented behaviour: a well-formed request in the first slot of the command list moves
  the data it names, and the controller writes nothing else but its own areas.
\<close>

unbundle bit_operations_syntax

section \<open>The interface\<close>

type_synonym disk_state = "mem \<times> mem"
type_synonym io_operation = "u64 \<Rightarrow> u32 \<Rightarrow> u64 \<Rightarrow> disk_state \<Rightarrow> disk_state option"

text \<open>A request within the limits of 48-bit addresses and one 4 MiB region below 4 GiB, whose buffer starts at an
  even address and is not in the provider's own area.\<close>

definition io_request :: "nat set \<Rightarrow> u64 \<Rightarrow> u32 \<Rightarrow> u64 \<Rightarrow> bool" where
  "io_request area lba count buffer \<longleftrightarrow> 0 < unat count \<and> unat count \<le> 8192 \<and> unat lba < 2 ^ 48 \<and>
    unat buffer + 512 * unat count \<le> 2 ^ 32 \<and> 2 dvd unat buffer \<and> {unat buffer..<unat buffer + 512 * unat count} \<inter> area = {}"

text \<open>\<open>ready\<close> is what the provider relies on in its own area between two calls.\<close>

locale substrate_io =
  fixes io_read :: io_operation
    and io_write :: io_operation
    and area :: "nat set"
    and ready :: "mem \<Rightarrow> bool"
  assumes write_law: "ready m \<Longrightarrow> io_request area lba count buffer \<Longrightarrow>
      \<exists>m'. io_write lba count buffer (m, dsk) =
          Some (m', mem_write dsk (512 * unat lba) (mem_read m (unat buffer) (512 * unat count))) \<and>
        (\<forall>i. i \<notin> area \<longrightarrow> m' i = m i) \<and> ready m'"
    and read_law: "ready m \<Longrightarrow> io_request area lba count buffer \<Longrightarrow>
      \<exists>m'. io_read lba count buffer (m, dsk) = Some (m', dsk) \<and>
        (\<forall>i. i \<notin> area \<longrightarrow> m' i = mem_write m (unat buffer) (mem_read dsk (512 * unat lba) (512 * unat count)) i) \<and> ready m'"
begin

lemma kept_read: "(\<forall>i. i \<notin> area \<longrightarrow> m' i = m i) \<Longrightarrow> {a..<a + n} \<inter> area = {} \<Longrightarrow> mem_read m' a n = mem_read m a n"
  by (rule nth_equalityI) (auto simp: disjoint_iff)

lemma reads_back:
  assumes "ready m" "io_request area lba count buf1" "io_request area lba count buf2"
  shows "\<exists>s1 m2. io_write lba count buf1 (m, dsk) = Some s1 \<and> io_read lba count buf2 s1 = Some (m2, snd s1) \<and>
    mem_read m2 (unat buf2) (512 * unat count) = mem_read m (unat buf1) (512 * unat count)"
proof -
  let ?n = "512 * unat count" and ?w = "mem_read m (unat buf1) (512 * unat count)"
  obtain m1 where w: "io_write lba count buf1 (m, dsk) = Some (m1, mem_write dsk (512 * unat lba) ?w)" and m1: "ready m1"
    using write_law [OF assms(1,2)] by blast
  obtain m2 where r: "io_read lba count buf2 (m1, mem_write dsk (512 * unat lba) ?w) = Some (m2, mem_write dsk (512 * unat lba) ?w)"
    "\<forall>i. i \<notin> area \<longrightarrow> m2 i = mem_write m1 (unat buf2) (mem_read (mem_write dsk (512 * unat lba) ?w) (512 * unat lba) ?n) i"
    using read_law [OF m1 assms(3)] by blast
  have "mem_read (mem_write dsk (512 * unat lba) ?w) (512 * unat lba) ?n = ?w"
    using mem_read_write_same [of dsk "512 * unat lba" ?w] by simp
  moreover have "mem_read m2 (unat buf2) ?n = mem_read (mem_write m1 (unat buf2) (mem_read (mem_write dsk (512 * unat lba) ?w) (512 * unat lba) ?n)) (unat buf2) ?n"
    using assms(3) by (intro kept_read r(2)) (simp add: io_request_def)
  ultimately have "mem_read m2 (unat buf2) ?n = ?w"
    using mem_read_write_same [of m1 "unat buf2" ?w] by simp
  then show ?thesis using w r(1) by auto
qed

lemma write_elsewhere:
  assumes "ready m" "io_request area lba count buf" "unat lba + unat count \<le> k \<or> k + n \<le> unat lba"
  shows "\<exists>m1 dsk1. io_write lba count buf (m, dsk) = Some (m1, dsk1) \<and> mem_read dsk1 (512 * k) (512 * n) = mem_read dsk (512 * k) (512 * n)"
proof -
  have "512 * k + 512 * n \<le> 512 * unat lba \<or> 512 * unat lba + 512 * unat count \<le> 512 * k" using assms(3) by linarith
  then show ?thesis using write_law [OF assms(1,2), of dsk] mem_read_write_disjoint by fastforce
qed

end

section \<open>The disk controller\<close>

text \<open>The controller gets the command list register, memory and disk.\<close>

type_synonym disk_controller = "u32 \<Rightarrow> disk_state \<Rightarrow> disk_state"

text \<open>What a driver owns: command list, command table and received FIS area. The controller writes the
  transferred byte count of the first header and the FIS area.\<close>

definition controller_area :: "ahci_driver \<Rightarrow> nat set" where
  "controller_area d = {unat (cmd_list d) + 4..<unat (cmd_list d) + 8} \<union> {unat (fis_base d)..<unat (fis_base d) + 256}"

definition driver_area :: "ahci_driver \<Rightarrow> nat set" where
  "driver_area d = controller_area d \<union> {unat (cmd_list d)..<unat (cmd_list d) + 1024} \<union> {unat (cmd_table d)..<unat (cmd_table d) + 144}"

text \<open>What the specification asks of a request for a DMA transfer in 48-bit addresses. The header names a FIS of five
  words, one region and a table at a 128-byte boundary below 4 GiB, and none of ATAPI, reset, BIST, clear busy
  and port multiplier; the FIS is a register FIS with the command bit, no port and the LBA bit of the device byte, nothing in
  features, control and reserved bytes, and a command of the header's direction; the region has an even address below
  4 GiB and as many bytes, at most 4 MiB, as the count has sectors.\<close>

definition well_formed_command :: "hw_command \<Rightarrow> bool" where
  "well_formed_command c \<longleftrightarrow>
    hc_fis_dwords c = 5 \<and> \<not> hc_header_atapi c \<and> hc_header_control c = 0 \<and> hc_regions c = 1 \<and>
    table_aligned (hc_table c) \<and> hc_table_upper c = 0 \<and>
    hc_fis_type c = 0x27 \<and> hc_fis_flags c = 0x80 \<and> hc_opcode c = (if hc_header_write c then 0x35 else 0x25) \<and>
    hc_device c = 0x40 \<and> list_all (\<lambda>b. b = 0) (hc_fis_rest c) \<and>
    0 < unat (hc_count c) \<and> hc_bytes c = 512 * unat (hc_count c) \<and> hc_bytes c \<le> 2 ^ 22 \<and>
    hc_buffer_upper c = 0 \<and> 2 dvd unat (hc_buffer c)"

definition obeys_ahci :: "ahci_driver \<Rightarrow> disk_controller \<Rightarrow> bool" where
  "obeys_ahci d controller \<longleftrightarrow>
    (\<forall>m dsk. let c = decode_command m (ucast (cmd_list d));
          (m', dsk') = controller (ucast (cmd_list d)) (m, dsk);
          src = (if hc_header_write c then mem_read m (unat (hc_buffer c)) (hc_bytes c) else mem_read dsk (512 * unat (hc_lba c)) (hc_bytes c))
      in well_formed_command c \<longrightarrow>
        dsk' = (if hc_header_write c then mem_write dsk (512 * unat (hc_lba c)) src else dsk) \<and>
        (\<forall>i. i \<notin> controller_area d \<longrightarrow> m' i = (if hc_header_write c then m i else mem_write m (unat (hc_buffer c)) src i)))"

text \<open>The port is ready in time and the command completes without an error.\<close>

definition completes :: "(nat \<Rightarrow> u32) \<Rightarrow> (nat \<Rightarrow> u32) \<Rightarrow> (nat \<Rightarrow> u32) \<Rightarrow> bool" where
  "completes tfd ci is \<longleftrightarrow> (\<exists>k < 1000000. \<not> busy (tfd k)) \<and>
    (\<exists>j. (\<forall>i < j. ci i AND 1 \<noteq> 0 \<and> \<not> bit (is i) 30) \<and> ci j AND 1 = 0)"

text \<open>\<open>read\<close> and \<open>write\<close> with the controller that runs what was issued.\<close>

definition disk_io :: "disk_controller \<Rightarrow> (nat \<Rightarrow> u32) \<Rightarrow> (nat \<Rightarrow> u32) \<Rightarrow> (nat \<Rightarrow> u32) \<Rightarrow> ahci_driver \<Rightarrow> bool \<Rightarrow> io_operation" where
  "disk_io controller tfd ci is d wr lba count buffer s =
    (case issue_command tfd ci is lba count buffer wr d (fst s) of
       None \<Rightarrow> None
     | Some (ok, issued, m) \<Rightarrow> Some (if issued then controller (ucast (cmd_list d)) (m, snd s) else (m, snd s)))"

lemma build_command_outside:
  assumes "i \<notin> driver_area d"
  shows "build_command d lba count buffer wr m i = m i"
proof -
  have i: "i < unat (cmd_list d) \<or> unat (cmd_list d) + 1024 \<le> i" "i < unat (cmd_table d) \<or> unat (cmd_table d) + 144 \<le> i"
    using assms by (auto simp: driver_area_def controller_area_def)
  then have "build_header d wr m i = m i" by (auto simp: build_header_def Let_def mem_write_def)
  moreover have "unat TABLE_BYTES = 144" by (simp add: TABLE_BYTES_def)
  ultimately show ?thesis
    using i by (auto simp: build_command_def Let_def build_fis_outside build_prdt_outside kmemset_eq mem_write_def)
qed

locale ahci_disk =
  fixes controller :: disk_controller and tfd ci sts :: "nat \<Rightarrow> u32" and d :: ahci_driver
  assumes obeys: "obeys_ahci d controller"
    and done_in_time: "completes tfd ci sts"
    and port: "active_port d \<noteq> None" and placed: "placed d"
begin

lemma issued:
  "disk_io controller tfd ci sts d wr lba count buffer (m, dsk) =
    Some (controller (ucast (cmd_list d)) (build_command d lba count buffer wr m, dsk))"
proof -
  obtain k j where "k < 1000000" "\<not> busy (tfd k)" "\<forall>i<j. ci i AND 1 \<noteq> 0 \<and> \<not> bit (sts i) 30" "ci j AND 1 = 0"
    using done_in_time unfolding completes_def by blast
  then show ?thesis using issue_command_done [OF port, of k tfd j ci sts] by (simp add: disk_io_def)
qed

lemma decoded:
  assumes "header_ready d m" "io_request (driver_area d) lba count buffer"
    and "c = decode_command (build_command d lba count buffer wr m) (ucast (cmd_list d))"
  shows "well_formed_command c" "hc_header_write c = wr" "unat (hc_lba c) = unat lba" "unat (hc_buffer c) = unat buffer"
    "hc_bytes c = 512 * unat count"
proof -
  have r: "unat lba < 2 ^ 48" "0 < unat count" "unat count < 65536" "unat buffer < 2 ^ 32" "unat count \<le> 8192" "2 dvd unat buffer"
    using assms(2) by (auto simp: io_request_def)
  note dec = decoded_request [OF placed r(1-4) assms(3)]
  then show "hc_header_write c = wr" "unat (hc_lba c) = unat lba" "unat (hc_buffer c) = unat buffer" "hc_bytes c = 512 * unat count"
    by simp_all
  show "well_formed_command c" using dec r assms(1) by (simp add: well_formed_command_def header_ready_def)
qed

lemma moved:
  assumes "header_ready d m" "io_request (driver_area d) lba count buffer"
    and "controller (ucast (cmd_list d)) (build_command d lba count buffer wr m, dsk) = (m', dsk')"
  shows "dsk' = (if wr then mem_write dsk (512 * unat lba) (mem_read m (unat buffer) (512 * unat count)) else dsk)"
    and "i \<notin> driver_area d \<Longrightarrow>
      m' i = (if wr then m i else mem_write m (unat buffer) (mem_read dsk (512 * unat lba) (512 * unat count)) i)"
    and "header_ready d m'"
proof -
  let ?b = "build_command d lba count buffer wr m"
  define c where "c = decode_command ?b (ucast (cmd_list d))"
  note dec = decoded [OF assms(1,2) c_def]
  have free: "{unat buffer..<unat buffer + 512 * unat count} \<inter> driver_area d = {}" using assms(2) by (simp add: io_request_def)
  then have src: "mem_read ?b (unat buffer) (512 * unat count) = mem_read m (unat buffer) (512 * unat count)"
    by (intro nth_equalityI) (auto simp: build_command_outside disjoint_iff)
  note law = obeys [unfolded obeys_ahci_def, rule_format, of ?b dsk, unfolded assms(3) Let_def prod.case, folded c_def, rule_format, OF dec(1)]
  show "dsk' = (if wr then mem_write dsk (512 * unat lba) (mem_read m (unat buffer) (512 * unat count)) else dsk)"
    using law dec src by (cases wr) simp_all
  show "m' i = (if wr then m i else mem_write m (unat buffer) (mem_read dsk (512 * unat lba) (512 * unat count)) i)" if "i \<notin> driver_area d"
  proof -
    have "i \<notin> controller_area d" "?b i = m i" using that by (simp_all add: driver_area_def build_command_outside)
    then show ?thesis using law dec by (cases wr) (simp_all add: mem_write_def)
  qed
  have "m' i = ?b i" if "i = unat (cmd_list d) \<or> i = unat (cmd_list d) + 1" for i
  proof -
    have "i \<notin> controller_area d" "i \<in> driver_area d"
      using that placed by (auto simp: controller_area_def driver_area_def placed_def)
    moreover have "i \<notin> {unat buffer..<unat buffer + 512 * unat count}" using calculation(2) free by blast
    then have "i < unat buffer \<or> unat buffer + 512 * unat count \<le> i" by auto
    ultimately show ?thesis using law dec by (cases wr) (auto simp: mem_write_def)
  qed
  then show "header_ready d m'" using build_command_ready [OF placed] assms(1) by (simp add: header_ready_def)
qed

end

sublocale ahci_disk \<subseteq> substrate_io "disk_io controller tfd ci sts d False" "disk_io controller tfd ci sts d True" "driver_area d"
  "header_ready d"
proof unfold_locales
  fix lba count buffer and m dsk :: mem
  assume m: "header_ready d m" and r: "io_request (driver_area d) lba count buffer"
  show "\<exists>m'. disk_io controller tfd ci sts d True lba count buffer (m, dsk) =
        Some (m', mem_write dsk (512 * unat lba) (mem_read m (unat buffer) (512 * unat count))) \<and>
      (\<forall>i. i \<notin> driver_area d \<longrightarrow> m' i = m i) \<and> header_ready d m'"
    using moved [OF m r, where wr = True and dsk = dsk] by (simp add: issued) (metis (no_types, lifting) prod.collapse)
  show "\<exists>m'. disk_io controller tfd ci sts d False lba count buffer (m, dsk) = Some (m', dsk) \<and>
      (\<forall>i. i \<notin> driver_area d \<longrightarrow> m' i = mem_write m (unat buffer) (mem_read dsk (512 * unat lba) (512 * unat count)) i) \<and>
      header_ready d m'"
    using moved [OF m r, where wr = False and dsk = dsk] by (simp add: issued) (metis (no_types, lifting) prod.collapse)
qed

context ahci_disk begin

lemma device: "substrate_io (disk_io controller tfd ci sts d False) (disk_io controller tfd ci sts d True) (driver_area d) (header_ready d)"
  by unfold_locales

end

lemma take_drop_mem_read: "k + n \<le> l \<Longrightarrow> take n (drop k (mem_read m a l)) = mem_read m (a + k) n"
  by (rule nth_equalityI) (simp_all add: add.assoc)

lemma take_mem_read: "n \<le> l \<Longrightarrow> take n (mem_read m a l) = mem_read m a n"
  using take_drop_mem_read [of 0 n l m a] by simp

text \<open>A controller that does what is relied on, the transferred byte count of the command header included.\<close>

definition reference_controller :: disk_controller where
  "reference_controller clb = (\<lambda>(m, dsk).
    let c = decode_command m clb; n = hc_bytes c;
        (m, dsk) = (if hc_header_write c then (m, mem_write dsk (512 * unat (hc_lba c)) (mem_read m (unat (hc_buffer c)) n))
                    else (mem_write m (unat (hc_buffer c)) (mem_read dsk (512 * unat (hc_lba c)) n), dsk))
    in (mem_write m (unat clb + 4) (to_le 4 (word_of_nat n :: u32)), dsk))"

lemma reference_obeys:
  assumes "unat (cmd_list d) < 2 ^ 32"
  shows "obeys_ahci d reference_controller"
proof -
  have "unat (ucast (cmd_list d) :: u32) = unat (cmd_list d)"
    using assms by (simp add: unsigned_ucast_eq take_bit_nat_eq_self)
  then show ?thesis
    by (auto simp: obeys_ahci_def reference_controller_def Let_def controller_area_def mem_write_def)
qed

interpretation booted: ahci_disk reference_controller "\<lambda>_. 0x50" "\<lambda>_. 0" "\<lambda>_. 0" example_driver
proof unfold_locales
  show "obeys_ahci example_driver reference_controller" by (rule reference_obeys) (simp add: example_driver_def)
  show "completes (\<lambda>_. 0x50) (\<lambda>_. 0) (\<lambda>_. 0)" by (auto simp: completes_def busy_def intro!: exI [of _ 0])
qed (simp_all add: example_driver_def placed_def)

section \<open>Properties\<close>

text \<open>C11: the driver is a block device. With a port that completes its commands, a controller that does
  what the AHCI specification says of well-formed requests, and the bits of the header that the driver never writes clear (start-up
  clears them, and every call keeps them), a write within the limits puts exactly the buffer's bytes
  on the disk, a read exactly the disk's bytes into the buffer, memory outside the driver's own structures
  is otherwise unchanged, and what was written is read back through any other buffer.\<close>
theorem ahci_is_block_device:
  assumes "obeys_ahci d controller" "completes tfd ci sts" "active_port d \<noteq> None" "placed d"
    and "header_ready d m" "io_request (driver_area d) lba count buf1" "io_request (driver_area d) lba count buf2"
  shows "(\<exists>m1. disk_io controller tfd ci sts d True lba count buf1 (m, dsk) =
        Some (m1, mem_write dsk (512 * unat lba) (mem_read m (unat buf1) (512 * unat count))) \<and>
      (\<forall>i. i \<notin> driver_area d \<longrightarrow> m1 i = m i) \<and> header_ready d m1) \<and>
    (\<exists>m1. disk_io controller tfd ci sts d False lba count buf1 (m, dsk) = Some (m1, dsk) \<and>
      (\<forall>i. i \<notin> driver_area d \<longrightarrow> m1 i = mem_write m (unat buf1) (mem_read dsk (512 * unat lba) (512 * unat count)) i) \<and>
      header_ready d m1) \<and>
    (\<exists>s1 m2. disk_io controller tfd ci sts d True lba count buf1 (m, dsk) = Some s1 \<and>
      disk_io controller tfd ci sts d False lba count buf2 s1 = Some (m2, snd s1) \<and>
      mem_read m2 (unat buf2) (512 * unat count) = mem_read m (unat buf1) (512 * unat count))"
proof -
  note io = ahci_disk.device [OF ahci_disk.intro [OF assms(1-4)]]
  show ?thesis
    using substrate_io.write_law [OF io assms(5,6)] substrate_io.read_law [OF io assms(5,6)]
      substrate_io.reads_back [OF io assms(5-7)] by blast
qed

lemma ahci_is_block_device_witness:
  "\<exists>s1 m2. disk_io reference_controller (\<lambda>_. 0x50) (\<lambda>_. 0) (\<lambda>_. 0) example_driver True 9 2 0x2010000 (\<lambda>i. word_of_nat (i div 2), \<lambda>_. 0) = Some s1 \<and>
    disk_io reference_controller (\<lambda>_. 0x50) (\<lambda>_. 0) (\<lambda>_. 0) example_driver False 9 2 0x2020000 s1 = Some (m2, snd s1) \<and>
    m2 0x2020003 = 1"
proof -
  have r: "io_request (driver_area example_driver) 9 2 0x2010000" "io_request (driver_area example_driver) 9 2 0x2020000"
    by (auto simp: io_request_def driver_area_def controller_area_def example_driver_def)
  have h: "header_ready example_driver (\<lambda>i. word_of_nat (i div 2))" by (simp add: header_ready_def example_driver_def)
  from ahci_is_block_device [OF booted.obeys booted.done_in_time booted.port booted.placed h r, of "\<lambda>_. 0"]
  obtain s1 m2 where s: "disk_io reference_controller (\<lambda>_. 0x50) (\<lambda>_. 0) (\<lambda>_. 0) example_driver True 9 2 0x2010000 (\<lambda>i. word_of_nat (i div 2), \<lambda>_. 0) = Some s1"
    "disk_io reference_controller (\<lambda>_. 0x50) (\<lambda>_. 0) (\<lambda>_. 0) example_driver False 9 2 0x2020000 s1 = Some (m2, snd s1)"
    "mem_read m2 0x2020000 1024 = mem_read (\<lambda>i. word_of_nat (i div 2)) 0x2010000 1024" by auto
  have "m2 0x2020003 = (word_of_nat (0x2010003 div 2) :: u8)"
    using arg_cong [OF s(3), of "\<lambda>l. l ! 3"] by simp
  then show ?thesis using s by simp
qed

text \<open>C23: the journal's disk is the drive. A commit that writes, made through the driver from the batch array
  in memory, leaves on the drive exactly the disk of the journal's model; and a sector of the journal read
  into a buffer there holds the 16 records recovery looks at.\<close>
theorem journal_over_ahci:
  assumes "obeys_ahci d controller" "completes tfd ci sts" "active_port d \<noteq> None" "placed d"
    and "pc_disk p = Some dsk" "batch = batch_of sr (pc_master_seed p) uninit vb es n" "batch \<noteq> []"
    and "commit_residue sr n uninit stack vb es p = Some p'"
    and "mem_read m (unat buf) (length stack) = batch_bytes batch @ drop (30 * length batch) stack"
    and "io_request (driver_area d) (JOURNAL_START_LBA + current_journal_tail p div 16) (word_of_nat (length batch div 16 + 1)) buf"
    and "io_request (driver_area d) (JOURNAL_START_LBA + off) 1 buf" "i < 16" "length batch \<le> 1024" "unat off < MAX_RESIDUES div 16"
    and "header_ready d m"
  shows "(\<exists>m1 dsk1. disk_io controller tfd ci sts d True (JOURNAL_START_LBA + current_journal_tail p div 16)
        (word_of_nat (length batch div 16 + 1)) buf (m, dsk) = Some (m1, dsk1) \<and> pc_disk p' = Some dsk1) \<and>
    (\<exists>m1. disk_io controller tfd ci sts d False (JOURNAL_START_LBA + off) 1 buf (m, dsk) = Some (m1, dsk) \<and>
      residue_of_bytes (mem_read m1 (unat buf + 30 * i) 30) = record_at dsk (unat off) i)"
proof -
  note io = ahci_disk.device [OF ahci_disk.intro [OF assms(1-4)]]
  let ?lba = "JOURNAL_START_LBA + current_journal_tail p div 16" and ?n = "length batch div 16 + 1"
  let ?bytes = "batch_bytes batch @ drop (30 * length batch) stack"
  have n: "unat (word_of_nat ?n :: u32) = ?n"
    using assms(13) by (simp only: unsigned_of_nat) (simp add: take_bit_nat_eq_self)
  have "length stack = length ?bytes" using arg_cong [OF assms(9), of length] by simp
  moreover obtain dsk1 where dsk1: "write_batch stack batch (current_journal_tail p) dsk = Some dsk1" "pc_disk p' = Some dsk1"
    using assms(5,7,8) unfolding assms(6) by (auto simp: commit_residue_def Let_def split: option.splits if_splits)
  then have fits: "512 * ?n \<le> length ?bytes" "dsk1 = mem_write dsk (512 * unat ?lba) (take (512 * ?n) ?bytes)"
    by (auto simp: write_batch_def Let_def mult.commute split: if_splits)
  ultimately have "mem_read m (unat buf) (512 * ?n) = take (512 * ?n) (mem_read m (unat buf) (length stack))"
    by (simp add: take_mem_read)
  then have "mem_read m (unat buf) (512 * unat (word_of_nat ?n :: u32)) = take (512 * ?n) ?bytes" unfolding n assms(9) .
  then have w: "\<exists>m1. disk_io controller tfd ci sts d True ?lba (word_of_nat ?n) buf (m, dsk) = Some (m1, dsk1)"
    using substrate_io.write_law [OF io assms(15,10), of dsk] unfolding fits(2) by auto
  obtain m1 where r: "disk_io controller tfd ci sts d False (JOURNAL_START_LBA + off) 1 buf (m, dsk) = Some (m1, dsk)"
    "\<forall>a. a \<notin> driver_area d \<longrightarrow> m1 a = mem_write m (unat buf) (mem_read dsk (512 * unat (JOURNAL_START_LBA + off)) 512) a"
    using substrate_io.read_law [OF io assms(15,11), of dsk] by auto
  have "{unat buf + 30 * i..<unat buf + 30 * i + 30} \<inter> driver_area d = {}"
    using assms(11,12) by (fastforce simp: io_request_def disjoint_iff)
  then have "mem_read m1 (unat buf + 30 * i) 30 = take 30 (drop (30 * i) (mem_read dsk (512 * unat (JOURNAL_START_LBA + off)) 512))"
    using substrate_io.kept_read [OF io r(2), of "unat buf + 30 * i" 30] assms(12) by (simp add: mem_read_write_sub)
  moreover have "unat (JOURNAL_START_LBA + off) = unat JOURNAL_START_LBA + unat off"
    using assms(14) by (subst unat_add_lem [THEN iffD1]) (simp_all add: JOURNAL_START_LBA_def MAX_RESIDUES_def)
  ultimately have "residue_of_bytes (mem_read m1 (unat buf + 30 * i) 30) = record_at dsk (unat off) i"
    using assms(12) by (simp add: record_at_def take_drop_mem_read algebra_simps)
  then show ?thesis using w r(1) dsk1(2) by blast
qed

lemma journal_over_ahci_witness:
  "\<exists>p' m1 dsk1. commit_residue 5 1024 (\<lambda>_. 0) (replicate 30720 0) 9 (one_change 9 3)
      (PersistenceController (Some (\<lambda>_. 0)) \<lparr>s_hi = 3, s_lo = 4\<rparr>) = Some p' \<and> pc_disk p' = Some dsk1 \<and>
    disk_io reference_controller (\<lambda>_. 0x50) (\<lambda>_. 0) (\<lambda>_. 0) example_driver True 8192 1 0x2010000
      (mem_write (\<lambda>_. 0) 0x2010000 (batch_bytes (batch_of 5 \<lparr>s_hi = 3, s_lo = 4\<rparr> (\<lambda>_. 0) 9 (one_change 9 3) 1024) @ replicate 30690 0), \<lambda>_. 0) =
      Some (m1, dsk1)"
proof -
  define b where "b = batch_of 5 \<lparr>s_hi = 3, s_lo = 4\<rparr> (\<lambda>_. 0) 9 (one_change 9 3) 1024"
  define p where "p = PersistenceController (Some (\<lambda>_. 0)) \<lparr>s_hi = 3, s_lo = 4\<rparr>"
  define m where "m = mem_write (\<lambda>_. 0) 0x2010000 (batch_bytes b @ replicate 30690 0)"
  have p: "pc_disk p = Some (\<lambda>_. 0)" "pc_master_seed p = \<lparr>s_hi = 3, s_lo = 4\<rparr>" "current_journal_tail p = 0"
    by (simp_all add: p_def PersistenceController_def)
  have len: "length b = 1" unfolding b_def batch_of_eq using live_one_change [of 3 9] by simp
  then have ne: "b \<noteq> []" by auto
  have bd: "b = batch_of 5 (pc_master_seed p) (\<lambda>_. 0) 9 (one_change 9 3) 1024" by (simp only: b_def p)
  obtain dsk1 where "write_batch (replicate 30720 0) b 0 (\<lambda>_. 0) = Some dsk1" using len by (simp add: write_batch_def Let_def)
  then obtain p' where c: "commit_residue 5 1024 (\<lambda>_. 0) (replicate 30720 0) 9 (one_change 9 3) p = Some p'"
    using ne unfolding commit_residue_def p(1) option.case Let_def bd [symmetric] p(3) by simp
  have "length (batch_bytes b @ replicate 30690 (0 :: u8)) = 30720" using len by simp
  then have "mem_read m 0x2010000 30720 = batch_bytes b @ replicate 30690 0"
    using mem_read_write_same [of "\<lambda>_. 0" "0x2010000" "batch_bytes b @ replicate 30690 0"] unfolding m_def by simp
  then have buf: "mem_read m (unat (0x2010000 :: u64)) (length (replicate 30720 (0 :: u8))) =
      batch_bytes b @ drop (30 * length b) (replicate 30720 0)" using len by simp
  have r: "io_request (driver_area example_driver) (JOURNAL_START_LBA + current_journal_tail p div 16) (word_of_nat (length b div 16 + 1)) 0x2010000"
    "io_request (driver_area example_driver) (JOURNAL_START_LBA + 0) 1 0x2010000"
    using len by (auto simp: p(3) JOURNAL_START_LBA_def io_request_def driver_area_def controller_area_def example_driver_def)
  have h: "header_ready example_driver m" by (simp add: header_ready_def example_driver_def m_def mem_write_def)
  have "length b \<le> 1024" "(0 :: nat) < 16" "unat (0 :: u64) < MAX_RESIDUES div 16" using len by (simp_all add: MAX_RESIDUES_def)
  note j = journal_over_ahci [OF booted.obeys booted.done_in_time booted.port booted.placed p(1) bd ne c buf r this(2,1,3) h]
  have "JOURNAL_START_LBA + current_journal_tail p div 16 = 8192" "word_of_nat (length b div 16 + 1) = (1 :: u32)"
    using len by (simp_all add: JOURNAL_START_LBA_def p(3))
  then show ?thesis
    using conjunct1 [OF j] c unfolding b_def [symmetric] p_def [symmetric] m_def [symmetric] by auto
qed

end
