(* ===== verification/BootEntry.thy ===== *)
theory BootEntry
  imports Multiboot
begin

text \<open>
  The entry of the kernel, \<open>_start\<close> of \<open>src/boot/boot.S\<close>: the page tables, the control registers and the
  jump into 64-bit code that calls \<open>kmain\<close>. The addresses the linker gives the tables are a parameter. The
  second part is what the processor makes of page tables, control registers and descriptors, against which
  the entry is proved.
\<close>

unbundle bit_operations_syntax

section \<open>The entry\<close>

record tables =
  p4_table :: u32
  p3_table :: u32
  p2_table :: u32
  stack_top :: u32

text \<open>Control registers, and the register of the descriptor table: limit and entries.\<close>

record control =
  r_cr0 :: u32
  r_cr3 :: u32
  r_cr4 :: u32
  r_efer :: "u32 \<times> u32"
  r_gdt :: "u16 \<times> u64 list"

definition store32 :: "mem \<Rightarrow> u32 \<Rightarrow> u32 \<Rightarrow> mem" where
  "store32 m a v = mem_write m (unat a) (to_le 4 v)"

text \<open>A loop over a table: it stores the entry for \<open>ecx\<close>, counts, and goes on until \<open>ecx\<close> is the limit.\<close>

partial_function (option) fill_table :: "(u32 \<Rightarrow> u32) \<Rightarrow> u32 \<Rightarrow> u32 \<Rightarrow> u32 \<Rightarrow> mem \<Rightarrow> mem option" where
  "fill_table entry_at table limit ecx m =
    (let eax = entry_at ecx; m = store32 m (table + ecx * 8) eax; ecx = ecx + 1
     in if ecx \<noteq> limit then fill_table entry_at table limit ecx m else Some m)"

definition fill_p3 :: "tables \<Rightarrow> mem \<Rightarrow> mem option" where
  "fill_p3 t = fill_table (\<lambda>ecx. let eax = p2_table t; edx = push_bit 12 ecx; eax = eax + edx in eax OR 3) (p3_table t) 4 0"

definition map_p2 :: "tables \<Rightarrow> mem \<Rightarrow> mem option" where
  "map_p2 t = fill_table (\<lambda>ecx. let eax = 0x200000; eax = eax * ecx in eax OR 0x83) (p2_table t) 2048 0"

definition setup_paging :: "tables \<Rightarrow> mem \<Rightarrow> mem option" where
  "setup_paging t m =
    (case fill_p3 t (store32 m (p4_table t) (p3_table t OR 3)) of None \<Rightarrow> None | Some m \<Rightarrow> map_p2 t m)"

definition gdt64 :: "u64 list" where
  "gdt64 = [0, push_bit 43 1 OR push_bit 44 1 OR push_bit 47 1 OR push_bit 53 1]"

text \<open>Writes to the control registers as the processor performs them; \<open>None\<close> is the general protection
  fault it raises, for which no handler exists yet. Paging needs protection, and physical address extension
  for long mode; long mode may be switched in the register EFER only while paging is off; bit 10 of EFER,
  long mode active, is set when paging starts with long mode enabled.\<close>

definition write_cr0 :: "u32 \<Rightarrow> control \<Rightarrow> control option" where
  "write_cr0 v c =
    (let starts = bit v 31 \<and> \<not> bit (r_cr0 c) 31; long = bit (snd (r_efer c)) 8
     in if bit v 31 \<and> \<not> bit v 0 \<or> starts \<and> long \<and> \<not> bit (r_cr4 c) 5 then None
        else Some (c\<lparr>r_cr0 := v, r_efer := (fst (r_efer c),
               if starts \<and> long then snd (r_efer c) OR push_bit 10 1 else snd (r_efer c))\<rparr>))"

definition write_efer :: "u32 \<times> u32 \<Rightarrow> control \<Rightarrow> control option" where
  "write_efer v c =
    (if bit (r_cr0 c) 31 \<and> bit (snd v) 8 \<noteq> bit (snd (r_efer c)) 8 then None else Some (c\<lparr>r_efer := v\<rparr>))"

text \<open>The instructions after the tables, up to the far jump. \<open>and\<close> and \<open>or\<close> on \<open>ax\<close> leave the upper half of
  \<open>eax\<close> as it is.\<close>

definition enable_long_mode :: "tables \<Rightarrow> control \<Rightarrow> control option" where
  "enable_long_mode t c =
    (let c = c\<lparr>r_cr4 := r_cr4 c OR push_bit 5 1\<rparr>;
         c = c\<lparr>r_cr3 := p4_table t\<rparr>;
         eax = r_cr0 c;
         eax = (eax AND 0xFFFF0000) OR (eax AND 0xFFFB);
         eax = eax OR 0x2
     in case write_cr0 eax c of None \<Rightarrow> None | Some c \<Rightarrow>
    (let c = c\<lparr>r_cr4 := r_cr4 c OR 0x600\<rparr>;
         (edx, eax) = r_efer c
     in case write_efer (edx, eax OR push_bit 8 1) c of None \<Rightarrow> None | Some c \<Rightarrow>
    (case write_cr0 (r_cr0 c OR push_bit 31 1) c of None \<Rightarrow> None | Some c \<Rightarrow>
       Some (c\<lparr>r_gdt := (word_of_nat (8 * length gdt64) - 1, gdt64)\<rparr>))))"

text \<open>What \<open>kmain\<close> is called with: its two arguments, the stack, the control registers and the memory. \<open>eax\<close>
  and \<open>ebx\<close> are the boot loader's.\<close>

record entry_state =
  en_magic :: u32
  en_info :: u32
  en_rsp :: u64
  en_control :: control
  en_mem :: mem

definition start_kernel :: "tables \<Rightarrow> u32 \<Rightarrow> u32 \<Rightarrow> control \<Rightarrow> mem \<Rightarrow> entry_state option" where
  "start_kernel t eax ebx c m =
    (let edi = eax; esi = ebx
     in case setup_paging t m of
          None \<Rightarrow> None
        | Some m \<Rightarrow>
            (case enable_long_mode t c of
               None \<Rightarrow> None
             | Some c \<Rightarrow> Some \<lparr>en_magic = edi, en_info = esi, en_rsp = ucast (stack_top t), en_control = c, en_mem = m\<rparr>))"

text \<open>The Multiboot 2 header: magic, architecture, length, checksum, then three tags of type, flags, size and
  payload, each on an 8-byte boundary.\<close>

definition header_tags :: "(u16 \<times> u16 \<times> u32 list) list" where
  "header_tags = [(1, 0, [8]), (5, 0, [1024, 768, 32]), (0, 0, [])]"

definition header_tag_bytes :: "u16 \<times> u16 \<times> u32 list \<Rightarrow> u8 list" where
  "header_tag_bytes tag =
    (let (type, flags, ws) = tag; size = 8 + 4 * length ws;
         bs = to_le 2 type @ to_le 2 flags @ to_le 4 (word_of_nat size :: u32) @ concat (map (to_le 4) ws)
     in bs @ replicate (padding size) 0)"

definition multiboot_header :: "u8 list" where
  "multiboot_header =
    (let magic = 0xe85250d6; arch = 0; body = concat (map header_tag_bytes header_tags);
         len = word_of_nat (16 + length body) :: u32
     in to_le 4 magic @ to_le 4 arch @ to_le 4 len @ to_le 4 (- (magic + arch + len)) @ body)"

section \<open>What the processor makes of it\<close>

definition entry_base :: "u64 \<Rightarrow> u64" where
  "entry_base e = push_bit 12 (take_bit 40 (drop_bit 12 e))"

definition table_index :: "nat \<Rightarrow> u64 \<Rightarrow> u64" where
  "table_index level va = take_bit 9 (drop_bit (3 + 9 * level) va)"

definition table_entry :: "mem \<Rightarrow> u64 \<Rightarrow> nat \<Rightarrow> u64 \<Rightarrow> u64 option" where
  "table_entry m base level va =
    (let e = load_u64 m (entry_base base + 8 * table_index level va) in if bit e 0 then Some e else None)"

text \<open>The translation of a 48-bit address over four levels, with 1 GiB and 2 MiB pages.\<close>

definition page_walk :: "mem \<Rightarrow> u64 \<Rightarrow> u64 \<Rightarrow> u64 option" where
  "page_walk m cr3 va =
    (case table_entry m cr3 4 va of
       None \<Rightarrow> None
     | Some e4 \<Rightarrow>
         (case table_entry m e4 3 va of
            None \<Rightarrow> None
          | Some e3 \<Rightarrow>
              if bit e3 7 then Some (push_bit 30 (take_bit 22 (drop_bit 30 e3)) + take_bit 30 va)
              else
                (case table_entry m e3 2 va of
                   None \<Rightarrow> None
                 | Some e2 \<Rightarrow>
                     if bit e2 7 then Some (push_bit 21 (take_bit 31 (drop_bit 21 e2)) + take_bit 21 va)
                     else
                       (case table_entry m e2 1 va of
                          None \<Rightarrow> None
                        | Some e1 \<Rightarrow> Some (entry_base e1 + take_bit 12 va)))))"

definition long_mode_active :: "control \<Rightarrow> bool" where
  "long_mode_active c \<longleftrightarrow> bit (r_cr0 c) 0 \<and> bit (r_cr0 c) 31 \<and> bit (r_cr4 c) 5 \<and> bit (snd (r_efer c)) 8 \<and> bit (snd (r_efer c)) 10"

text \<open>SSE instructions run without a fault: emulation off, no task switch pending, monitoring on, and the two
  bits by which the operating system announces support.\<close>

definition sse_enabled :: "control \<Rightarrow> bool" where
  "sse_enabled c \<longleftrightarrow> \<not> bit (r_cr0 c) 2 \<and> \<not> bit (r_cr0 c) 3 \<and> bit (r_cr0 c) 1 \<and> bit (r_cr4 c) 9 \<and> bit (r_cr4 c) 10"

text \<open>Linear addresses are translated over four levels, not five.\<close>

definition four_level_paging :: "control \<Rightarrow> bool" where
  "four_level_paging c \<longleftrightarrow> \<not> bit (r_cr4 c) 12"

text \<open>The state the Multiboot 2 standard promises: protection on, paging off. The other bits of CR0 and all of
  CR4 are undefined.\<close>

definition multiboot_state :: "control \<Rightarrow> bool" where
  "multiboot_state c \<longleftrightarrow> bit (r_cr0 c) 0 \<and> \<not> bit (r_cr0 c) 31"

text \<open>A far jump to a selector finds a present 64-bit code segment within the table.\<close>

definition code64_segment :: "control \<Rightarrow> nat \<Rightarrow> bool" where
  "code64_segment c sel \<longleftrightarrow>
    (let (limit, ds) = r_gdt c; i = sel div 8
     in sel + 7 \<le> unat limit \<and> i < length ds \<and>
        (let d = ds ! i in bit d 43 \<and> bit d 44 \<and> bit d 47 \<and> bit d 53 \<and> \<not> bit d 54))"

section \<open>The tables in memory\<close>

text \<open>Memory with the first \<open>n\<close> entries of a table written; an entry is 8 bytes, of which 4 are.\<close>

definition filled :: "nat \<Rightarrow> (nat \<Rightarrow> u32) \<Rightarrow> nat \<Rightarrow> mem \<Rightarrow> mem" where
  "filled base f n m = (\<lambda>i. if base \<le> i \<and> i < base + 8 * n \<and> (i - base) mod 8 < 4
     then to_le 4 (f ((i - base) div 8)) ! ((i - base) mod 8) else m i)"

lemma filled_0: "filled base f 0 m = m"
  by (rule ext) (auto simp: filled_def)

lemma filled_Suc: "mem_write (filled base f k m) (base + 8 * k) (to_le 4 (f k)) = filled base f (Suc k) m"
proof (rule ext)
  fix i
  consider "i < base + 8 * k" | "base + 8 * k \<le> i" "i < base + 8 * k + 8" | "base + 8 * Suc k \<le> i" by fastforce
  then show "mem_write (filled base f k m) (base + 8 * k) (to_le 4 (f k)) i = filled base f (Suc k) m i"
  proof cases
    case 2
    define r where "r = i - (base + 8 * k)"
    have r: "r < 8" "i - base = 8 * k + r" "i - (base + 8 * k) = r" using 2 by (simp_all add: r_def)
    then have "(i - base) div 8 = k" "(i - base) mod 8 = r" by simp_all
    moreover have "i < base + 8 * k + 4 \<longleftrightarrow> r < 4" using 2 by (auto simp: r_def)
    ultimately show ?thesis using 2 r(3) by (simp add: mem_write_def filled_def)
  qed (simp_all add: mem_write_def filled_def)
qed

lemma fill_table_run:
  assumes "unat table + 8 * n \<le> 2 ^ 32" "k < n" "unat limit = n"
  shows "fill_table e table limit (word_of_nat k) (filled (unat table) (\<lambda>i. e (word_of_nat i)) k m) =
    Some (filled (unat table) (\<lambda>i. e (word_of_nat i)) n m)"
  using assms(2)
proof (induction "n - k" arbitrary: k)
  case (Suc d)
  have k: "unat (word_of_nat k :: u32) = k" using Suc.prems assms(1) by (simp add: unsigned_of_nat take_bit_nat_eq_self)
  have "unat (word_of_nat k * 8 :: u32) = k * 8"
    using Suc.prems assms(1) k by (subst unat_mult_lem [THEN iffD1]) simp_all
  then have "unat (table + word_of_nat k * 8) = unat table + 8 * k"
    using Suc.prems assms(1) by (subst unat_add_lem [THEN iffD1]) simp_all
  then have store: "store32 (filled (unat table) (\<lambda>i. e (word_of_nat i)) k m) (table + word_of_nat k * 8) (e (word_of_nat k)) =
      filled (unat table) (\<lambda>i. e (word_of_nat i)) (Suc k) m"
    by (simp add: store32_def filled_Suc [symmetric])
  have Suc_k: "word_of_nat k + 1 = (word_of_nat (Suc k) :: u32)" by simp
  have "unat (word_of_nat (Suc k) :: u32) = Suc k" if "Suc k < 2 ^ 32"
    using that by (simp add: unsigned_of_nat take_bit_nat_eq_self del: of_nat_Suc)
  then have limit: "word_of_nat (Suc k) \<noteq> limit \<longleftrightarrow> Suc k \<noteq> n"
    using Suc.prems assms(1,3) by (auto simp: word_unat_eq_iff simp del: of_nat_Suc)
  show ?case
  proof (cases "Suc k = n")
    case True
    then show ?thesis using limit store by (subst fill_table.simps) (simp add: Let_def Suc_k del: of_nat_Suc)
  next
    case False
    then show ?thesis using Suc.hyps(1) [of "Suc k"] Suc.hyps(2) Suc.prems limit store
      by (subst fill_table.simps) (simp add: Let_def Suc_k del: of_nat_Suc)
  qed
qed simp

lemma fill_table_from_0:
  assumes "unat table + 8 * n \<le> 2 ^ 32" "0 < n" "unat limit = n"
  shows "fill_table e table limit 0 m = Some (filled (unat table) (\<lambda>i. e (word_of_nat i)) n m)"
  using fill_table_run [OF assms, where m = m] by (simp add: filled_0)

lemma filled_outside: "i < base \<or> base + 8 * n \<le> i \<Longrightarrow> filled base f n m i = m i"
  by (auto simp: filled_def)

lemma of_le_extended: "of_le (to_le 4 (w :: u32) @ replicate 4 0) = (ucast w :: u64)"
proof (rule bit_word_eqI)
  fix i assume "i < LENGTH(64)"
  then show "bit (of_le (to_le 4 w @ replicate 4 0) :: u64) i = bit (ucast w :: u64) i"
    using bit_imp_le_length [of w i]
    by (cases "i < 32") (auto simp: bit_of_le_iff bit_simps nth_append nth_to_le less_mult_imp_div_less)
qed

lemma load_filled:
  assumes "unat a = base + 8 * j" "j < n" "\<forall>i. base \<le> i \<and> i < base + 8 * n \<longrightarrow> m i = 0"
  shows "load_u64 (filled base f n m) a = ucast (f j)"
proof -
  have "mem_read (filled base f n m) (unat a) 8 = to_le 4 (f j) @ replicate 4 0"
  proof (rule nth_equalityI)
    fix i assume "i < length (mem_read (filled base f n m) (unat a) 8)"
    then have i: "i < 8" by simp
    then have "(base + 8 * j + i - base) div 8 = j" "(base + 8 * j + i - base) mod 8 = i" "base + 8 * j + i < base + 8 * n"
      using assms(2) by auto
    then show "mem_read (filled base f n m) (unat a) 8 ! i = (to_le 4 (f j) @ replicate 4 0) ! i"
      using i assms by (auto simp: filled_def nth_append)
  qed simp
  then show ?thesis by (simp only: load_u64_def of_le_extended)
qed

lemma load_table:
  assumes "unat a = base + 8 * j" "j < N" "n \<le> N" "\<forall>i. base \<le> i \<and> i < base + 8 * N \<longrightarrow> M i = filled base f n m i \<and> m i = 0"
  shows "load_u64 M a = (if j < n then ucast (f j) else 0)"
proof -
  have inside: "base \<le> unat a + i \<and> unat a + i < base + 8 * N" if "i < 8" for i using assms(1,2) that by auto
  show ?thesis
  proof (cases "j < n")
    case True
    have "mem_read M (unat a) 8 = mem_read (filled base f n m) (unat a) 8"
      using assms(4) inside by (auto simp: mem_read_def)
    then have "load_u64 M a = load_u64 (filled base f n m) a" by (simp add: load_u64_def)
    also have "\<dots> = ucast (f j)" by (rule load_filled [OF assms(1) True]) (use assms(3,4) in auto)
    finally show ?thesis using True by simp
  next
    case False
    have "mem_read M (unat a) 8 = replicate 8 0"
    proof (rule nth_equalityI)
      fix i assume "i < length (mem_read M (unat a) 8)"
      then have i: "i < 8" by simp
      have "filled base f n m (unat a + i) = m (unat a + i)" using assms(1) False i by (intro filled_outside) auto
      then show "mem_read M (unat a) 8 ! i = replicate 8 0 ! i" using assms(4) inside [OF i] i by simp
    qed simp
    then show ?thesis using False by (simp add: load_u64_def eval_nat_numeral)
  qed
qed

section \<open>Entries and indices\<close>

lemma aligned_bits: "2 ^ k dvd unat (x :: u32) \<Longrightarrow> i < k \<Longrightarrow> \<not> bit x i"
proof -
  assume k: "2 ^ k dvd unat x" "i < k"
  then have "take_bit k (unat x) = 0" by (simp add: take_bit_eq_mod)
  then have "\<not> bit (take_bit k (unat x)) i" by simp
  then show "\<not> bit x i" using k(2) by (simp add: bit_take_bit_iff bit_unsigned_iff)
qed

lemma page_base:
  assumes "2 ^ k dvd unat (x :: u32)" "unat c < 2 ^ k" "k < 32"
  shows "push_bit k (take_bit (52 - k) (drop_bit k (ucast (x OR c) :: u64))) = ucast x"
proof -
  have "\<not> bit c i" if "k \<le> i" for i
  proof -
    have "take_bit k (unat c) = unat c" using assms(2) by (simp add: take_bit_nat_eq_self)
    then have "\<not> bit (unat c) i" using that by (metis bit_take_bit_iff not_le)
    then show ?thesis by (auto simp: bit_unsigned_iff dest: bit_imp_le_length)
  qed
  moreover have "k \<le> i \<and> i < 32 \<and> k + (i - k) = i \<and> i - k < 52 - k" if "bit x i" for i
    using aligned_bits [OF assms(1), of i] bit_imp_le_length [OF that] that assms(3) by (cases "i < k") auto
  ultimately show ?thesis
    using assms(3) by (intro bit_word_eqI) (auto simp: bit_simps)
qed

lemma entry_bits:
  assumes "2 ^ k dvd unat (x :: u32)" "i < k" "i < 32"
  shows "bit (ucast (x OR c) :: u64) i = bit c i"
  using aligned_bits [OF assms(1,2)] assms(3) by (simp add: bit_simps)

lemma unat_table_index: "unat (table_index level va) = unat va div 2 ^ (3 + 9 * level) mod 512"
proof -
  have "unat (table_index level va) = take_bit 9 (drop_bit (3 + 9 * level) (unat va))"
    by (simp only: table_index_def unsigned_take_bit_eq unsigned_drop_bit_eq)
      (use unat_u64_lt [of va] in \<open>simp add: take_bit_nat_eq_self\<close>)
  then show ?thesis by (simp add: take_bit_eq_mod drop_bit_eq_div)
qed

lemma table_entry_load:
  assumes "2 ^ 12 dvd unat (x :: u32)" "unat c < 4096"
  shows "table_entry M (ucast (x OR c)) level va =
    (let e = load_u64 M (ucast x + 8 * table_index level va) in if bit e 0 then Some e else None)"
    and "unat (ucast x + 8 * table_index level va) = unat x + 8 * (unat va div 2 ^ (3 + 9 * level) mod 512)"
proof -
  have b: "entry_base (ucast (x OR c)) = ucast x" using page_base [OF assms(1), of c] assms(2) by (simp add: entry_base_def)
  show "table_entry M (ucast (x OR c)) level va =
    (let e = load_u64 M (ucast x + 8 * table_index level va) in if bit e 0 then Some e else None)"
    by (simp add: table_entry_def b)
  have i: "unat (table_index level va) < 512" by (simp add: unat_table_index)
  then have m: "unat (8 * table_index level va) = 8 * unat (table_index level va)"
    by (subst unat_mult_lem [THEN iffD1]) simp_all
  have x: "unat (ucast x :: u64) = unat x" 
    using unat_u32_lt [of x] by (simp add: unsigned_ucast_eq take_bit_nat_eq_self)
  show "unat (ucast x + 8 * table_index level va) = unat x + 8 * (unat va div 2 ^ (3 + 9 * level) mod 512)"
    using m x i unat_u32_lt [of x] by (subst unat_add_lem [THEN iffD1]) (simp_all add: unat_table_index)
qed

section \<open>Set-up\<close>

text \<open>What the linker and the loader give: three tables in a row from a page boundary, all zero.\<close>

definition tables_ok :: "tables \<Rightarrow> mem \<Rightarrow> bool" where
  "tables_ok t m \<longleftrightarrow> 4096 dvd unat (p4_table t) \<and> unat (p3_table t) = unat (p4_table t) + 4096 \<and>
    unat (p2_table t) = unat (p4_table t) + 8192 \<and> unat (p4_table t) + 24576 \<le> 2 ^ 32 \<and>
    (\<forall>i. unat (p4_table t) \<le> i \<and> i < unat (p4_table t) + 24576 \<longrightarrow> m i = 0)"

definition p3_entry :: "tables \<Rightarrow> nat \<Rightarrow> u32" where
  "p3_entry t i = (p2_table t + push_bit 12 (word_of_nat i)) OR 3"

definition p2_entry :: "nat \<Rightarrow> u32" where
  "p2_entry i = (0x200000 * word_of_nat i) OR 0x83"

lemma setup_paging_filled:
  assumes "tables_ok t m"
  shows "setup_paging t m = Some (filled (unat (p2_table t)) p2_entry 2048 (filled (unat (p3_table t)) (p3_entry t) 4
    (filled (unat (p4_table t)) (\<lambda>_. p3_table t OR 3) 1 m)))"
proof -
  have p4: "store32 m (p4_table t) (p3_table t OR 3) = filled (unat (p4_table t)) (\<lambda>_. p3_table t OR 3) 1 m"
    using filled_Suc [of "unat (p4_table t)" "\<lambda>_. p3_table t OR 3" 0 m] by (simp add: store32_def filled_0)
  have p3: "fill_p3 t m' = Some (filled (unat (p3_table t)) (p3_entry t) 4 m')" for m'
    unfolding fill_p3_def Let_def p3_entry_def using assms by (intro fill_table_from_0) (simp_all add: tables_ok_def)
  have p2: "map_p2 t m' = Some (filled (unat (p2_table t)) p2_entry 2048 m')" for m'
    unfolding map_p2_def Let_def p2_entry_def using assms by (intro fill_table_from_0) (simp_all add: tables_ok_def)
  show ?thesis by (simp add: setup_paging_def p4 p3 p2)
qed

lemma loaded_entries:
  assumes "tables_ok t m" "setup_paging t m = Some M"
  shows "unat a = unat (p4_table t) + 8 * j \<Longrightarrow> j < 512 \<Longrightarrow> load_u64 M a = (if j = 0 then ucast (p3_table t OR 3) else 0)"
    and "unat a = unat (p3_table t) + 8 * j \<Longrightarrow> j < 512 \<Longrightarrow> load_u64 M a = (if j < 4 then ucast (p3_entry t j) else 0)"
    and "unat a = unat (p2_table t) + 8 * j \<Longrightarrow> j < 2048 \<Longrightarrow> load_u64 M a = ucast (p2_entry j)"
    and "i < unat (p4_table t) \<or> unat (p4_table t) + 24576 \<le> i \<Longrightarrow> M i = m i"
proof -
  let ?m1 = "filled (unat (p4_table t)) (\<lambda>_. p3_table t OR 3) 1 m"
  let ?m2 = "filled (unat (p3_table t)) (p3_entry t) 4 ?m1"
  have M: "M = filled (unat (p2_table t)) p2_entry 2048 ?m2"
    using assms(2) unfolding setup_paging_filled [OF assms(1)] by simp
  note at = assms(1) [unfolded tables_ok_def]
  show "load_u64 M a = (if j = 0 then ucast (p3_table t OR 3) else 0)" if "unat a = unat (p4_table t) + 8 * j" "j < 512"
    using load_table [where f = "\<lambda>_. p3_table t OR 3" and n = 1 and N = 512 and m = m and M = M, OF that] at
    unfolding M by (auto simp: filled_outside)
  show "load_u64 M a = (if j < 4 then ucast (p3_entry t j) else 0)" if "unat a = unat (p3_table t) + 8 * j" "j < 512"
    using load_table [where f = "p3_entry t" and n = 4 and N = 512 and m = ?m1 and M = M, OF that] at
    unfolding M by (auto simp: filled_outside)
  show "load_u64 M a = ucast (p2_entry j)" if "unat a = unat (p2_table t) + 8 * j" "j < 2048"
    using load_table [where f = p2_entry and n = 2048 and N = 2048 and m = ?m2 and M = M, OF that] at that(2)
    unfolding M by (auto simp: filled_outside)
  show "M i = m i" if "i < unat (p4_table t) \<or> unat (p4_table t) + 24576 \<le> i"
    using that at unfolding M by (auto simp: filled_outside)
qed

lemma p3_entry_value:
  assumes "tables_ok t m" "i < 4"
  shows "\<exists>x. p3_entry t i = x OR 3 \<and> unat x = unat (p2_table t) + 4096 * i \<and> 2 ^ 12 dvd unat x"
proof -
  let ?x = "p2_table t + push_bit 12 (word_of_nat i)"
  have "push_bit 12 (word_of_nat i) = (word_of_nat (4096 * i) :: u32)" by (simp add: push_bit_eq_mult)
  then have "unat (push_bit 12 (word_of_nat i) :: u32) = 4096 * i"
    using assms(2) by (simp only: unsigned_of_nat) (simp add: take_bit_nat_eq_self)
  then have "unat ?x = unat (p2_table t) + 4096 * i"
    using assms by (subst unat_add_lem [THEN iffD1]) (simp_all add: tables_ok_def)
  moreover have "4096 dvd unat (p2_table t)" using assms(1) by (auto simp: tables_ok_def)
  ultimately show ?thesis by (intro exI [of _ ?x]) (simp add: p3_entry_def)
qed

lemma p2_entry_value:
  assumes "j < 2048"
  shows "\<exists>x. p2_entry j = x OR 0x83 \<and> unat x = 2 ^ 21 * j \<and> 2 ^ 21 dvd unat x"
proof -
  have "(0x200000 * word_of_nat j :: u32) = word_of_nat (2097152 * j)" by simp
  moreover have "unat (word_of_nat (2097152 * j) :: u32) = 2097152 * j"
    using assms by (simp only: unsigned_of_nat) (simp add: take_bit_nat_eq_self)
  ultimately show ?thesis by (intro exI [of _ "0x200000 * word_of_nat j"]) (simp add: p2_entry_def)
qed

text \<open>A large page maps an address to itself when its number is the address's.\<close>

lemma large_page_self:
  assumes "unat x = 2 ^ 21 * (unat va div 2 ^ 21)" "2 ^ 21 dvd unat (x :: u32)"
  shows "push_bit 21 (take_bit 31 (drop_bit 21 (ucast (x OR 0x83) :: u64))) + take_bit 21 va = va"
proof -
  have b: "push_bit 21 (take_bit 31 (drop_bit 21 (ucast (x OR 0x83) :: u64))) = ucast x"
    using page_base [OF assms(2), of "0x83"] by simp
  have "unat (ucast x :: u64) = unat x" using unat_u32_lt [of x] by (simp add: unsigned_ucast_eq take_bit_nat_eq_self)
  moreover have "unat (take_bit 21 va) = unat va mod 2 ^ 21" by (simp only: unsigned_take_bit_eq) (simp add: take_bit_eq_mod)
  moreover have "2 ^ 21 * (unat va div 2 ^ 21) + unat va mod 2 ^ 21 = unat va" by simp
  ultimately have "unat (ucast x + take_bit 21 va) = unat va"
    using assms(1) unat_u64_lt [of va] by (subst unat_add_lem [THEN iffD1]) simp_all
  then show ?thesis unfolding b by (simp add: word_unat_eq_iff)
qed

lemma walk_top:
  assumes "tables_ok t m" "setup_paging t m = Some M" "unat va < 2 ^ 48"
  shows "table_entry M (ucast (p4_table t)) 4 va = (if unat va < 2 ^ 39 then Some (ucast (p3_table t OR 3)) else None)"
proof -
  have al: "2 ^ 12 dvd unat (p4_table t)" "2 ^ 12 dvd unat (p3_table t)" using assms(1) by (auto simp: tables_ok_def)
  have i: "unat va div 2 ^ 39 < 512" "unat va div 2 ^ 39 = 0 \<longleftrightarrow> unat va < 2 ^ 39" using assms(3) by (auto simp: div_eq_0_iff)
  note e = table_entry_load(1) [OF al(1), where c = 0 and M = M and level = 4 and va = va]
    table_entry_load(2) [OF al(1), where c = 0 and level = 4 and va = va]
  show ?thesis
    using loaded_entries(1) [OF assms(1,2) e(2)] e(1) i entry_bits [OF al(2), of 0 3] by (simp add: Let_def)
qed

lemma walk_middle:
  assumes "tables_ok t m" "setup_paging t m = Some M" "unat va < 2 ^ 39"
  shows "table_entry M (ucast (p3_table t OR 3)) 3 va =
    (if unat va < 2 ^ 32 then Some (ucast (p3_entry t (unat va div 2 ^ 30))) else None)"
proof -
  have al: "2 ^ 12 dvd unat (p3_table t)" using assms(1) by (auto simp: tables_ok_def)
  have i: "unat va div 2 ^ 30 < 512" "unat va div 2 ^ 30 < 4 \<longleftrightarrow> unat va < 2 ^ 32" using assms(3) by auto
  have present: "bit (ucast (p3_entry t j) :: u64) 0" if "j < 4" for j
    using p3_entry_value [OF assms(1) that] entry_bits [of 12 _ 0 3] by auto
  note e = table_entry_load(1) [OF al, where c = 3 and M = M and level = 3 and va = va]
    table_entry_load(2) [OF al, where c = 3 and level = 3 and va = va]
  show ?thesis
    using loaded_entries(2) [OF assms(1,2) e(2)] e(1) i present by (simp add: Let_def)
qed

lemma walk_large:
  assumes "tables_ok t m" "setup_paging t m = Some M" "unat va < 2 ^ 32"
  shows "table_entry M (ucast (p3_entry t (unat va div 2 ^ 30))) 2 va = Some (ucast (p2_entry (unat va div 2 ^ 21)))"
proof -
  have i: "unat va div 2 ^ 30 < 4" "unat va div 2 ^ 21 < 2048" using assms(3) by auto
  obtain x where x: "p3_entry t (unat va div 2 ^ 30) = x OR 3" "unat x = unat (p2_table t) + 4096 * (unat va div 2 ^ 30)" "2 ^ 12 dvd unat x"
    using p3_entry_value [OF assms(1) i(1)] by blast
  have "unat va div 2 ^ 21 = 512 * (unat va div 2 ^ 30) + unat va div 2 ^ 21 mod 512"
    using div_mult2_eq [of "unat va" "2 ^ 21" 512] mult_div_mod_eq [of 512 "unat va div 2 ^ 21"] by simp
  then have j: "unat x + 8 * (unat va div 2 ^ 21 mod 512) = unat (p2_table t) + 8 * (unat va div 2 ^ 21)"
    unfolding x(2) by linarith
  have present: "bit (ucast (p2_entry (unat va div 2 ^ 21)) :: u64) 0"
    using p2_entry_value [OF i(2)] entry_bits [of 21 _ 0 "0x83"] by auto
  note e = table_entry_load(1) [OF x(3), where c = 3 and M = M and level = 2 and va = va]
    table_entry_load(2) [OF x(3), where c = 3 and level = 2 and va = va]
  show ?thesis
    using loaded_entries(3) [OF assms(1,2), of _ "unat va div 2 ^ 21"] e i(2) j present x(1) by (simp add: Let_def)
qed

lemma page_walk_identity:
  assumes "tables_ok t m" "setup_paging t m = Some M" "unat va < 2 ^ 48"
  shows "page_walk M (ucast (p4_table t)) va = (if unat va < 2 ^ 32 then Some va else None)"
proof (cases "unat va < 2 ^ 32")
  case False
  then show ?thesis
    using walk_top [OF assms] walk_middle [OF assms(1,2), of va] by (auto simp: page_walk_def)
next
  case True
  then have v: "unat va < 2 ^ 39" "unat va div 2 ^ 30 < 4" "unat va div 2 ^ 21 < 2048" by auto
  obtain x3 where "p3_entry t (unat va div 2 ^ 30) = x3 OR 3" "2 ^ 12 dvd unat x3" using p3_entry_value [OF assms(1) v(2)] by blast
  then have ps3: "\<not> bit (ucast (p3_entry t (unat va div 2 ^ 30)) :: u64) 7" using entry_bits [of 12 x3 7 3] by simp
  obtain x2 where x2: "p2_entry (unat va div 2 ^ 21) = x2 OR 0x83" "unat x2 = 2 ^ 21 * (unat va div 2 ^ 21)" "2 ^ 21 dvd unat x2"
    using p2_entry_value [OF v(3)] by blast
  then have ps2: "bit (ucast (p2_entry (unat va div 2 ^ 21)) :: u64) 7" using entry_bits [of 21 x2 7 "0x83"] by simp
  show ?thesis
    using walk_top [OF assms] walk_middle [OF assms(1,2) v(1)] walk_large [OF assms(1,2) True] ps3 ps2 True v(1)
      large_page_self [OF x2(2,3), folded x2(1)]
    by (simp add: page_walk_def)
qed

section \<open>The control registers\<close>

lemma enable_long_mode_multiboot:
  assumes "multiboot_state c"
  shows "\<exists>c'. enable_long_mode t c = Some c' \<and> long_mode_active c' \<and> code64_segment c' 0x08 \<and> r_cr3 c' = p4_table t \<and>
    (sse_enabled c' \<longleftrightarrow> \<not> bit (r_cr0 c) 3) \<and> (four_level_paging c' \<longleftrightarrow> \<not> bit (r_cr4 c) 12) \<and>
    (\<forall>i. i \<notin> {1, 2, 31} \<longrightarrow> bit (r_cr0 c') i = bit (r_cr0 c) i) \<and>
    (\<forall>i. i \<notin> {5, 9, 10} \<longrightarrow> bit (r_cr4 c') i = bit (r_cr4 c) i) \<and>
    fst (r_efer c') = fst (r_efer c) \<and> (\<forall>i. i \<notin> {8, 10} \<longrightarrow> bit (snd (r_efer c')) i = bit (snd (r_efer c)) i)"
proof -
  define one :: "nat \<Rightarrow> u32" where "one n = push_bit n 1" for n
  have one: "bit (one n) i \<longleftrightarrow> i = n \<and> i < 32" for n i by (auto simp: one_def bit_simps)
  have masks: "(0xFFFF0000 :: u32) = NOT (mask 16)" "(0xFFFB :: u32) = mask 16 AND NOT (one 2)" "(2 :: u32) = one 1"
    "(0x600 :: u32) = one 9 OR one 10" "push_bit 31 1 = one 31" "push_bit 5 1 = one 5" "push_bit 8 1 = one 8" "push_bit 10 1 = one 10"
    by (simp_all add: one_def mask_eq_decr_exp)
  let ?a = "((r_cr0 c AND 0xFFFF0000) OR (r_cr0 c AND 0xFFFB)) OR 2"
  have a: "bit ?a i \<longleftrightarrow> i \<noteq> 2 \<and> bit (r_cr0 c) i \<or> i = 1" for i
    unfolding masks using bit_imp_le_length [of "r_cr0 c" i] by (auto simp: bit_or_iff bit_and_iff bit_not_iff bit_mask_iff one)
  have pe: "bit (r_cr0 c) 0" "\<not> bit (r_cr0 c) 31" using assms by (simp_all add: multiboot_state_def)
  define v0 v4 ve where v: "v0 = ?a OR one 31" "v4 = (r_cr4 c OR one 5) OR 0x600" "ve = (snd (r_efer c) OR one 8) OR one 10"
  let ?c = "\<lparr>r_cr0 = v0, r_cr3 = p4_table t, r_cr4 = v4, r_efer = (fst (r_efer c), ve), r_gdt = (15, gdt64)\<rparr>"
  have eq: "enable_long_mode t c = Some ?c"
    using a [of 31, unfolded masks] a [of 0, unfolded masks] pe
    unfolding enable_long_mode_def write_cr0_def write_efer_def Let_def split_def masks v
    by (cases c) (simp add: gdt64_def bit_or_iff one)
  have cr: "bit v0 i \<longleftrightarrow> i \<noteq> 2 \<and> bit (r_cr0 c) i \<or> i = 1 \<or> i = 31" "bit v4 i \<longleftrightarrow> bit (r_cr4 c) i \<or> i = 5 \<or> i = 9 \<or> i = 10"
    "bit ve i \<longleftrightarrow> bit (snd (r_efer c)) i \<or> i = 8 \<or> i = 10" for i
    using a [of i] unfolding v(1) v(2,3) [unfolded masks] bit_or_iff one by auto
  have "code64_segment ?c 0x08" by (simp add: code64_segment_def gdt64_def bit_simps)
  moreover have "long_mode_active ?c" "sse_enabled ?c \<longleftrightarrow> \<not> bit (r_cr0 c) 3" "four_level_paging ?c \<longleftrightarrow> \<not> bit (r_cr4 c) 12"
    using pe by (simp_all add: long_mode_active_def sse_enabled_def four_level_paging_def cr)
  ultimately show ?thesis unfolding eq by (simp add: cr)
qed

lemma enable_long_mode_paged:
  assumes "bit (r_cr0 c) 31" "\<not> bit (snd (r_efer c)) 8"
  shows "enable_long_mode t c = None"
proof -
  have "bit (((r_cr0 c AND 0xFFFF0000) OR (r_cr0 c AND 0xFFFB)) OR 2) 31" using assms(1) by (simp add: bit_simps)
  then show ?thesis
    using assms by (simp add: enable_long_mode_def write_cr0_def write_efer_def Let_def split_def bit_or_iff bit_simps)
qed

section \<open>Properties\<close>

text \<open>C15: the page tables are the identity on the first 4 GiB. From zeroed tables the two loops end, and with
  what they wrote the processor translates every address below 4 GiB to itself and faults on any other; no
  byte outside the three tables is changed.\<close>
theorem paging_is_identity:
  assumes "tables_ok t m"
  shows "\<exists>M. setup_paging t m = Some M \<and>
    (\<forall>va. unat va < 2 ^ 48 \<longrightarrow> page_walk M (ucast (p4_table t)) va = (if unat va < 2 ^ 32 then Some va else None)) \<and>
    (\<forall>i. M i \<noteq> m i \<longrightarrow> unat (p4_table t) \<le> i \<and> i < unat (p4_table t) + 24576)"
proof -
  obtain M where M: "setup_paging t m = Some M" using setup_paging_filled [OF assms] by simp
  have "unat (p4_table t) \<le> i \<and> i < unat (p4_table t) + 24576" if "M i \<noteq> m i" for i
    using loaded_entries(4) [OF assms M, of i] that by (cases "i < unat (p4_table t)"; cases "unat (p4_table t) + 24576 \<le> i") auto
  then show ?thesis using M page_walk_identity [OF assms M] by blast
qed

definition example_tables :: tables where
  "example_tables = \<lparr>p4_table = 0x104000, p3_table = 0x105000, p2_table = 0x106000, stack_top = 0x11A000\<rparr>"

lemma paging_is_identity_witness:
  "\<exists>M. setup_paging example_tables (\<lambda>_. 0) = Some M \<and> page_walk M 0x104000 0x2000000 = Some 0x2000000 \<and>
    page_walk M 0x104000 0x100000000 = None"
proof -
  have "tables_ok example_tables (\<lambda>_. 0)" by (simp add: tables_ok_def example_tables_def)
  from paging_is_identity [OF this] obtain M where M: "setup_paging example_tables (\<lambda>_. 0) = Some M"
    "\<forall>va. unat va < 2 ^ 48 \<longrightarrow> page_walk M (ucast (p4_table example_tables)) va = (if unat va < 2 ^ 32 then Some va else None)"
    by blast
  then show ?thesis
    using M(2) [THEN spec, of "0x2000000"] M(2) [THEN spec, of "0x100000000"] by (simp add: example_tables_def)
qed

text \<open>C21: the kernel is entered as it must be. From the state a Multiboot 2 loader promises (protection on,
  paging off, zeroed tables placed as the linker places them) no control register write faults, and \<open>kmain\<close> is
  called in long mode through a 64-bit code segment at the selector of the far jump, with the boot loader's
  two values as its arguments and translation rooted in the identity tables; no other control bit is changed.
  SSE can be used exactly when CR0.TS was clear, and the tables are walked over four levels exactly when
  CR4.LA57 was clear: the entry leaves both bits, which the standard does not define, as it found them. With
  paging already on and long mode off it faults at the write to EFER.\<close>
theorem start_enters_long_mode:
  assumes "tables_ok t m"
  shows "(multiboot_state c \<longrightarrow>
      (\<exists>s. start_kernel t eax ebx c m = Some s \<and> en_magic s = eax \<and> en_info s = ebx \<and> setup_paging t m = Some (en_mem s) \<and>
        (let c' = en_control s
         in long_mode_active c' \<and> code64_segment c' 0x08 \<and> r_cr3 c' = p4_table t \<and>
            (sse_enabled c' \<longleftrightarrow> \<not> bit (r_cr0 c) 3) \<and> (four_level_paging c' \<longleftrightarrow> \<not> bit (r_cr4 c) 12) \<and>
            (\<forall>i. i \<notin> {1, 2, 31} \<longrightarrow> bit (r_cr0 c') i = bit (r_cr0 c) i) \<and>
            (\<forall>i. i \<notin> {5, 9, 10} \<longrightarrow> bit (r_cr4 c') i = bit (r_cr4 c) i) \<and>
            fst (r_efer c') = fst (r_efer c) \<and>
            (\<forall>i. i \<notin> {8, 10} \<longrightarrow> bit (snd (r_efer c')) i = bit (snd (r_efer c)) i)))) \<and>
    (bit (r_cr0 c) 31 \<and> \<not> bit (snd (r_efer c)) 8 \<longrightarrow> start_kernel t eax ebx c m = None)"
proof -
  obtain M where M: "setup_paging t m = Some M" using setup_paging_filled [OF assms] by simp
  show ?thesis
    using M enable_long_mode_multiboot [of c t] enable_long_mode_paged [of c t]
    by (auto simp: start_kernel_def Let_def)
qed

lemma start_enters_long_mode_witness:
  "(\<exists>s. start_kernel example_tables 0x36d76289 0x10000 \<lparr>r_cr0 = 0x11, r_cr3 = 0, r_cr4 = 0, r_efer = (0, 0), r_gdt = (0, [])\<rparr>
      (\<lambda>_. 0) = Some s \<and> en_magic s = 0x36d76289 \<and> long_mode_active (en_control s) \<and> sse_enabled (en_control s)) \<and>
   (\<exists>s. start_kernel example_tables 0x36d76289 0x10000 \<lparr>r_cr0 = 0x19, r_cr3 = 0, r_cr4 = 0, r_efer = (0, 0), r_gdt = (0, [])\<rparr>
      (\<lambda>_. 0) = Some s \<and> long_mode_active (en_control s) \<and> \<not> sse_enabled (en_control s)) \<and>
   start_kernel example_tables 0x36d76289 0x10000 \<lparr>r_cr0 = 0x80000011, r_cr3 = 0, r_cr4 = 0, r_efer = (0, 0), r_gdt = (0, [])\<rparr>
      (\<lambda>_. 0) = None"
proof -
  have "tables_ok example_tables (\<lambda>_. 0)" by (simp add: tables_ok_def example_tables_def)
  note start = start_enters_long_mode [OF this, THEN conjunct1, rule_format, unfolded Let_def]
    and fault = start_enters_long_mode [OF this, THEN conjunct2, rule_format]
  show ?thesis
    using start [of "\<lparr>r_cr0 = 0x11, r_cr3 = 0, r_cr4 = 0, r_efer = (0, 0), r_gdt = (0, [])\<rparr>" "0x36d76289" "0x10000"]
      start [of "\<lparr>r_cr0 = 0x19, r_cr3 = 0, r_cr4 = 0, r_efer = (0, 0), r_gdt = (0, [])\<rparr>" "0x36d76289" "0x10000"]
      fault [of "\<lparr>r_cr0 = 0x80000011, r_cr3 = 0, r_cr4 = 0, r_efer = (0, 0), r_gdt = (0, [])\<rparr>"]
    by (auto simp: multiboot_state_def bit_simps)
qed

text \<open>The boot loader accepts the header: it is 64 bytes long as it says, its first four words sum to zero,
  and it asks for a linear framebuffer of 1024 by 768 at 32 bits a pixel.\<close>
theorem header_accepted:
  "length multiboot_header = 64 \<and>
   (of_le (take 4 multiboot_header) + of_le (take 4 (drop 4 multiboot_header)) + of_le (take 4 (drop 8 multiboot_header)) +
     of_le (take 4 (drop 12 multiboot_header)) :: u32) = 0 \<and>
   of_le (take 4 (drop 8 multiboot_header)) = (64 :: u32) \<and>
   map (\<lambda>i. of_le (take 4 (drop (32 + 4 * i) multiboot_header))) [0..<5] = [5, 20, 1024, 768, 32 :: u32]"
  by code_simp

end
