(* ===== verification/KernelServices.thy ===== *)
theory KernelServices
  imports KernelLoop DiskIo BootEntry
begin

text \<open>
  The kernel that start-up leaves (\<open>Kernel\<close>) under what it has installed: the invalid-opcode entry of
  \<open>src/boot/boot.S\<close> over its manifold, its disk driver as a block device, and the page tables under its
  arena.
\<close>

unbundle bit_operations_syntax

section \<open>What start-up leaves\<close>

lemma init_idt_flags:
  "init_idt e a fault_state0 = Some s \<Longrightarrow> g_fuzz_active s = 0 \<and> g_fault_detected s = 0 \<and> g_temporal_pulse s = 0"
  by (auto simp: init_idt_def set_idt_gate_def init_pic_def fault_state0_def Let_def)

lemma kmain_boot_parts:
  assumes "kmain_boot mc magic info_addr = Some k"
  obtains pmm where "init_idt (mc_entry mc) (mc_idt_addr mc) fault_state0 = Some (g_faults k)"
    "boot_disk mc kernel_arena = Some (g_disk k, g_hba k)"
    "g_manifold k = fst (SubstrateManifold pmm (mc_pool0 mc) (mc_map0 mc))"
  using assms by (auto simp: kmain_boot_def manual_init_def manifold_initialize_def Let_def split: option.splits prod.splits)
    (metis fst_conv)

lemma fresh_fetch: "holographic_fetch (fst (SubstrateManifold pmm pool0 map0)) a = val128 0 0"
proof -
  have "find_slot (fst (SubstrateManifold pmm pool0 map0)) vb = None" for vb
    by (simp add: SubstrateManifold_def split_def find_slot_def find_None_iff Let_def)
  then show ?thesis by (simp add: fetch_find_slot)
qed

text \<open>The structures of a disk that was found are the first three blocks of the arena.\<close>

lemma setup_port_places:
  assumes "setup_port polls n (d, hw) = Some (d', hw')" "phys_pmm hw = kernel_arena"
  shows "cmd_list d' = 0x2000000 \<and> fis_base d' = 0x2004000 \<and> cmd_table d' = 0x2008000"
  using assms by (auto simp: setup_port_def Let_def PhysicalMemory_def allocate_def TABLE_BYTES_def split: option.splits)

lemma setup_port_ready:
  assumes "setup_port polls n (d, hw) = Some (d', hw')" "phys_pmm hw = kernel_arena"
  shows "header_ready d' (phys_bytes hw')"
  using assms by (auto simp: setup_port_def Let_def PhysicalMemory_def allocate_def TABLE_BYTES_def header_ready_def kmemset_eq
      mem_write_def split: option.splits)

lemma boot_disk_ready:
  assumes "boot_disk mc kernel_arena = Some (Some d, hw)" "active_port d \<noteq> None"
  shows "header_ready d (phys_bytes hw)"
  using assms by (fastforce simp: boot_disk_def ahci_initialize_def AHCIDriver_def Let_def
      split: option.splits if_splits prod.splits dest: setup_port_ready)

lemma boot_disk_places:
  assumes "boot_disk mc kernel_arena = Some (Some d, hw)" "active_port d \<noteq> None"
  shows "cmd_list d = 0x2000000 \<and> fis_base d = 0x2004000 \<and> cmd_table d = 0x2008000"
  using assms by (fastforce simp: boot_disk_def ahci_initialize_def AHCIDriver_def Let_def
      split: option.splits if_splits prod.splits dest: setup_port_places)

lemma booted_driver:
  assumes "kmain_boot mc magic info_addr = Some k" "g_disk k = Some d" "active_port d \<noteq> None"
  shows "placed d" and "driver_area d \<subseteq> {0x2000000..<0x2008090}" and "header_ready d (phys_bytes (g_hba k))"
proof -
  show "header_ready d (phys_bytes (g_hba k))"
    using kmain_boot_parts [OF assms(1)] boot_disk_ready assms(2,3) by metis
  have "cmd_list d = 0x2000000 \<and> fis_base d = 0x2004000 \<and> cmd_table d = 0x2008000"
    using kmain_boot_parts [OF assms(1)] boot_disk_places assms(2,3) by metis
  then show "placed d" and "driver_area d \<subseteq> {0x2000000..<0x2008090}"
    by (auto simp: placed_def driver_area_def controller_area_def)
qed

section \<open>Properties\<close>

text \<open>After start-up the emergent instruction is a jump to address 2. The invalid-opcode entry takes it as its
  return address, the fresh manifold holds zero everywhere, and the handler adds two: whatever code used the
  instruction, wherever and with whatever registers, execution goes on at 2.\<close>
theorem emergent_instruction_jumps:
  assumes "kmain_boot mc magic info_addr = Some k" "globals s = g_faults k" "24 \<le> unat (regs s RSP)"
    and "emergent_at m (slots s (regs s RSP))"
  shows "\<exists>s'. exec_asm junk below (call_resolve_hic m (Some (g_manifold k)) u) u exception_handler_ud_code s = Returned s' 2 \<and>
    regs s' RAX = regs s RAX"
proof -
  obtain pmm where k: "init_idt (mc_entry mc) (mc_idt_addr mc) fault_state0 = Some (g_faults k)"
    "g_manifold k = fst (SubstrateManifold pmm (mc_pool0 mc) (mc_map0 mc))"
    using kmain_boot_parts [OF assms(1)] by metis
  define rip where "rip = slots s (regs s RSP)"
  define out where "out = resolve_hic_at m (Some (g_manifold k)) u (regs s RSP) (regs s RSP) (regs s RSP - 8)
      ((slots s)(regs s RSP - 8 := regs s RAX, regs s RSP - 16 := regs s RBX, regs s RSP - 24 := regs s RCX)) (globals s)"
  have "g_fuzz_active (globals s) = 0" using init_idt_flags [OF k(1)] assms(2) by simp
  moreover have "v_lo (holographic_fetch (g_manifold k) a) = 0" for a unfolding k(2) fresh_fetch by simp
  ultimately have "out = Done ((slots s)(regs s RSP - 8 := regs s RAX, regs s RSP - 16 := regs s RBX, regs s RSP - 24 := regs s RCX,
      regs s RSP := 2)) (globals s)"
    using assms(4) by (simp add: out_def resolve_hic_at_def emergent_at_def)
  then show ?thesis
    using ud_stub_calls [OF assms(3) refl, of "call_resolve_hic m (Some (g_manifold k)) u"]
    by (fastforce simp: call_resolve_hic_def out_def)
qed

lemma emergent_instruction_jumps_witness:
  "\<exists>k s'. kmain_boot example_machine 0 0 = Some k \<and>
    exec_asm (\<lambda>_. 9) (\<lambda>_. 9) (call_resolve_hic (\<lambda>i. if i = 0x5000 then 0x0F else 0xFF) (Some (g_manifold k))
      \<lparr>line_status = (\<lambda>_. 0), status_reads = 0, sent = []\<rparr>) \<lparr>line_status = (\<lambda>_. 0), status_reads = 0, sent = []\<rparr>
      exception_handler_ud_code (example_frame\<lparr>globals := g_faults k\<rparr>) = Returned s' 2"
proof -
  obtain k where k: "kmain_boot example_machine 0 0 = Some k" using example_boots by blast
  let ?s = "example_frame\<lparr>globals := g_faults k\<rparr>"
  have "globals ?s = g_faults k" "24 \<le> unat (regs ?s RSP)"
    "emergent_at (\<lambda>i. if i = 0x5000 then 0x0F else 0xFF) (slots ?s (regs ?s RSP))"
    by (simp_all add: example_frame_def emergent_at_def)
  from emergent_instruction_jumps [OF k this] k show ?thesis by blast
qed

text \<open>C32: the disk start-up found is a block device on the arena of the kernel. A driver with a port has its
  structures in the first 33 KiB of the arena, which the page tables map to themselves, and start-up leaves the header
  bits it never writes clear. As long as they are, which every request keeps, and with a controller that does what the AHCI
  specification says of well-formed requests, every request of 1 to 8192 sectors below sector \<open>2 ^ 48\<close>, with a buffer at an even address
  behind those structures and below 4 GiB, is served: what is written is on the disk and what is read is in memory.\<close>
theorem booted_disk_serves:
  assumes "kmain_boot mc magic info_addr = Some k" "g_disk k = Some d" "active_port d \<noteq> None"
    and "obeys_ahci d controller" "completes tfd ci sts" "header_ready d m"
    and "0 < unat count" "unat count \<le> 8192" "unat lba < 2 ^ 48"
    and "0x2008090 \<le> unat buffer" "unat buffer + 512 * unat count \<le> 2 ^ 32" "2 dvd unat buffer"
    and "tables_ok t m0" "setup_paging t m0 = Some M"
  shows "(\<forall>a \<in> driver_area d. page_walk M (ucast (p4_table t)) (word_of_nat a) = Some (word_of_nat a)) \<and>
    header_ready d (phys_bytes (g_hba k)) \<and>
    (\<exists>m1. disk_io controller tfd ci sts d True lba count buffer (m, dsk) =
      Some (m1, mem_write dsk (512 * unat lba) (mem_read m (unat buffer) (512 * unat count))) \<and> header_ready d m1) \<and>
    (\<exists>m1. disk_io controller tfd ci sts d False lba count buffer (m, dsk) = Some (m1, dsk) \<and>
      mem_read m1 (unat buffer) (512 * unat count) = mem_read dsk (512 * unat lba) (512 * unat count) \<and> header_ready d m1)"
proof -
  note d = booted_driver [OF assms(1-3)]
  note io = ahci_disk.device [OF ahci_disk.intro [OF assms(4,5,3) d(1)]]
  have walk: "page_walk M (ucast (p4_table t)) (word_of_nat a) = Some (word_of_nat a)" if "a \<in> driver_area d" for a
  proof -
    have "a < 2 ^ 32" using d(2) that by auto
    then have "unat (word_of_nat a :: u64) < 2 ^ 32" by (simp add: unsigned_of_nat take_bit_nat_eq_self)
    then show ?thesis using page_walk_identity [OF assms(13,14), of "word_of_nat a"] by simp
  qed
  have free: "{unat buffer..<unat buffer + 512 * unat count} \<inter> driver_area d = {}"
    using d(2) assms(10) by (fastforce simp: word_le_nat_alt)
  then have r: "io_request (driver_area d) lba count buffer" using assms(7-9,11,12) by (simp add: io_request_def)
  obtain m1 where m1: "disk_io controller tfd ci sts d False lba count buffer (m, dsk) = Some (m1, dsk)"
    "\<forall>i. i \<notin> driver_area d \<longrightarrow> m1 i = mem_write m (unat buffer) (mem_read dsk (512 * unat lba) (512 * unat count)) i" "header_ready d m1"
    using substrate_io.read_law [OF io assms(6) r, of dsk] by blast
  have "mem_read m1 (unat buffer) (512 * unat count) = mem_read dsk (512 * unat lba) (512 * unat count)"
    using substrate_io.kept_read [OF io m1(2) free]
      mem_read_write_same [of m "unat buffer" "mem_read dsk (512 * unat lba) (512 * unat count)"] by simp
  then show ?thesis using walk d(3) substrate_io.write_law [OF io assms(6) r, of dsk] m1(1,3) by blast
qed

lemma example_disk: "kmain_boot example_machine 0 0 = Some k \<Longrightarrow> \<exists>d. g_disk k = Some d \<and> active_port d = Some 0"
proof -
  assume k: "kmain_boot example_machine 0 0 = Some k"
  have port: "setup_port polls n (d, hw) = Some (d', hw') \<Longrightarrow> active_port d' = active_port d" for polls n d hw d' hw'
    by (auto simp: setup_port_def Let_def split: option.splits prod.splits)
  have find: "find P [0..<32] = Some 0" if "P 0" for P using that by (simp add: upt_conv_Cons)
  have base: "find_ahci_base (mc_pci example_machine) = 0xFEBF1000"
    using find_ahci_base_first_witness by (simp add: example_machine_def)
  have "boot_disk example_machine kernel_arena = Some (g_disk k, g_hba k)" using kmain_boot_parts [OF k] by blast
  moreover have "link_up hw 0" if "hba_pi hw = 1" "port_ssts (hba_ports hw 0) = 3" for hw
    using that by (simp add: link_up_def)
  ultimately show ?thesis
    using base by (cases "g_disk k") (auto simp: boot_disk_def ahci_initialize_def AHCIDriver_def example_machine_def find Let_def
        split: option.splits prod.splits dest: port)
qed

lemma booted_disk_serves_witness:
  "\<exists>k d M m1. kmain_boot example_machine 0 0 = Some k \<and> g_disk k = Some d \<and> setup_paging example_tables (\<lambda>_. 0) = Some M \<and>
    disk_io reference_controller (\<lambda>_. 0x50) (\<lambda>_. 0) (\<lambda>_. 0) d False 9 2 0x2010000 (\<lambda>_. 0, \<lambda>i. word_of_nat i) = Some (m1, \<lambda>i. word_of_nat i) \<and>
    m1 0x2010001 = 1"
proof -
  obtain k where k: "kmain_boot example_machine 0 0 = Some k" using example_boots by blast
  obtain d where d: "g_disk k = Some d" "active_port d \<noteq> None" using example_disk [OF k] by auto
  have "unat (cmd_list d) < 2 ^ 32" using booted_driver(1) [OF k d] by (simp add: placed_def)
  then have c: "obeys_ahci d reference_controller" by (rule reference_obeys)
  have z: "header_ready d (\<lambda>_. 0)" by (simp add: header_ready_def)
  have b: "0 < unat (2 :: u32)" "unat (2 :: u32) \<le> 8192" "unat (9 :: u64) < 2 ^ 48"
    "(0x2008090 :: nat) \<le> unat (0x2010000 :: u64)" "unat (0x2010000 :: u64) + 512 * unat (2 :: u32) \<le> 2 ^ 32"
    "2 dvd unat (0x2010000 :: u64)" by simp_all
  have t: "tables_ok example_tables (\<lambda>_. 0)" by (simp add: tables_ok_def example_tables_def)
  obtain M where M: "setup_paging example_tables (\<lambda>_. 0) = Some M" using setup_paging_filled [OF t] by simp
  from booted_disk_serves [OF k d c booted.done_in_time z b t M, of "\<lambda>i. word_of_nat i"]
  obtain m1 where m1: "disk_io reference_controller (\<lambda>_. 0x50) (\<lambda>_. 0) (\<lambda>_. 0) d False 9 2 0x2010000 (\<lambda>_. 0, \<lambda>i. word_of_nat i) = Some (m1, \<lambda>i. word_of_nat i)"
    "mem_read m1 0x2010000 1024 = mem_read (\<lambda>i. word_of_nat i) 4608 1024" by auto
  have "m1 0x2010001 = 1" using arg_cong [OF m1(2), of "\<lambda>l. l ! 1"] by simp
  then show ?thesis using k d(1) M m1(1) by blast
qed

end
