(* ===== verification/KernelPreempt.thy ===== *)
theory KernelPreempt
  imports KernelLoop
begin

text \<open>
  The main loop of \<open>KernelLoop\<close> with the timer interrupt at its real places: not only between two turns but
  between any two drawing calls of a frame, between the read that ends the wait for a pulse and the read
  that stores it, inside the call of the shell, and before and after each scancode. \<open>thread_step\<close> gives
  the main thread a program counter; the theory shows that what the interrupt can do inside a turn it can
  also do between turns, so that everything \<open>KernelLoop\<close> shows of its coarse runs holds of the fine ones.
\<close>

unbundle bit_operations_syntax

section \<open>The main thread with its program counter\<close>

text \<open>What follows when a frame is drawn: the keyboard is read in the menu or in the shell, or the loop of
  the shell begins.\<close>

datatype after = Read_menu nat | Read_shell | Begin_shell

text \<open>At the top of a loop (drawing the menu, or waiting for a pulse), with a list of calls still to draw, at
  the start of \<open>sovereign_shell\<close>, and between the two reads of \<open>g_temporal_pulse\<close>.\<close>

datatype point = At_top | Drawing "gfx_call list" after | Shell_call bool | Shell_latch bool

definition leave_defined :: "console \<Rightarrow> console \<times> point" where
  "leave_defined c = (c\<lparr>cn_place := Undefined\<rparr>, At_top)"

definition draw_one :: "gfx_call \<Rightarrow> console \<Rightarrow> point \<Rightarrow> console \<times> point" where
  "draw_one call c next_point =
    (case run_call call (cn_vga c) of None \<Rightarrow> leave_defined c | Some g \<Rightarrow> (c\<lparr>cn_vga := g\<rparr>, next_point))"

definition menu_choice :: "nat \<Rightarrow> u8 \<Rightarrow> console \<Rightarrow> console \<times> point" where
  "menu_choice selection sc c =
    (let selection = (if sc = KEY_UP then 0 else selection);
         selection = (if sc = KEY_DOWN then 1 else selection)
     in if sc = 0x1C then (c, Shell_call (selection \<noteq> 0)) else (c\<lparr>cn_place := Menu selection\<rparr>, At_top))"

definition shell_entered :: "bool \<Rightarrow> console \<Rightarrow> console \<times> point" where
  "shell_entered panel c =
    (c\<lparr>cn_shell := enter_shell (g_focus (cn_shell c)) (hypercube_frame (cn_shell c)) (sh_res (cn_shell c)),
       cn_place := Workspace panel (g_temporal_pulse (cn_faults c))\<rparr>, Drawing [Clear 0x00080808] Begin_shell)"

definition pulse_latched :: "build \<Rightarrow> control_panel \<Rightarrow> bool \<Rightarrow> console \<Rightarrow> console \<times> point" where
  "pulse_latched b control panel c =
    (case shell_frame b control panel (cn_shell c) of
       None \<Rightarrow> leave_defined c
     | Some calls \<Rightarrow> (c\<lparr>cn_place := Workspace panel (g_temporal_pulse (cn_faults c))\<rparr>, Drawing calls Read_shell))"

definition shell_choice :: "u8 \<Rightarrow> console \<Rightarrow> console \<times> point" where
  "shell_choice sc c =
    (case handle_key sc (cn_shell c) of
       None \<Rightarrow> leave_defined c
     | Some sh \<Rightarrow> (c\<lparr>cn_shell := sh, cn_place := (if g_in_shell sh then cn_place c else Menu 0)\<rparr>, At_top))"

inductive thread_step :: "build \<Rightarrow> kernel \<Rightarrow> event option \<Rightarrow> console \<times> point \<Rightarrow> console \<times> point \<Rightarrow> bool" for b k where
  interrupt: "cn_place c \<noteq> Undefined \<Longrightarrow>
    thread_step b k (Some Tick) (c, pt) (c\<lparr>cn_faults := handle_timer_pulse (cn_faults c)\<rparr>, pt)"
| menu_top: "cn_place c = Menu sel \<Longrightarrow>
    thread_step b k None (c, At_top) (c, Drawing (menu_frame b (vmx_ready k) sel) (Read_menu sel))"
| draw: "thread_step b k None (c, Drawing (call # cs) a) (draw_one call c (Drawing cs a))"
| menu_key: "thread_step b k (Some (Key sc)) (c, Drawing [] (Read_menu sel)) (menu_choice sel sc c)"
| shell_call: "thread_step b k None (c, Shell_call panel) (shell_entered panel c)"
| shell_begin: "thread_step b k None (c, Drawing [] Begin_shell) (c, At_top)"
| shell_top: "cn_place c = Workspace panel lp \<Longrightarrow> g_temporal_pulse (cn_faults c) \<noteq> lp \<Longrightarrow>
    thread_step b k None (c, At_top) (c, Shell_latch panel)"
| latch: "thread_step b k None (c, Shell_latch panel) (pulse_latched b (g_control k) panel c)"
| shell_key: "thread_step b k (Some (Key sc)) (c, Drawing [] Read_shell) (shell_choice sc c)"

inductive_simps interrupt_iff: "thread_step b k (Some Tick) m m'"

text \<open>A run with the events it took, silent steps left out.\<close>

inductive thread_run :: "build \<Rightarrow> kernel \<Rightarrow> event list \<Rightarrow> console \<times> point \<Rightarrow> bool" for b k where
  start: "thread_run b k [] (loop_start k, At_top)"
| silent: "thread_run b k es m \<Longrightarrow> thread_step b k None m m' \<Longrightarrow> thread_run b k es m'"
| event: "thread_run b k es m \<Longrightarrow> thread_step b k (Some e) m m' \<Longrightarrow> thread_run b k (es @ [e]) m'"

section \<open>A fine run is a coarse run\<close>

definition ticked :: "nat \<Rightarrow> fault_state \<Rightarrow> fault_state" where
  "ticked n = handle_timer_pulse ^^ n"

lemma ticked_simps [simp]: "ticked 0 s = s" "handle_timer_pulse (ticked n s) = ticked (Suc n) s"
  by (simp_all add: ticked_def)

text \<open>The coarse console \<open>c0\<close> stands where the turn began; the coarse run still has the keys of \<open>pend\<close> and
  \<open>n\<close> ticks to take. Ticks that come before the turn reads the pulse are already taken, the later ones wait
  for the turn to end.\<close>

fun tracks :: "build \<Rightarrow> kernel \<Rightarrow> console \<Rightarrow> u8 list \<Rightarrow> nat \<Rightarrow> console \<Rightarrow> point \<Rightarrow> bool" where
  "tracks b k c0 pend n c At_top \<longleftrightarrow> pend = [] \<and> n = 0 \<and> c = c0"
| "tracks b k c0 pend n c (Shell_latch panel) \<longleftrightarrow> pend = [] \<and> n = 0 \<and> c = c0 \<and>
     (\<exists>lp. cn_place c0 = Workspace panel lp \<and> g_temporal_pulse (cn_faults c0) \<noteq> lp)"
| "tracks b k c0 pend n c (Shell_call panel) \<longleftrightarrow> pend = [0x1C] \<and> n = 0 \<and>
     cn_faults c = cn_faults c0 \<and> cn_shell c = cn_shell c0 \<and> cn_place c = cn_place c0 \<and>
     (\<exists>sel. cn_place c0 = Menu sel \<and> panel = (sel \<noteq> 0) \<and>
       run_calls (menu_frame b (vmx_ready k) sel) (cn_vga c0) = Some (cn_vga c))"
| "tracks b k c0 pend n c (Drawing cs (Read_menu sel)) \<longleftrightarrow> pend = [] \<and> n = 0 \<and>
     cn_faults c = cn_faults c0 \<and> cn_shell c = cn_shell c0 \<and> cn_place c = cn_place c0 \<and> cn_place c0 = Menu sel \<and>
     run_calls cs (cn_vga c) = run_calls (menu_frame b (vmx_ready k) sel) (cn_vga c0)"
| "tracks b k c0 pend n c (Drawing cs Begin_shell) \<longleftrightarrow> pend = [0x1C] \<and> cn_faults c = ticked n (cn_faults c0) \<and>
     (\<exists>sel h. cn_place c0 = Menu sel \<and> run_calls (menu_frame b (vmx_ready k) sel) (cn_vga c0) = Some h \<and>
       run_calls cs (cn_vga c) = run_calls [Clear 0x00080808] h \<and>
       cn_shell c = cn_shell (fst (shell_entered (sel \<noteq> 0) c0)) \<and> cn_place c = cn_place (fst (shell_entered (sel \<noteq> 0) c0)))"
| "tracks b k c0 pend n c (Drawing cs Read_shell) \<longleftrightarrow> pend = [] \<and> cn_faults c = ticked n (cn_faults c0) \<and>
     cn_shell c = cn_shell c0 \<and>
     (\<exists>panel lp calls. cn_place c0 = Workspace panel lp \<and> g_temporal_pulse (cn_faults c0) \<noteq> lp \<and>
       cn_place c = Workspace panel (g_temporal_pulse (cn_faults c0)) \<and>
       shell_frame b (g_control k) panel (cn_shell c0) = Some calls \<and> run_calls cs (cn_vga c) = run_calls calls (cn_vga c0))"

definition covered :: "build \<Rightarrow> kernel \<Rightarrow> event list \<Rightarrow> console \<times> point \<Rightarrow> bool" where
  "covered b k evs m \<longleftrightarrow> (\<exists>es c0 pend n. kernel_run b k es c0 \<and> keys evs = keys es @ pend \<and>
     ticks evs = ticks es + n \<and> tracks b k c0 pend n (fst m) (snd m))"

lemma coveredI:
  "kernel_run b k es c0 \<Longrightarrow> keys evs = keys es @ pend \<Longrightarrow> ticks evs = ticks es + n \<Longrightarrow> tracks b k c0 pend n c pt \<Longrightarrow>
    covered b k evs (c, pt)"
  by (auto simp: covered_def)

lemma coveredE:
  assumes "covered b k evs (c, pt)"
  obtains es c0 pend n where "kernel_run b k es c0" "keys evs = keys es @ pend" "ticks evs = ticks es + n"
    "tracks b k c0 pend n c pt"
  using assms by (auto simp: covered_def)

lemma late_ticks:
  assumes "kernel_run b k es c" "cn_place c \<noteq> Undefined"
  shows "kernel_run b k (es @ replicate n Tick) (c\<lparr>cn_faults := ticked n (cn_faults c)\<rparr>)"
proof (induction n)
  case 0
  then show ?case using assms(1) by simp
next
  case (Suc n)
  let ?c = "c\<lparr>cn_faults := ticked n (cn_faults c)\<rparr>"
  have "kernel_step b k Tick ?c (?c\<lparr>cn_faults := handle_timer_pulse (cn_faults ?c)\<rparr>)"
    by (rule kernel_step.pulse) (simp add: assms(2))
  then have "kernel_run b k ((es @ replicate n Tick) @ [Tick]) (c\<lparr>cn_faults := ticked (Suc n) (cn_faults c)\<rparr>)"
    using kernel_run.step [OF Suc.IH] by simp
  then show ?case by (simp add: replicate_append_same)
qed

lemma keys_ticks_replicate [simp]: "keys (es @ replicate n Tick) = keys es" "ticks (es @ replicate n Tick) = ticks es + n"
  by (simp_all add: keys_def ticks_def List.map_filter_def)

text \<open>The end of a turn: the coarse run takes the whole turn at once and then the ticks that waited.\<close>

lemma turn_done:
  assumes "kernel_run b k es c0" "kernel_step b k (Key sc) c0 c1" "cn_place c1 \<noteq> Undefined"
    and "keys evs = keys es @ [sc]" "ticks evs = ticks es + n"
  shows "covered b k evs (c1\<lparr>cn_faults := ticked n (cn_faults c1)\<rparr>, At_top)"
proof -
  have "kernel_run b k ((es @ [Key sc]) @ replicate n Tick) (c1\<lparr>cn_faults := ticked n (cn_faults c1)\<rparr>)"
    using late_ticks [OF kernel_run.step [OF assms(1,2)] assms(3)] .
  moreover have "keys ((es @ [Key sc]) @ replicate n Tick) = keys evs" "ticks ((es @ [Key sc]) @ replicate n Tick) = ticks evs"
    unfolding keys_ticks_replicate using assms(4,5) by simp_all
  ultimately show ?thesis by (intro coveredI [where pend = "[]" and n = 0]) (assumption, simp_all)
qed

lemma tracks_defined:
  assumes "tracks b k c0 pend n c pt" "cn_place c0 \<noteq> Undefined"
  shows "cn_place c \<noteq> Undefined"
proof (cases pt)
  case (Drawing cs a)
  then show ?thesis using assms by (cases a) (auto simp: shell_entered_def)
qed (use assms in auto)

text \<open>Ticks that a turn at the top of the shell has not read yet are taken by the coarse run at once: the
  pulse is still another one than the last.\<close>

lemma pulse_still_new:
  assumes "clock_ok n p0 c" "cn_place c = Workspace panel lp" "g_temporal_pulse (cn_faults c) \<noteq> lp" "n < 2147483632"
  shows "g_temporal_pulse (cn_faults c) + 1 \<noteq> lp"
proof -
  obtain j where j: "j \<le> n" "lp = p0 + word_of_nat j" "g_temporal_pulse (cn_faults c) = p0 + word_of_nat n"
    using assms(1,2) by (auto simp: clock_ok_def)
  have "word_of_nat (n + 1) \<noteq> (word_of_nat j :: u64)"
    using j(1) assms(4) by (simp add: word_of_nat_eq_iff take_bit_nat_eq_self del: of_nat_Suc)
  then show ?thesis using j(2,3) by (simp add: algebra_simps)
qed

lemma interrupt_covered:
  assumes "covered b k evs (c, pt)" "gfx_ok (g_vga k)" "ticks evs < 2147483632"
  shows "covered b k (evs @ [Tick]) (c\<lparr>cn_faults := handle_timer_pulse (cn_faults c)\<rparr>, pt)"
proof -
  obtain es c0 pend n where r: "kernel_run b k es c0" "keys evs = keys es @ pend" "ticks evs = ticks es + n"
    and t: "tracks b k c0 pend n c pt" using assms(1) by (rule coveredE)
  have sim: "clock_ok (ticks es) (g_temporal_pulse (g_faults k)) c0" "cn_place c0 \<noteq> Undefined"
    using run_sim [OF r(1) assms(2)] assms(3) r(3) abs_defined by simp_all
  let ?c0 = "c0\<lparr>cn_faults := handle_timer_pulse (cn_faults c0)\<rparr>"
  have run: "kernel_run b k (es @ [Tick]) ?c0" using kernel_run.step [OF r(1) kernel_step.pulse] sim(2) by blast
  note early = coveredI [OF run, where pend = pend and n = n] and late = coveredI [OF r(1), where pend = pend and n = "Suc n"]
  have new: "g_temporal_pulse (cn_faults ?c0) \<noteq> lp" if "cn_place c0 = Workspace panel lp" "g_temporal_pulse (cn_faults c0) \<noteq> lp" for panel lp
    using pulse_still_new [OF sim(1) that] assms(3) r(3) by (simp add: handle_timer_pulse_def)
  show ?thesis
  proof (cases pt)
    case At_top
    then show ?thesis using t r by (intro early) auto
  next
    case (Shell_latch panel)
    then show ?thesis using t r new by (intro early) auto
  next
    case (Shell_call panel)
    then show ?thesis using t r by (intro early) auto
  next
    case (Drawing cs a)
    then show ?thesis
    proof (cases a)
      case (Read_menu sel)
      then show ?thesis using t r Drawing by (intro early) auto
    next
      case Begin_shell
      then show ?thesis using t r Drawing by (intro late) auto
    next
      case Read_shell
      then show ?thesis using t r Drawing by (intro late) auto
    qed
  qed
qed

text \<open>A drawing step cannot fail, since the coarse turn would fail as well.\<close>

lemma run_calls_Cons: "run_calls (call # cs) g = (case run_call call g of None \<Rightarrow> None | Some g \<Rightarrow> run_calls cs g)"
  by (simp add: run_calls_def split: option.splits)

lemma same_faults: "f = cn_faults c \<Longrightarrow> c\<lparr>cn_faults := f\<rparr> = c"
  by simp

lemma coarse_key:
  assumes "kernel_run b k es c0" "gfx_ok (g_vga k)" "ticks es \<le> 2147483632" "kernel_step b k (Key sc) c0 c1"
  shows "cn_place c1 \<noteq> Undefined"
  using run_sim [OF kernel_run.step [OF assms(1,4)] assms(2)] assms(3) abs_defined by simp

lemma coarse_shell:
  assumes "kernel_run b k es c0" "gfx_ok (g_vga k)" "ticks es \<le> 2147483632"
    and "cn_place c0 = Workspace panel lp" "g_temporal_pulse (cn_faults c0) \<noteq> lp"
  obtains calls g where "shell_frame b (g_control k) panel (cn_shell c0) = Some calls" "run_calls calls (cn_vga c0) = Some g"
  using coarse_key [OF assms(1-3) kernel_step.frame [OF assms(4,5), of b k 0]]
  by (auto simp: shell_turn_def or_undefined_def Let_def split: option.splits)

lemma frame_finishes:
  assumes "kernel_run b k es c0" "gfx_ok (g_vga k)" "ticks es \<le> 2147483632" "tracks b k c0 pend n c (Drawing cs a)"
  shows "run_calls cs (cn_vga c) \<noteq> None"
proof -
  have ok: "gfx_ok (cn_vga c0)" using run_sim [OF assms(1-3)] by (simp add: console_ok_def)
  note drawn = calls_run [OF ok menu_frame_ok, of b "vmx_ready k"]
  show ?thesis
  proof (cases a)
    case (Read_menu sel)
    then show ?thesis using assms(4) drawn [of sel] by auto
  next
    case Begin_shell
    then obtain sel h where "run_calls (menu_frame b (vmx_ready k) sel) (cn_vga c0) = Some h"
      "run_calls cs (cn_vga c) = run_calls [Clear 0x00080808] h" using assms(4) by auto
    then show ?thesis using drawn [of sel] calls_run [of h "[Clear 0x00080808]"] by auto
  next
    case Read_shell
    then show ?thesis using assms(4) coarse_shell [OF assms(1-3)] by fastforce
  qed
qed

lemma silent_covered:
  assumes "covered b k evs m" "thread_step b k None m m'" "gfx_ok (g_vga k)" "ticks evs \<le> 2147483632"
  shows "covered b k evs m'"
proof -
  obtain c pt where m: "m = (c, pt)" by (cases m)
  obtain es c0 pend n where r: "kernel_run b k es c0" "keys evs = keys es @ pend" "ticks evs = ticks es + n"
    and t: "tracks b k c0 pend n c pt" using assms(1) unfolding m by (rule coveredE)
  have le: "ticks es \<le> 2147483632" using r(3) assms(4) by simp
  note go_on = coveredI [OF r]
  show ?thesis
    using assms(2) unfolding m
  proof cases
    case (menu_top sel)
    then show ?thesis using t by (auto intro!: go_on)
  next
    case (draw call cs a)
    obtain g where g: "run_call call (cn_vga c) = Some g" "run_calls (call # cs) (cn_vga c) = run_calls cs g"
      using frame_finishes [OF r(1) assms(3) le, of pend n c "call # cs" a] t draw(1)
      by (auto simp: run_calls_Cons split: option.splits)
    then have "tracks b k c0 pend n (c\<lparr>cn_vga := g\<rparr>) (Drawing cs a)" using t draw(1) by (cases a) auto
    then show ?thesis using go_on g(1) by (simp add: draw(2) draw_one_def)
  next
    case (shell_call panel)
    then have "tracks b k c0 pend n (fst (shell_entered panel c)) (Drawing [Clear 0x00080808] Begin_shell)"
      using t by (auto simp: shell_entered_def)
    from go_on [OF this] show ?thesis by (simp add: shell_call(2) shell_entered_def)
  next
    case shell_begin
    then obtain sel h where s: "pend = [0x1C]" "cn_place c0 = Menu sel" "cn_faults c = ticked n (cn_faults c0)"
      "run_calls (menu_frame b (vmx_ready k) sel) (cn_vga c0) = Some h" "run_calls [Clear 0x00080808] h = Some (cn_vga c)"
      "cn_shell c = cn_shell (fst (shell_entered (sel \<noteq> 0) c0))" "cn_place c = cn_place (fst (shell_entered (sel \<noteq> 0) c0))"
      using t by (auto simp: run_calls_def)
    then have "or_undefined c0 (menu_turn b (vmx_ready k) sel 0x1C c0) = c\<lparr>cn_faults := cn_faults c0\<rparr>"
      by (auto simp: menu_turn_def call_shell_def or_undefined_def shell_entered_def KEY_UP_def KEY_DOWN_def Let_def)
    then have "kernel_step b k (Key 0x1C) c0 (c\<lparr>cn_faults := cn_faults c0\<rparr>)"
      using kernel_step.menu [OF s(2)] by metis
    from turn_done [OF r(1) this coarse_key [OF r(1) assms(3) le this], of evs n] show ?thesis
      using r(2,3) s(1) by (simp add: shell_begin s(3) same_faults)
  next
    case (shell_top panel lp)
    then show ?thesis using t by (auto intro!: go_on)
  next
    case (latch panel)
    then obtain lp where l: "cn_place c0 = Workspace panel lp" "g_temporal_pulse (cn_faults c0) \<noteq> lp" "c = c0" using t by auto
    obtain calls where "shell_frame b (g_control k) panel (cn_shell c0) = Some calls"
      using coarse_shell [OF r(1) assms(3) le l(1,2)] .
    then show ?thesis using t l by (auto simp: latch pulse_latched_def intro!: go_on)
  qed
qed

text \<open>A scancode: the menu goes on or calls the shell, the shell ends its turn.\<close>

lemma key_covered:
  assumes "covered b k evs m" "thread_step b k (Some (Key sc)) m m'" "gfx_ok (g_vga k)" "ticks evs \<le> 2147483632"
  shows "covered b k (evs @ [Key sc]) m'"
proof -
  obtain c pt where m: "m = (c, pt)" by (cases m)
  obtain es c0 pend n where r: "kernel_run b k es c0" "keys evs = keys es @ pend" "ticks evs = ticks es + n"
    and t: "tracks b k c0 pend n c pt" using assms(1) unfolding m by (rule coveredE)
  have le: "ticks es \<le> 2147483632" using r(3) assms(4) by simp
  have finish: "covered b k (evs @ [Key sc]) (c1\<lparr>cn_faults := ticked n (cn_faults c1)\<rparr>, At_top)"
    if "kernel_step b k (Key sc) c0 c1" "pend = []" for c1
    using turn_done [OF r(1) that(1) coarse_key [OF r(1) assms(3) le that(1)]] r(2,3) that(2) by simp
  show ?thesis
    using assms(2) unfolding m
  proof cases
    case (menu_key sel)
    then have s: "pend = []" "n = 0" "cn_faults c = cn_faults c0" "cn_shell c = cn_shell c0" "cn_place c = Menu sel"
      "cn_place c0 = Menu sel" "run_calls (menu_frame b (vmx_ready k) sel) (cn_vga c0) = Some (cn_vga c)"
      using t by (auto simp: run_calls_def)
    show ?thesis
    proof (cases "sc = 0x1C")
      case True
      then show ?thesis
        using s r by (auto simp: menu_key menu_choice_def KEY_UP_def KEY_DOWN_def intro!: coveredI [OF r(1)])
    next
      case False
      then have "or_undefined c0 (menu_turn b (vmx_ready k) sel sc c0) = fst (menu_choice sel sc c)"
        using s by (auto simp: menu_turn_def or_undefined_def menu_choice_def Let_def)
      then have "kernel_step b k (Key sc) c0 (fst (menu_choice sel sc c))"
        using kernel_step.menu [OF s(6), of b k sc] by simp
      moreover have "menu_choice sel sc c = (fst (menu_choice sel sc c), At_top)"
        using False by (simp add: menu_choice_def Let_def)
      ultimately show ?thesis
        using finish s(1,2) by (fastforce simp: menu_key)
    qed
  next
    case shell_key
    then obtain panel lp calls where s: "pend = []" "cn_faults c = ticked n (cn_faults c0)" "cn_shell c = cn_shell c0"
      "cn_place c0 = Workspace panel lp" "g_temporal_pulse (cn_faults c0) \<noteq> lp"
      "cn_place c = Workspace panel (g_temporal_pulse (cn_faults c0))"
      "shell_frame b (g_control k) panel (cn_shell c0) = Some calls" "run_calls calls (cn_vga c0) = Some (cn_vga c)"
      using t by (auto simp: run_calls_def)
    note step = kernel_step.frame [OF s(4,5), of b k sc]
    obtain sh where sh: "handle_key sc (cn_shell c0) = Some sh"
      using coarse_key [OF r(1) assms(3) le step] by (auto simp: shell_turn_def or_undefined_def Let_def split: option.splits)
    then have "or_undefined c0 (shell_turn b (g_control k) panel sc c0) = (fst (shell_choice sc c))\<lparr>cn_faults := cn_faults c0\<rparr>"
      using s by (auto simp: shell_turn_def or_undefined_def shell_choice_def Let_def)
    with step have "kernel_step b k (Key sc) c0 ((fst (shell_choice sc c))\<lparr>cn_faults := cn_faults c0\<rparr>)" by simp
    from finish [OF this s(1)] show ?thesis using s(2,3) sh by (simp add: shell_key shell_choice_def same_faults)
  qed
qed

lemma thread_covered:
  assumes "thread_run b k evs m" "gfx_ok (g_vga k)" "ticks evs \<le> 2147483632"
  shows "covered b k evs m"
  using assms(1,3)
proof induction
  case start
  then show ?case by (auto intro: coveredI kernel_run.start)
next
  case (silent es m m')
  then show ?case using silent_covered assms(2) by blast
next
  case (event es m e m')
  show ?case
  proof (cases e)
    case Tick
    then obtain c pt where "m = (c, pt)" "m' = (c\<lparr>cn_faults := handle_timer_pulse (cn_faults c)\<rparr>, pt)"
      using event.hyps(2) by (auto simp: interrupt_iff)
    then show ?thesis using interrupt_covered [OF _ assms(2)] event Tick by auto
  next
    case (Key sc)
    then show ?thesis using key_covered assms(2) event by auto
  qed
qed

section \<open>A coarse run is a fine run\<close>

lemma thread_draws:
  assumes "thread_run b k evs (c, Drawing cs a)" "run_calls cs (cn_vga c) = Some g"
  shows "thread_run b k evs (c\<lparr>cn_vga := g\<rparr>, Drawing [] a)"
  using assms
proof (induction cs arbitrary: c)
  case Nil
  then show ?case by (auto simp: run_calls_def)
next
  case (Cons call cs)
  then obtain h where "run_call call (cn_vga c) = Some h" "run_calls cs h = Some g"
    by (auto simp: run_calls_Cons split: option.splits)
  then show ?case
    using Cons.IH [of "c\<lparr>cn_vga := h\<rparr>"] thread_run.silent [OF Cons.prems(1) thread_step.draw] by (simp add: draw_one_def)
qed

lemma thread_menu_turn:
  assumes "thread_run b k evs (c, At_top)" "cn_place c = Menu sel" "menu_turn b (vmx_ready k) sel sc c = Some c'"
  shows "thread_run b k (evs @ [Key sc]) (c', At_top)"
proof -
  obtain g where g: "run_calls (menu_frame b (vmx_ready k) sel) (cn_vga c) = Some g"
    using assms(3) by (auto simp: menu_turn_def split: option.splits)
  have "thread_run b k evs (c\<lparr>cn_vga := g\<rparr>, Drawing [] (Read_menu sel))"
    using thread_draws [OF thread_run.silent [OF assms(1) thread_step.menu_top [OF assms(2)]] g] .
  then have key: "thread_run b k (evs @ [Key sc]) (menu_choice sel sc (c\<lparr>cn_vga := g\<rparr>))"
    by (rule thread_run.event [OF _ thread_step.menu_key])
  show ?thesis
  proof (cases "sc = 0x1C")
    case True
    then have "call_shell (sel \<noteq> 0) (c\<lparr>cn_vga := g\<rparr>) = Some c'"
      using assms(3) g by (simp add: menu_turn_def KEY_UP_def KEY_DOWN_def)
    then obtain h where h: "run_calls [Clear 0x00080808] g = Some h"
      "c' = (fst (shell_entered (sel \<noteq> 0) (c\<lparr>cn_vga := g\<rparr>)))\<lparr>cn_vga := h\<rparr>"
      by (auto simp: call_shell_def shell_entered_def Let_def split: option.splits)
    have "thread_run b k (evs @ [Key sc]) (c\<lparr>cn_vga := g\<rparr>, Shell_call (sel \<noteq> 0))"
      using key True by (simp add: menu_choice_def KEY_UP_def KEY_DOWN_def)
    from thread_draws [OF thread_run.silent [OF this thread_step.shell_call, unfolded shell_entered_def], of h]
    have "thread_run b k (evs @ [Key sc]) (c', Drawing [] Begin_shell)" using h by (simp add: shell_entered_def)
    then show ?thesis by (rule thread_run.silent [OF _ thread_step.shell_begin])
  next
    case False
    then have "menu_choice sel sc (c\<lparr>cn_vga := g\<rparr>) = (c', At_top)"
      using assms(3) g by (auto simp: menu_turn_def menu_choice_def Let_def)
    then show ?thesis using key by simp
  qed
qed

lemma thread_shell_turn:
  assumes "thread_run b k evs (c, At_top)" "cn_place c = Workspace panel lp" "g_temporal_pulse (cn_faults c) \<noteq> lp"
    and "shell_turn b (g_control k) panel sc c = Some c'"
  shows "thread_run b k (evs @ [Key sc]) (c', At_top)"
proof -
  let ?c = "c\<lparr>cn_place := Workspace panel (g_temporal_pulse (cn_faults c))\<rparr>"
  obtain calls g sh where f: "shell_frame b (g_control k) panel (cn_shell c) = Some calls"
    "run_calls calls (cn_vga c) = Some g" "handle_key sc (cn_shell c) = Some sh"
    "c' = c\<lparr>cn_vga := g, cn_shell := sh, cn_place := (if g_in_shell sh then cn_place ?c else Menu 0)\<rparr>"
    using assms(4) by (auto simp: shell_turn_def Let_def split: option.splits)
  have "thread_run b k evs (c, Shell_latch panel)" by (rule thread_run.silent [OF assms(1) thread_step.shell_top [OF assms(2,3)]])
  then have "thread_run b k evs (?c, Drawing calls Read_shell)"
    using thread_run.silent [OF _ thread_step.latch] f(1) by (fastforce simp: pulse_latched_def)
  from thread_draws [OF this] have "thread_run b k evs (?c\<lparr>cn_vga := g\<rparr>, Drawing [] Read_shell)" using f(2) by simp
  from thread_run.event [OF this thread_step.shell_key [of _ _ sc]] show ?thesis
    using f(3,4) by (cases "g_in_shell sh") (simp_all add: shell_choice_def)
qed

lemma coarse_is_fine:
  assumes "kernel_run b k es c" "gfx_ok (g_vga k)" "ticks es \<le> 2147483632"
  shows "thread_run b k es (c, At_top)"
  using assms(1,3)
proof induction
  case start
  show ?case by (rule thread_run.start)
next
  case (step es c e c')
  have fine: "thread_run b k es (c, At_top)" using step by (cases e) simp_all
  have alive: "cn_place c' \<noteq> Undefined"
    using run_sim [OF kernel_run.step [OF step.hyps(1,2)] assms(2) step.prems] abs_defined by blast
  show ?case
    using step.hyps(2)
  proof cases
    case pulse
    then show ?thesis using thread_run.event [OF fine thread_step.interrupt] by simp
  next
    case (menu sel sc)
    then have "menu_turn b (vmx_ready k) sel sc c = Some c'" using alive by (auto simp: or_undefined_def split: option.splits)
    then show ?thesis using thread_menu_turn [OF fine menu(3)] menu(1) by simp
  next
    case (frame panel lp sc)
    then have "shell_turn b (g_control k) panel sc c = Some c'" using alive by (auto simp: or_undefined_def split: option.splits)
    then show ?thesis using thread_shell_turn [OF fine frame(3,4)] frame(1) by simp
  qed
qed

section \<open>Properties\<close>

text \<open>C14: an interrupt inside a turn cannot be told from one between turns. With the same keys and number of
  ticks, below the bound of \<open>kernel_refines_desk\<close>, the consoles the main thread can be at the top of a loop with
  when it is interrupted anywhere are exactly those of the coarse runs, screen and pulse included.\<close>
theorem preemption_unobservable:
  assumes "gfx_ok (g_vga k)" "n \<le> 2147483632"
  shows "(\<exists>evs. thread_run b k evs (c, At_top) \<and> keys evs = ks \<and> ticks evs = n) \<longleftrightarrow>
    (\<exists>es. kernel_run b k es c \<and> keys es = ks \<and> ticks es = n)"
proof
  assume "\<exists>evs. thread_run b k evs (c, At_top) \<and> keys evs = ks \<and> ticks evs = n"
  then obtain evs where evs: "thread_run b k evs (c, At_top)" "keys evs = ks" "ticks evs = n" by blast
  then have "covered b k evs (c, At_top)" using thread_covered assms by simp
  then show "\<exists>es. kernel_run b k es c \<and> keys es = ks \<and> ticks es = n" using evs(2,3) by (auto elim!: coveredE)
next
  assume "\<exists>es. kernel_run b k es c \<and> keys es = ks \<and> ticks es = n"
  then show "\<exists>evs. thread_run b k evs (c, At_top) \<and> keys evs = ks \<and> ticks evs = n" using coarse_is_fine assms by blast
qed

lemma preemption_unobservable_witness:
  "\<exists>k c evs. kmain_boot example_machine 0 0 = Some k \<and> thread_run DEFAULT_BUILD k evs (c, At_top) \<and>
    keys evs = [KEY_DOWN, 0x1C, 0, 0, 0] \<and> ticks evs = 3"
proof -
  obtain k where k: "kmain_boot example_machine 0 0 = Some k" "gfx_ok (g_vga k)" using example_boots by blast
  obtain c where "kernel_run DEFAULT_BUILD k (panel_session 3) c" using panel_session_run [OF k(2), of 3] by auto
  then have "\<exists>es. kernel_run DEFAULT_BUILD k es c \<and> keys es = [KEY_DOWN, 0x1C, 0, 0, 0] \<and> ticks es = 3"
    by (intro exI [of _ "panel_session 3"]) (simp add: numeral_3_eq_3)
  then show ?thesis using preemption_unobservable [OF k(2), of 3 DEFAULT_BUILD c "[KEY_DOWN, 0x1C, 0, 0, 0]"] k(1) by auto
qed

text \<open>Nor is anything undefined inside a turn: below the bound no drawing call fails and no store leaves a
  buffer, wherever the interrupts come.\<close>
theorem turns_stay_defined:
  assumes "thread_run b k evs (c, pt)" "gfx_ok (g_vga k)" "ticks evs \<le> 2147483632"
  shows "cn_place c \<noteq> Undefined"
proof -
  obtain es c0 pend n where r: "kernel_run b k es c0" "ticks evs = ticks es + n" "tracks b k c0 pend n c pt"
    using thread_covered [OF assms] by (rule coveredE)
  then have "cn_place c0 \<noteq> Undefined" using run_sim [OF r(1) assms(2)] assms(3) abs_defined by auto
  with r(3) show ?thesis by (rule tracks_defined)
qed

end
