(* ===== verification/PredictiveCores.thy ===== *)
theory PredictiveCores
  imports Predictive
begin

text \<open>
  \<open>PredictiveEngine\<close> (\<open>src/core/predictive_topology.hpp\<close>) on two cores: one calls \<open>speculative_fetch\<close>, the other
  \<open>verify_consensus\<close>, and the ring is all they share. Each core has a store buffer; what is in it the core
  itself reads back, the other core sees it when it is drained. Stores drain in any order that keeps the stores to
  one place in order and does not pass a \<open>store_sync\<close> (\<open>HardwareBarrier\<close> of \<open>src/mm/memory.hpp\<close>), as the weaker of
  the two processors the code is written for allows; the runs of x86-64, whose buffers drain in order, are
  among them. Loads are performed in program order, which \<open>load_sync\<close> sees to.
\<close>

unbundle bit_operations_syntax

section \<open>Store buffers\<close>

datatype store = To_vaddr nat u64 | To_hi nat u64 | To_lo nat u64 | To_head u32 | To_tail u32

datatype pending_item = Put store | Sync

fun commit :: "store \<Rightarrow> predictive \<Rightarrow> predictive" where
  "commit (To_vaddr i v) e = e\<lparr>spec_ring := (spec_ring e)(i := (spec_ring e i)\<lparr>sr_vaddr := v\<rparr>)\<rparr>"
| "commit (To_hi i v) e = e\<lparr>spec_ring := (spec_ring e)(i := (spec_ring e i)\<lparr>sr_predicted := val128 v (v_lo (sr_predicted (spec_ring e i)))\<rparr>)\<rparr>"
| "commit (To_lo i v) e = e\<lparr>spec_ring := (spec_ring e)(i := (spec_ring e i)\<lparr>sr_predicted := val128 (v_hi (sr_predicted (spec_ring e i))) v\<rparr>)\<rparr>"
| "commit (To_head v) e = e\<lparr>sp_head := v\<rparr>"
| "commit (To_tail v) e = e\<lparr>sp_tail := v\<rparr>"

fun same_place :: "store \<Rightarrow> store \<Rightarrow> bool" where
  "same_place (To_vaddr i _) (To_vaddr j _) \<longleftrightarrow> i = j"
| "same_place (To_hi i _) (To_hi j _) \<longleftrightarrow> i = j"
| "same_place (To_lo i _) (To_lo j _) \<longleftrightarrow> i = j"
| "same_place (To_head _) (To_head _) \<longleftrightarrow> True"
| "same_place (To_tail _) (To_tail _) \<longleftrightarrow> True"
| "same_place _ _ \<longleftrightarrow> False"

text \<open>What a core with this buffer sees.\<close>

fun view :: "pending_item list \<Rightarrow> predictive \<Rightarrow> predictive" where
  "view [] e = e"
| "view (Put s # buf) e = view buf (commit s e)"
| "view (Sync # buf) e = view buf e"

text \<open>A store of the buffer that may reach memory now.\<close>

definition drains :: "pending_item list \<Rightarrow> store \<Rightarrow> pending_item list \<Rightarrow> bool" where
  "drains buf s buf' \<longleftrightarrow> (\<exists>xs ys. buf = xs @ Put s # ys \<and> buf' = xs @ ys \<and>
     (\<forall>x \<in> set xs. case x of Sync \<Rightarrow> False | Put t \<Rightarrow> \<not> same_place t s))"

definition store_sync :: "pending_item list \<Rightarrow> pending_item list" where
  "store_sync buf = buf @ [Sync]"

definition full_sync :: "pending_item list \<Rightarrow> bool" where
  "full_sync buf \<longleftrightarrow> buf = []"

section \<open>The two cores\<close>

text \<open>\<open>verify_consensus\<close>: outside, at the test of the loop, before each of the three loads of the record, at
  \<open>full_sync\<close>, and at the comparison.\<close>

datatype verifier = V_idle | V_loop | V_vaddr u32 | V_hi u32 u64 | V_lo u32 u64 u64 | V_sync u32 spec_record | V_check u32 spec_record

text \<open>\<open>fetch_pc\<close> holds what a running \<open>speculative_fetch\<close> still has to issue, \<open>ipis\<close> the rollback interrupts.\<close>

record cores =
  cm_mem :: predictive
  fetch_pc :: "pending_item list option"
  fetch_buf :: "pending_item list"
  verify_pc :: verifier
  verify_buf :: "pending_item list"
  ipis :: "(u64 \<times> u32) list"

definition entry_stores :: "spec_record \<Rightarrow> nat \<Rightarrow> pending_item list" where
  "entry_stores r i = [Put (To_vaddr i (sr_vaddr r)), Put (To_hi i (v_hi (sr_predicted r))), Put (To_lo i (v_lo (sr_predicted r)))]"

definition fetch_stores :: "spec_record \<Rightarrow> u32 \<Rightarrow> pending_item list" where
  "fetch_stores r current_head = entry_stores r (unat current_head) @ [Sync, Put (To_head ((current_head + 1) mod 256))]"

definition issue :: "pending_item \<Rightarrow> pending_item list \<Rightarrow> pending_item list" where
  "issue x buf = (case x of Sync \<Rightarrow> store_sync buf | Put s \<Rightarrow> buf @ [Put s])"

text \<open>The record a call makes; the upper word of its guess is not initialised.\<close>

definition prediction :: "u16 \<Rightarrow> u64 \<Rightarrow> u64 \<Rightarrow> spec_record" where
  "prediction spec_route uninit vaddr = \<lparr>sr_vaddr = vaddr, sr_predicted = spec_guess spec_route uninit vaddr\<rparr>"

definition verify_outcome :: "(u64 \<Rightarrow> value128) \<Rightarrow> u32 \<Rightarrow> spec_record \<Rightarrow> cores \<Rightarrow> cores" where
  "verify_outcome fetch current_tail r s =
    (let actual = fetch (sr_vaddr r)
     in if v_lo actual \<noteq> v_lo (sr_predicted r) \<or> route actual \<noteq> route (sr_predicted r)
        then s\<lparr>ipis := ipis s @ trigger_ipi_rollback 0, verify_buf := issue (Put (To_head current_tail)) (verify_buf s), verify_pc := V_idle\<rparr>
        else s\<lparr>verify_buf := issue (Put (To_tail ((current_tail + 1) mod 256))) (verify_buf s), verify_pc := V_loop\<rparr>)"

datatype act = Fetched spec_record | Checked spec_record | Internal

inductive core_step :: "u16 \<Rightarrow> (u64 \<Rightarrow> value128) \<Rightarrow> act \<Rightarrow> cores \<Rightarrow> cores \<Rightarrow> bool" for spec_route fetch where
  fetch_begins: "fetch_pc s = None \<Longrightarrow> r = prediction spec_route uninit vaddr \<Longrightarrow>
    core_step spec_route fetch (Fetched r) s (s\<lparr>fetch_pc := Some (fetch_stores r (sp_head (view (fetch_buf s) (cm_mem s))))\<rparr>)"
| fetch_issues: "fetch_pc s = Some (x # xs) \<Longrightarrow>
    core_step spec_route fetch Internal s (s\<lparr>fetch_pc := Some xs, fetch_buf := issue x (fetch_buf s)\<rparr>)"
| fetch_returns: "fetch_pc s = Some [] \<Longrightarrow> core_step spec_route fetch Internal s (s\<lparr>fetch_pc := None\<rparr>)"
| fetch_drains: "drains (fetch_buf s) st buf \<Longrightarrow>
    core_step spec_route fetch Internal s (s\<lparr>fetch_buf := buf, cm_mem := commit st (cm_mem s)\<rparr>)"
| fetch_synced: "fetch_buf s = Sync # buf \<Longrightarrow> core_step spec_route fetch Internal s (s\<lparr>fetch_buf := buf\<rparr>)"
| verify_begins: "verify_pc s = V_idle \<Longrightarrow> core_step spec_route fetch Internal s (s\<lparr>verify_pc := V_loop\<rparr>)"
| verify_tests: "verify_pc s = V_loop \<Longrightarrow> m = view (verify_buf s) (cm_mem s) \<Longrightarrow>
    core_step spec_route fetch Internal s (s\<lparr>verify_pc := (if sp_tail m = sp_head m then V_idle else V_vaddr (sp_tail m))\<rparr>)"
| verify_vaddr: "verify_pc s = V_vaddr t \<Longrightarrow> m = view (verify_buf s) (cm_mem s) \<Longrightarrow>
    core_step spec_route fetch Internal s (s\<lparr>verify_pc := V_hi t (sr_vaddr (spec_ring m (unat t)))\<rparr>)"
| verify_hi: "verify_pc s = V_hi t a \<Longrightarrow> m = view (verify_buf s) (cm_mem s) \<Longrightarrow>
    core_step spec_route fetch Internal s (s\<lparr>verify_pc := V_lo t a (v_hi (sr_predicted (spec_ring m (unat t))))\<rparr>)"
| verify_lo: "verify_pc s = V_lo t a hi \<Longrightarrow> m = view (verify_buf s) (cm_mem s) \<Longrightarrow>
    core_step spec_route fetch Internal s (s\<lparr>verify_pc := V_sync t
      \<lparr>sr_vaddr = a, sr_predicted = val128 hi (v_lo (sr_predicted (spec_ring m (unat t))))\<rparr>\<rparr>)"
| verify_synced: "verify_pc s = V_sync t r \<Longrightarrow> full_sync (verify_buf s) \<Longrightarrow>
    core_step spec_route fetch Internal s (s\<lparr>verify_pc := V_check t r\<rparr>)"
| verify_checks: "verify_pc s = V_check t r \<Longrightarrow> core_step spec_route fetch (Checked r) s (verify_outcome fetch t r s)"
| verify_drains: "drains (verify_buf s) st buf \<Longrightarrow>
    core_step spec_route fetch Internal s (s\<lparr>verify_buf := buf, cm_mem := commit st (cm_mem s)\<rparr>)"

inductive core_run :: "u16 \<Rightarrow> (u64 \<Rightarrow> value128) \<Rightarrow> (nat \<Rightarrow> spec_record) \<Rightarrow> act list \<Rightarrow> cores \<Rightarrow> bool" for spec_route fetch ring0 where
  start: "core_run spec_route fetch ring0 []
    \<lparr>cm_mem = PredictiveEngine ring0, fetch_pc = None, fetch_buf = [], verify_pc = V_idle, verify_buf = [], ipis = []\<rparr>"
| step: "core_run spec_route fetch ring0 es s \<Longrightarrow> core_step spec_route fetch e s s' \<Longrightarrow> core_run spec_route fetch ring0 (es @ [e]) s'"

fun fetched_of :: "act \<Rightarrow> spec_record option" where
  "fetched_of (Fetched r) = Some r" | "fetched_of _ = None"

fun checked_of :: "act \<Rightarrow> spec_record option" where
  "checked_of (Checked r) = Some r" | "checked_of _ = None"

definition fetched :: "act list \<Rightarrow> spec_record list" where
  "fetched es = List.map_filter fetched_of es"
definition checked :: "act list \<Rightarrow> spec_record list" where
  "checked es = List.map_filter checked_of es"

text \<open>Never more than 255 predictions unchecked.\<close>

definition never_full :: "act list \<Rightarrow> bool" where
  "never_full es \<longleftrightarrow> (\<forall>n. length (fetched (take n es)) \<le> length (checked (take n es)) + 255)"

lemma acts_simps [simp]:
  "fetched [] = []" "fetched (xs @ ys) = fetched xs @ fetched ys"
  "fetched (Fetched r # es) = r # fetched es" "fetched (Checked r # es) = fetched es" "fetched (Internal # es) = fetched es"
  "checked [] = []" "checked (xs @ ys) = checked xs @ checked ys"
  "checked (Checked r # es) = r # checked es" "checked (Fetched r # es) = checked es" "checked (Internal # es) = checked es"
  by (simp_all add: fetched_def checked_def List.map_filter_def)

lemma never_full_snoc:
  assumes "never_full (es @ [e])"
  shows "never_full es" "length (fetched (es @ [e])) \<le> length (checked (es @ [e])) + 255"
proof -
  have "length (fetched (take n es)) \<le> length (checked (take n es)) + 255" for n
    using assms [unfolded never_full_def, rule_format, of "min n (length es)"] by (cases "n \<le> length es") simp_all
  then show "never_full es" by (simp add: never_full_def)
  show "length (fetched (es @ [e])) \<le> length (checked (es @ [e])) + 255"
    using assms [unfolded never_full_def, rule_format, of "Suc (length es)"] by simp
qed

section \<open>Ring positions\<close>

definition ix :: "nat \<Rightarrow> u32" where
  "ix j = word_of_nat (j mod 256)"

lemma unat_ix [simp]: "unat (ix j) = j mod 256"
proof -
  have "j mod 256 < 2 ^ LENGTH(32)" by (rule order_less_trans [of _ 256]) simp_all
  then show ?thesis by (simp add: ix_def unsigned_of_nat take_bit_nat_eq_self)
qed

lemma ix_Suc [simp]: "(ix j + 1) mod 256 = ix (Suc j)"
  by (simp add: word_unat_eq_iff unat_next mod_simps)

lemma mod_distinct: "i < j \<Longrightarrow> j < i + 256 \<Longrightarrow> i mod 256 \<noteq> j mod (256 :: nat)"
proof
  assume "i < j" "j < i + 256" "i mod 256 = j mod 256"
  then have "256 dvd j - i" by (metis less_imp_le mod_eq_dvd_iff_nat)
  then show False using \<open>i < j\<close> \<open>j < i + 256\<close> by (auto dest: dvd_imp_le)
qed

lemma ix_eq_iff: "i \<le> j \<Longrightarrow> j < i + 256 \<Longrightarrow> ix i = ix j \<longleftrightarrow> i = j"
  using mod_distinct [of i j] by (cases "i = j") (auto simp: word_unat_eq_iff)

section \<open>What the fetching core has still to publish\<close>

text \<open>After \<open>j\<close> publications have passed their \<open>store_sync\<close>: the head of publication \<open>j\<close> may still be pending, of the
  stores of entry \<open>j\<close> some have drained, and everything after the next \<open>Sync\<close> is complete.\<close>

definition data :: "spec_record list \<Rightarrow> nat \<Rightarrow> pending_item list" where
  "data rs j = (if j < length rs then entry_stores (rs ! j) (j mod 256) else [])"

definition later :: "spec_record list \<Rightarrow> nat \<Rightarrow> pending_item list" where
  "later rs j = concat (map (\<lambda>i. Sync # Put (To_head (ix i)) # data rs i) [Suc j..<Suc (length rs)])"

definition backlog :: "spec_record list \<Rightarrow> nat \<Rightarrow> bool \<Rightarrow> (pending_item \<Rightarrow> bool) \<Rightarrow> pending_item list" where
  "backlog rs j head_pending keep =
    (if head_pending then [Put (To_head (ix j))] else []) @ filter keep (data rs j) @ later rs j"

lemma later_unfold:
  "j < length rs \<Longrightarrow> later rs j = Sync # Put (To_head (ix (Suc j))) # data rs (Suc j) @ later rs (Suc j)"
  "length rs \<le> j \<Longrightarrow> later rs j = []"
  by (simp_all add: later_def upt_conv_Cons del: upt_Suc)

lemma data_snoc:
  "data (rs @ [r]) i = (if i = length rs then entry_stores r (i mod 256) else data rs i)"
  by (auto simp: data_def nth_append)

lemma later_snoc:
  "j \<le> length rs \<Longrightarrow> later (rs @ [r]) j =
    (if j < length rs then later rs j @ entry_stores r (length rs mod 256) else []) @ [Sync, Put (To_head (ix (Suc (length rs))))]"
proof (induction "length rs - j" arbitrary: j)
  case 0
  then have "j = length rs" by simp
  then show ?case by (simp add: later_unfold data_def)
next
  case (Suc n)
  then have j: "j < length rs" "n = length rs - Suc j" "Suc j \<le> length rs" by auto
  have more: "later (rs @ [r]) j = Sync # Put (To_head (ix (Suc j))) # data (rs @ [r]) (Suc j) @ later (rs @ [r]) (Suc j)"
    using j(1) by (intro later_unfold(1)) simp
  show ?case
  proof (cases "Suc j = length rs")
    case True
    then show ?thesis
      using Suc.hyps(1) [OF j(2,3)] j(1) by (simp add: more later_unfold(1) [of j rs] later_unfold(2) [of rs "length rs"] data_snoc data_def)
  next
    case False
    then show ?thesis
      using Suc.hyps(1) [OF j(2,3)] j(1,3) by (simp add: more later_unfold(1) [of j rs] data_snoc)
  qed
qed

lemma fetch_stores_ix:
  "fetch_stores r (ix j) = entry_stores r (j mod 256) @ [Sync, Put (To_head (ix (Suc j)))]"
  by (simp add: fetch_stores_def)

text \<open>A new call adds its stores at the end.\<close>

lemma backlog_snoc:
  assumes "j \<le> length rs"
  shows "backlog rs j ph keep @ fetch_stores r (ix (length rs)) =
    backlog (rs @ [r]) j ph (if j < length rs then keep else (\<lambda>_. True))"
proof (cases "j < length rs")
  case True
  then show ?thesis by (simp add: backlog_def later_snoc data_snoc fetch_stores_ix)
next
  case False
  then have "j = length rs" using assms by simp
  then show ?thesis by (simp add: backlog_def later_snoc data_snoc fetch_stores_ix later_unfold data_def)
qed

lemma view_append [simp]: "view (xs @ ys) e = view ys (view xs e)"
  by (induction xs e rule: view.induct) simp_all

lemma view_entry_head [simp]:
  "sp_head (view (filter keep (data rs j)) e) = sp_head e" "sp_head (view (data rs j) e) = sp_head e"
  by (simp_all add: data_def entry_stores_def)

lemma view_later_head: "j \<le> length rs \<Longrightarrow> sp_head (view (later rs j) e) = (if j < length rs then ix (length rs) else sp_head e)"
proof (induction "length rs - j" arbitrary: j e)
  case 0
  then show ?case by (simp add: later_unfold)
next
  case (Suc n)
  then have j: "j < length rs" "n = length rs - Suc j" "Suc j \<le> length rs" by auto
  show ?case using Suc.hyps(1) [OF j(2,3)] j by (cases "Suc j = length rs") (simp_all add: later_unfold)
qed

text \<open>The fetching core always reads the head it wrote last.\<close>

lemma view_backlog_head:
  assumes "j \<le> length rs" "sp_head e = ix (if ph then j - 1 else j)"
  shows "sp_head (view (backlog rs j ph keep) e) = ix (length rs)"
  using assms by (cases "j = length rs") (auto simp: backlog_def view_later_head)

lemma filter_remove:
  assumes "distinct l" "filter P l = xs @ a # ys"
  shows "xs @ ys = filter (\<lambda>x. P x \<and> x \<noteq> a) l"
proof -
  have "distinct (xs @ a # ys)" using assms distinct_filter by metis
  then have "filter (\<lambda>x. x \<noteq> a) xs = xs" "filter (\<lambda>x. x \<noteq> a) ys = ys" by (auto simp: filter_id_conv)
  then have "xs @ ys = filter (\<lambda>x. x \<noteq> a) (xs @ a # ys)" by simp
  also have "\<dots> = filter (\<lambda>x. P x \<and> x \<noteq> a) l" by (simp flip: assms(2) add: conj_commute)
  finally show ?thesis .
qed

lemma distinct_data [simp]: "distinct (data rs j)" and Sync_data [simp]: "Sync \<notin> set (data rs j)"
  by (simp_all add: data_def entry_stores_def)

lemma later_Nil_or_Sync: "later rs j = [] \<or> (\<exists>zs. later rs j = Sync # zs)"
  by (cases "j < length rs") (simp_all add: later_unfold)

lemma split_before_sync:
  assumes "as @ bs = xs @ Put st # zs" "Sync \<notin> set xs" "bs = [] \<or> (\<exists>ys. bs = Sync # ys)"
  obtains us where "as = xs @ Put st # us" "zs = us @ bs"
proof -
  obtain us where "as = xs @ us \<and> us @ bs = Put st # zs \<or> as @ us = xs \<and> bs = us @ Put st # zs"
    using assms(1) by (auto simp: append_eq_append_conv2)
  then show thesis using assms(2,3) that by (cases us) auto
qed

text \<open>What can drain: the pending head, or a store of the entry in work.\<close>

lemma backlog_drain:
  assumes "backlog rs j ph keep = xs @ Put st # zs" "Sync \<notin> set xs"
  shows "ph \<and> st = To_head (ix j) \<and> xs @ zs = backlog rs j False keep \<or>
    Put st \<in> set (data rs j) \<and> xs @ zs = backlog rs j ph (\<lambda>x. keep x \<and> x \<noteq> Put st)"
proof -
  let ?a = "(if ph then [Put (To_head (ix j))] else []) @ filter keep (data rs j)"
  have "?a @ later rs j = xs @ Put st # zs" using assms(1) by (simp add: backlog_def)
  then obtain us where a: "?a = xs @ Put st # us" "zs = us @ later rs j"
    using assms(2) later_Nil_or_Sync [of rs j] by (rule split_before_sync)
  show ?thesis
  proof (cases "ph \<and> xs = []")
    case True
    then show ?thesis using a by (auto simp: backlog_def)
  next
    case False
    then obtain vs where v: "filter keep (data rs j) = vs @ Put st # us" "xs = (if ph then [Put (To_head (ix j))] else []) @ vs"
      using a(1) by (cases ph) (auto simp: Cons_eq_append_conv)
    then have "Put st \<in> set (data rs j)" by (metis filter_is_subset in_set_conv_decomp subsetD)
    moreover have "vs @ us = filter (\<lambda>x. keep x \<and> x \<noteq> Put st) (data rs j)" by (rule filter_remove [OF distinct_data v(1)])
    ultimately show ?thesis using a(2) v(2) by (simp add: backlog_def)
  qed
qed

lemma backlog_sync:
  assumes "backlog rs j ph keep = Sync # zs"
  shows "\<not> ph \<and> j < length rs \<and> filter keep (data rs j) = [] \<and> zs = backlog rs (Suc j) True (\<lambda>_. True)"
proof -
  have ph: "\<not> ph" using assms by (auto simp: backlog_def)
  have empty: "filter keep (data rs j) = []"
  proof (rule ccontr)
    assume "filter keep (data rs j) \<noteq> []"
    then obtain x xs where "filter keep (data rs j) = x # xs" by (auto simp: neq_Nil_conv)
    moreover from this have "x \<in> set (data rs j)" using filter_is_subset [of keep "data rs j"] by auto
    ultimately show False using assms ph Sync_data [of rs j] by (auto simp: backlog_def)
  qed
  then have rest: "later rs j = Sync # zs" using assms ph by (simp only: backlog_def if_False append_Nil)
  then have j: "j < length rs" using later_unfold(2) [of rs j] by (cases "j < length rs") simp_all
  then have "zs = backlog rs (Suc j) True (\<lambda>_. True)" using rest by (simp add: later_unfold(1) [OF j] backlog_def)
  then show ?thesis using ph empty j by blast
qed

section \<open>The invariant\<close>

text \<open>\<open>C\<close> entries are checked and \<open>K\<close> published; of the entry after those that passed their \<open>Sync\<close> each store is
  pending or in memory.\<close>

definition fetch_at :: "spec_record list \<Rightarrow> nat \<Rightarrow> nat \<Rightarrow> cores \<Rightarrow> nat \<Rightarrow> bool \<Rightarrow> (pending_item \<Rightarrow> bool) \<Rightarrow> bool" where
  "fetch_at rs C K s j ph keep \<longleftrightarrow> j \<le> length rs \<and> (ph \<longrightarrow> 0 < j) \<and> K = (if ph then j - 1 else j) \<and> C \<le> K \<and>
     fetch_buf s @ (case fetch_pc s of None \<Rightarrow> [] | Some xs \<Rightarrow> xs) = backlog rs j ph keep \<and>
     sp_head (cm_mem s) = ix K \<and> (\<forall>i. C \<le> i \<and> i < j \<longrightarrow> spec_ring (cm_mem s) (i mod 256) = rs ! i) \<and>
     (\<forall>st. Put st \<in> set (data rs j) \<and> \<not> keep (Put st) \<longrightarrow> commit st (cm_mem s) = cm_mem s)"

definition fetch_ok :: "spec_record list \<Rightarrow> nat \<Rightarrow> nat \<Rightarrow> cores \<Rightarrow> bool" where
  "fetch_ok rs C K s \<longleftrightarrow> (\<exists>j ph keep. fetch_at rs C K s j ph keep)"

lemma commit_twice [simp]: "commit s (commit s e) = commit s e"
  by (cases s) simp_all

lemma commit_entry:
  assumes "Put st \<in> set (entry_stores r i)"
  shows "sp_head (commit st e) = sp_head e" "sp_tail (commit st e) = sp_tail e"
    "k \<noteq> i \<Longrightarrow> spec_ring (commit st e) k = spec_ring e k"
  using assms by (auto simp: entry_stores_def)

lemma commit_entry_both:
  assumes "Put st \<in> set (entry_stores r i)" "Put st' \<in> set (entry_stores r i)" "commit st' e = e"
  shows "commit st' (commit st e) = commit st e"
proof -
  have "commit st' (commit st e) = commit st (commit st' e)"
    using assms(1,2) by (auto simp: entry_stores_def fun_eq_iff intro!: predictive.equality spec_record.equality)
  then show ?thesis by (simp add: assms(3))
qed

lemma commit_entry_head:
  assumes "Put st \<in> set (data rs j)" "commit st e = e"
  shows "commit st (e\<lparr>sp_head := v\<rparr>) = e\<lparr>sp_head := v\<rparr>"
proof -
  have "commit st (e\<lparr>sp_head := v\<rparr>) = (commit st e)\<lparr>sp_head := v\<rparr>"
    using assms(1) by (auto simp: data_def entry_stores_def split: if_splits)
  then show ?thesis by (simp add: assms(2))
qed

lemma entry_in_memory:
  assumes "\<forall>st. Put st \<in> set (entry_stores r i) \<longrightarrow> commit st e = e"
  shows "spec_ring e i = r"
proof -
  have "commit (To_vaddr i (sr_vaddr r)) e = e" "commit (To_hi i (v_hi (sr_predicted r))) e = e"
    "commit (To_lo i (v_lo (sr_predicted r))) e = e" using assms by (simp_all add: entry_stores_def)
  from this [THEN arg_cong [where f = "\<lambda>e. spec_ring e i"]] show ?thesis
    by (cases "spec_ring e i"; cases r; cases "sr_predicted (spec_ring e i)") auto
qed

fun verify_at :: "spec_record list \<Rightarrow> nat \<Rightarrow> nat \<Rightarrow> verifier \<Rightarrow> bool" where
  "verify_at rs C K V_idle \<longleftrightarrow> True"
| "verify_at rs C K V_loop \<longleftrightarrow> True"
| "verify_at rs C K (V_vaddr t) \<longleftrightarrow> t = ix C \<and> C < K"
| "verify_at rs C K (V_hi t a) \<longleftrightarrow> t = ix C \<and> C < K \<and> a = sr_vaddr (rs ! C)"
| "verify_at rs C K (V_lo t a hi) \<longleftrightarrow> t = ix C \<and> C < K \<and> a = sr_vaddr (rs ! C) \<and> hi = v_hi (sr_predicted (rs ! C))"
| "verify_at rs C K (V_sync t r) \<longleftrightarrow> t = ix C \<and> C < K \<and> r = rs ! C"
| "verify_at rs C K (V_check t r) \<longleftrightarrow> t = ix C \<and> C < K \<and> r = rs ! C"

definition only_tail :: "pending_item list \<Rightarrow> bool" where
  "only_tail buf \<longleftrightarrow> (\<forall>x \<in> set buf. \<exists>v. x = Put (To_tail v))"

definition verify_ok :: "spec_record list \<Rightarrow> nat \<Rightarrow> nat \<Rightarrow> cores \<Rightarrow> bool" where
  "verify_ok rs C K s \<longleftrightarrow> only_tail (verify_buf s) \<and> sp_tail (view (verify_buf s) (cm_mem s)) = ix C \<and>
    verify_at rs C K (verify_pc s)"

definition cores_ok :: "spec_record list \<Rightarrow> nat \<Rightarrow> cores \<Rightarrow> bool" where
  "cores_ok rs C s \<longleftrightarrow> (\<exists>K. fetch_ok rs C K s \<and> verify_ok rs C K s)"

lemma verify_at_mono: "verify_at rs C K v \<Longrightarrow> K \<le> K' \<Longrightarrow> verify_at rs C K' v"
  by (cases v) auto

lemma verify_at_snoc: "verify_at rs C K v \<Longrightarrow> K \<le> length rs \<Longrightarrow> verify_at (rs @ [r]) C K v"
  by (cases v) (auto simp: nth_append)

text \<open>A core that has only stores to the tail pending sees memory otherwise.\<close>

lemma view_only_tail:
  assumes "only_tail buf"
  shows "sp_head (view buf e) = sp_head e" "spec_ring (view buf e) = spec_ring e"
    "sp_tail e = sp_tail e' \<Longrightarrow> sp_tail (view buf e) = sp_tail (view buf e')"
  using assms by (induction buf arbitrary: e e') (fastforce simp: only_tail_def)+

lemma drains_only_tail:
  assumes "drains buf st buf'" "only_tail buf"
  shows "\<exists>v. st = To_tail v \<and> buf = Put st # buf' \<and> only_tail buf'"
proof -
  obtain xs ys where d: "buf = xs @ Put st # ys" "buf' = xs @ ys"
    "\<forall>x \<in> set xs. case x of Sync \<Rightarrow> False | Put t \<Rightarrow> \<not> same_place t st"
    using assms(1) by (auto simp: drains_def)
  then obtain v where v: "st = To_tail v" using assms(2) by (auto simp: only_tail_def)
  have "xs = []"
  proof (rule ccontr)
    assume "xs \<noteq> []"
    then obtain x zs where "xs = x # zs" by (auto simp: neq_Nil_conv)
    then show False using d assms(2) v by (auto simp: only_tail_def)
  qed
  then show ?thesis using d v assms(2) by (auto simp: only_tail_def)
qed

lemma fetch_atD:
  assumes "fetch_at rs C K s j ph keep"
  shows "j \<le> length rs" "ph \<longrightarrow> 0 < j" "K = (if ph then j - 1 else j)" "C \<le> K"
    "fetch_buf s @ (case fetch_pc s of None \<Rightarrow> [] | Some xs \<Rightarrow> xs) = backlog rs j ph keep" "sp_head (cm_mem s) = ix K"
    "\<And>i. C \<le> i \<Longrightarrow> i < j \<Longrightarrow> spec_ring (cm_mem s) (i mod 256) = rs ! i"
    "\<And>st. Put st \<in> set (data rs j) \<Longrightarrow> \<not> keep (Put st) \<Longrightarrow> commit st (cm_mem s) = cm_mem s"
  using assms unfolding fetch_at_def by blast+

lemma fetch_okI:
  assumes "j \<le> length rs" "ph \<longrightarrow> 0 < j" "K = (if ph then j - 1 else j)" "C \<le> K"
    "fetch_buf s @ (case fetch_pc s of None \<Rightarrow> [] | Some xs \<Rightarrow> xs) = backlog rs j ph keep" "sp_head (cm_mem s) = ix K"
    "\<And>i. C \<le> i \<Longrightarrow> i < j \<Longrightarrow> spec_ring (cm_mem s) (i mod 256) = rs ! i"
    "\<And>st. Put st \<in> set (data rs j) \<Longrightarrow> \<not> keep (Put st) \<Longrightarrow> commit st (cm_mem s) = cm_mem s"
  shows "fetch_ok rs C K s"
  using assms unfolding fetch_ok_def fetch_at_def by blast

text \<open>A call begins: it finds the head where the last call left it.\<close>

lemma fetch_begins_ok:
  assumes "fetch_ok rs C K s" "fetch_pc s = None"
  shows "fetch_ok (rs @ [r]) C K (s\<lparr>fetch_pc := Some (fetch_stores r (sp_head (view (fetch_buf s) (cm_mem s))))\<rparr>)"
proof -
  obtain j ph keep where f: "fetch_at rs C K s j ph keep" using assms(1) by (auto simp: fetch_ok_def)
  note i = fetch_atD [OF f]
  have buf: "fetch_buf s = backlog rs j ph keep" using i(5) assms(2) by simp
  have head: "sp_head (view (fetch_buf s) (cm_mem s)) = ix (length rs)"
    unfolding buf using i(1,3,6) by (intro view_backlog_head) simp_all
  show ?thesis
  proof (rule fetch_okI [of j _ ph])
    show "fetch_buf (s\<lparr>fetch_pc := Some (fetch_stores r (sp_head (view (fetch_buf s) (cm_mem s))))\<rparr>) @
        (case fetch_pc (s\<lparr>fetch_pc := Some (fetch_stores r (sp_head (view (fetch_buf s) (cm_mem s))))\<rparr>) of None \<Rightarrow> [] | Some xs \<Rightarrow> xs) =
      backlog (rs @ [r]) j ph (if j < length rs then keep else (\<lambda>_. True))"
      using backlog_snoc [OF i(1)] head buf by simp
  qed (use i in \<open>auto simp: nth_append data_snoc split: if_splits\<close>)
qed

text \<open>Moving stores from the call to the buffer changes nothing; memory may get one.\<close>

lemma fetch_issues_ok:
  assumes "fetch_ok rs C K s" "fetch_pc s = Some (x # xs)"
  shows "fetch_ok rs C K (s\<lparr>fetch_pc := Some xs, fetch_buf := issue x (fetch_buf s)\<rparr>)"
  using assms by (cases x) (simp_all add: fetch_ok_def fetch_at_def issue_def store_sync_def)

lemma fetch_returns_ok:
  assumes "fetch_ok rs C K s" "fetch_pc s = Some []"
  shows "fetch_ok rs C K (s\<lparr>fetch_pc := None\<rparr>)"
  using assms by (simp add: fetch_ok_def fetch_at_def)

lemma fetch_synced_ok:
  assumes "fetch_ok rs C K s" "fetch_buf s = Sync # buf"
  shows "fetch_ok rs C K (s\<lparr>fetch_buf := buf\<rparr>)"
proof -
  obtain j ph keep where f: "fetch_at rs C K s j ph keep" using assms(1) by (auto simp: fetch_ok_def)
  note i = fetch_atD [OF f]
  have "backlog rs j ph keep = Sync # buf @ (case fetch_pc s of None \<Rightarrow> [] | Some xs \<Rightarrow> xs)" using i(5) assms(2) by simp
  from backlog_sync [OF this] have b: "\<not> ph" "j < length rs" "filter keep (data rs j) = []"
    "buf @ (case fetch_pc s of None \<Rightarrow> [] | Some xs \<Rightarrow> xs) = backlog rs (Suc j) True (\<lambda>_. True)" by blast+
  have "commit st (cm_mem s) = cm_mem s" if "Put st \<in> set (entry_stores (rs ! j) (j mod 256))" for st
    using i(8) [of st] that b(2,3) by (simp add: data_def filter_empty_conv)
  then have "spec_ring (cm_mem s) (j mod 256) = rs ! j" by (intro entry_in_memory) blast
  then have ring: "spec_ring (cm_mem s) (i mod 256) = rs ! i" if "C \<le> i" "i < Suc j" for i
    using i(7) that by (cases "i = j") auto
  show ?thesis
    using i(3,4,6) b ring by (intro fetch_okI [where j = "Suc j" and ph = True and keep = "\<lambda>_. True"]) simp_all
qed

lemma fetch_drains_ok:
  assumes "fetch_ok rs C K s" "drains (fetch_buf s) st buf" "length rs \<le> C + 255"
  obtains K' where "K \<le> K'" "fetch_ok rs C K' (s\<lparr>fetch_buf := buf, cm_mem := commit st (cm_mem s)\<rparr>)"
    "sp_tail (commit st (cm_mem s)) = sp_tail (cm_mem s)"
proof -
  obtain j ph keep where f: "fetch_at rs C K s j ph keep" using assms(1) by (auto simp: fetch_ok_def)
  note i = fetch_atD [OF f]
  obtain xs ys where d: "fetch_buf s = xs @ Put st # ys" "buf = xs @ ys" "Sync \<notin> set xs"
    using assms(2) by (fastforce simp: drains_def)
  let ?pc = "case fetch_pc s of None \<Rightarrow> [] | Some xs \<Rightarrow> xs"
  have b: "backlog rs j ph keep = xs @ Put st # ys @ ?pc" using i(5) d(1) by simp
  consider (head) "ph" "st = To_head (ix j)" "buf @ ?pc = backlog rs j False keep"
    | (entry) "Put st \<in> set (data rs j)" "buf @ ?pc = backlog rs j ph (\<lambda>x. keep x \<and> x \<noteq> Put st)"
    using backlog_drain [OF b d(3)] d(2) by auto
  then show thesis
  proof cases
    case head
    have "fetch_ok rs C j (s\<lparr>fetch_buf := buf, cm_mem := commit st (cm_mem s)\<rparr>)"
      by (rule fetch_okI [where j = j and ph = False and keep = keep]) (use i head commit_entry_head in auto)
    then show thesis using that [of j] i(3) head by simp
  next
    case entry
    then have e: "Put st \<in> set (entry_stores (rs ! j) (j mod 256))" "j < length rs" by (simp_all add: data_def split: if_splits)
    have other: "i mod 256 \<noteq> j mod 256" if "C \<le> i" "i < j" for i
      using mod_distinct [of i j] that e(2) assms(3) by simp
    note mem = commit_entry [OF e(1)]
    have settled: "commit st' (commit st (cm_mem s)) = commit st (cm_mem s)"
      if "Put st' \<in> set (data rs j)" "\<not> (keep (Put st') \<and> Put st' \<noteq> Put st)" for st'
    proof (cases "st' = st")
      case False
      then show ?thesis using i(8) that e by (intro commit_entry_both [OF e(1)]) (auto simp: data_def)
    qed simp
    have "fetch_ok rs C K (s\<lparr>fetch_buf := buf, cm_mem := commit st (cm_mem s)\<rparr>)"
      by (rule fetch_okI [where j = j and ph = ph and keep = "\<lambda>x. keep x \<and> x \<noteq> Put st"])
        (use i entry(2) mem other settled in auto)
    then show thesis using that [of K] mem by simp
  qed
qed

text \<open>The verifying core: what it reads of entry \<open>C\<close> is the published record.\<close>

lemma fetch_ring:
  assumes "fetch_ok rs C K s" "C < K"
  shows "spec_ring (cm_mem s) (C mod 256) = rs ! C"
proof -
  obtain j ph keep where "fetch_at rs C K s j ph keep" using assms(1) by (auto simp: fetch_ok_def)
  note i = fetch_atD [OF this]
  have "C < j" using i(3) assms(2) by (simp split: if_splits)
  then show ?thesis using i(7) by blast
qed

lemma fetch_bounds:
  assumes "fetch_ok rs C K s"
  shows "C \<le> K" "K \<le> length rs" "sp_head (cm_mem s) = ix K"
  using assms by (auto simp: fetch_ok_def fetch_at_def)

lemma fetch_ok_frame:
  assumes "fetch_ok rs C K s" "fetch_buf s' = fetch_buf s" "fetch_pc s' = fetch_pc s" "cm_mem s' = cm_mem s"
  shows "fetch_ok rs C K s'"
  using assms by (simp add: fetch_ok_def fetch_at_def)

lemma fetch_ok_checked:
  assumes "fetch_ok rs C K s" "C < K"
  shows "fetch_ok rs (Suc C) K s"
proof -
  obtain j ph keep where "fetch_at rs C K s j ph keep" using assms(1) by (auto simp: fetch_ok_def)
  note i = fetch_atD [OF this]
  show ?thesis using assms(2) i by (intro fetch_okI [where j = j and ph = ph and keep = keep]) simp_all
qed

lemma fetch_ok_tail:
  assumes "fetch_ok rs C K s"
  shows "fetch_ok rs C K (s\<lparr>verify_buf := buf, cm_mem := commit (To_tail v) (cm_mem s)\<rparr>)"
proof -
  obtain j ph keep where f: "fetch_at rs C K s j ph keep" using assms by (auto simp: fetch_ok_def)
  have "commit st (e\<lparr>sp_tail := v\<rparr>) = e\<lparr>sp_tail := v\<rparr>" if "Put st \<in> set (data rs j)" "commit st e = e" for st e
  proof -
    have "commit st (e\<lparr>sp_tail := v\<rparr>) = (commit st e)\<lparr>sp_tail := v\<rparr>"
      using that(1) by (auto simp: data_def entry_stores_def split: if_splits)
    then show ?thesis by (simp add: that(2))
  qed
  then show ?thesis using fetch_atD [OF f] by (intro fetch_okI [where j = j and ph = ph and keep = keep]) simp_all
qed

lemma verify_view:
  assumes "fetch_ok rs C K s" "verify_ok rs C K s"
  shows "sp_head (view (verify_buf s) (cm_mem s)) = ix K" "sp_tail (view (verify_buf s) (cm_mem s)) = ix C"
    "C < K \<Longrightarrow> spec_ring (view (verify_buf s) (cm_mem s)) (C mod 256) = rs ! C"
  using assms fetch_bounds [OF assms(1)] fetch_ring [OF assms(1)] view_only_tail by (auto simp: verify_ok_def)

text \<open>A step of either core other than a check keeps the invariant.\<close>

lemma internal_ok:
  assumes "core_step sr fetch Internal s s'" "cores_ok rs C s" "length rs \<le> C + 255"
  shows "cores_ok rs C s'"
proof -
  obtain K where f: "fetch_ok rs C K s" and v: "verify_ok rs C K s" using assms(2) by (auto simp: cores_ok_def)
  note frame = fetch_ok_frame [OF f] and b = fetch_bounds [OF f] and w = verify_view [OF f v]
  have near: "K < C + 256" using b(2) assms(3) by simp
  have tail: "only_tail (verify_buf s)" using v by (simp add: verify_ok_def)
  show ?thesis
    using assms(1)
  proof cases
    case (fetch_issues x xs)
    then show ?thesis using fetch_issues_ok [OF f] v by (auto simp: cores_ok_def verify_ok_def)
  next
    case fetch_returns
    then show ?thesis using fetch_returns_ok [OF f] v by (auto simp: cores_ok_def verify_ok_def)
  next
    case (fetch_drains st buf)
    obtain K' where K': "K \<le> K'" "fetch_ok rs C K' (s\<lparr>fetch_buf := buf, cm_mem := commit st (cm_mem s)\<rparr>)"
      "sp_tail (commit st (cm_mem s)) = sp_tail (cm_mem s)" using fetch_drains_ok [OF f fetch_drains(2) assms(3)] by blast
    then have "verify_ok rs C K' s'"
      using v verify_at_mono view_only_tail(3) [OF tail K'(3)] by (auto simp: fetch_drains(1) verify_ok_def)
    then show ?thesis using K'(2) by (auto simp: cores_ok_def fetch_drains(1))
  next
    case (fetch_synced buf)
    then show ?thesis using fetch_synced_ok [OF f] v by (auto simp: cores_ok_def verify_ok_def)
  next
    case verify_begins
    then show ?thesis using frame [of s'] v by (auto simp: cores_ok_def verify_ok_def)
  next
    case (verify_tests m)
    have "ix C = ix K \<longleftrightarrow> C = K" using b(1) near by (rule ix_eq_iff)
    then show ?thesis using frame [of s'] v b(1) w verify_tests by (auto simp: cores_ok_def verify_ok_def)
  next
    case (verify_vaddr t m)
    then show ?thesis using frame [of s'] v w by (auto simp: cores_ok_def verify_ok_def)
  next
    case (verify_hi t a m)
    then show ?thesis using frame [of s'] v w by (auto simp: cores_ok_def verify_ok_def)
  next
    case (verify_lo t a hi m)
    then show ?thesis using frame [of s'] v w by (auto simp: cores_ok_def verify_ok_def)
  next
    case (verify_synced t r)
    then show ?thesis using frame [of s'] v by (auto simp: cores_ok_def verify_ok_def)
  next
    case (verify_drains st buf)
    obtain u where u: "st = To_tail u" "verify_buf s = Put st # buf" "only_tail buf"
      using drains_only_tail [OF verify_drains(2) tail] by blast
    then have "verify_ok rs C K s'" using v by (auto simp: verify_ok_def verify_drains(1))
    then show ?thesis using fetch_ok_tail [OF f, of u buf] u(1) by (auto simp: cores_ok_def verify_drains(1))
  qed
qed

lemma check_ok:
  assumes "cores_ok rs C s" "verify_pc s = V_check t r"
  shows "C < length rs \<and> r = rs ! C" "holds_now fetch r \<Longrightarrow> cores_ok rs (Suc C) (verify_outcome fetch t r s)"
proof -
  obtain K where f: "fetch_ok rs C K s" and v: "verify_ok rs C K s" using assms(1) by (auto simp: cores_ok_def)
  have r: "t = ix C" "C < K" "r = rs ! C" using v assms(2) by (simp_all add: verify_ok_def)
  then show "C < length rs \<and> r = rs ! C" using fetch_bounds [OF f] by simp
  assume "holds_now fetch r"
  then have o: "verify_outcome fetch t r s =
      s\<lparr>verify_buf := verify_buf s @ [Put (To_tail (ix (Suc C)))], verify_pc := V_loop\<rparr>"
    using r(1) by (simp add: verify_outcome_def holds_now_def issue_def)
  have "fetch_ok rs (Suc C) K (verify_outcome fetch t r s)"
    unfolding o by (rule fetch_ok_frame [OF fetch_ok_checked [OF f r(2)]]) simp_all
  moreover have "verify_ok rs (Suc C) K (verify_outcome fetch t r s)"
    unfolding o using v by (auto simp: verify_ok_def only_tail_def)
  ultimately show "cores_ok rs (Suc C) (verify_outcome fetch t r s)" by (auto simp: cores_ok_def)
qed

lemma begin_ok:
  assumes "cores_ok rs C s" "fetch_pc s = None"
  shows "cores_ok (rs @ [r]) C (s\<lparr>fetch_pc := Some (fetch_stores r (sp_head (view (fetch_buf s) (cm_mem s))))\<rparr>)"
proof -
  obtain K where f: "fetch_ok rs C K s" and v: "verify_ok rs C K s" using assms(1) by (auto simp: cores_ok_def)
  then show ?thesis
    using fetch_begins_ok [OF f assms(2), of r] verify_at_snoc [OF _ fetch_bounds(2) [OF f]]
    unfolding cores_ok_def verify_ok_def by (intro exI [of _ K]) simp
qed

lemma taken_length: "xs = take (length xs) ys \<Longrightarrow> length xs \<le> length ys"
  by (metis length_take min.cobounded1)

lemma take_more: "xs = take (length xs) ys \<Longrightarrow> xs = take (length xs) (ys @ [y])"
  using taken_length [of xs ys] by (simp add: take_append)

inductive_cases fetched_stepE: "core_step sr fetch (Fetched r) s s'"
inductive_cases checked_stepE: "core_step sr fetch (Checked r) s s'"

lemma start_ok:
  "cores_ok [] 0 \<lparr>cm_mem = PredictiveEngine ring0, fetch_pc = None, fetch_buf = [], verify_pc = V_idle, verify_buf = [], ipis = []\<rparr>"
proof -
  have "fetch_ok [] 0 0 \<lparr>cm_mem = PredictiveEngine ring0, fetch_pc = None, fetch_buf = [], verify_pc = V_idle, verify_buf = [], ipis = []\<rparr>"
    by (rule fetch_okI [where j = 0 and ph = False and keep = "\<lambda>_. True"])
      (simp_all add: backlog_def data_def later_unfold PredictiveEngine_def ix_def)
  then show ?thesis by (auto simp: cores_ok_def verify_ok_def only_tail_def PredictiveEngine_def ix_def)
qed

lemma run_ok:
  assumes "core_run sr fetch ring0 es s" "never_full es" "\<forall>r \<in> set (checked es). holds_now fetch r"
  shows "cores_ok (fetched es) (length (checked es)) s \<and> checked es = take (length (checked es)) (fetched es)"
  using assms
proof induction
  case start
  show ?case using start_ok by simp
next
  case (step es s e s')
  note full = never_full_snoc [OF step.prems(1)]
  have old: "\<forall>r \<in> set (checked es). holds_now fetch r" using step.prems(2) by (cases e) simp_all
  note IH = step.IH [OF full(1) old]
  show ?case
  proof (cases e)
    case (Fetched r)
    then show ?thesis
      using IH step.hyps(2) begin_ok take_more [OF conjunct2 [OF IH]] by (auto elim!: fetched_stepE simp del: take_append)
  next
    case (Checked r)
    then obtain t where t: "verify_pc s = V_check t r" "s' = verify_outcome fetch t r s"
      using step.hyps(2) by (auto elim: checked_stepE)
    have "holds_now fetch r" using step.prems(2) Checked by simp
    from check_ok(1) [OF conjunct1 [OF IH] t(1)] check_ok(2) [OF conjunct1 [OF IH] t(1) this] show ?thesis
      using IH t(2) Checked by (simp add: take_Suc_conv_app_nth)
  next
    case Internal
    then show ?thesis using IH step.hyps(2) full(2) internal_ok by simp
  qed
qed

section \<open>Runs\<close>

lemma spec_record_eta [simp]:
  "\<lparr>sr_vaddr = sr_vaddr r, sr_predicted = sr_predicted r\<rparr> = r" "q\<lparr>sr_vaddr := sr_vaddr r, sr_predicted := sr_predicted r\<rparr> = r"
  by (cases r, simp)+

text \<open>A core left alone issues and drains what it has.\<close>

lemma issue_all:
  assumes "core_run sr fetch ring0 es s" "fetch_pc s = Some xs"
  shows "core_run sr fetch ring0 (es @ replicate (Suc (length xs)) Internal) (s\<lparr>fetch_pc := None, fetch_buf := fetch_buf s @ xs\<rparr>)"
  using assms
proof (induction xs arbitrary: es s)
  case Nil
  then show ?case using core_run.step [OF Nil(1) core_step.fetch_returns] by simp
next
  case (Cons x xs)
  let ?s = "s\<lparr>fetch_pc := Some xs, fetch_buf := fetch_buf s @ [x]\<rparr>"
  have "issue x (fetch_buf s) = fetch_buf s @ [x]" by (cases x) (simp_all add: issue_def store_sync_def)
  then have "core_run sr fetch ring0 (es @ [Internal]) ?s"
    using core_run.step [OF Cons.prems(1) core_step.fetch_issues [OF Cons.prems(2)]] by simp
  from Cons.IH [OF this] show ?case by simp
qed

lemma drain_all:
  assumes "core_run sr fetch ring0 es s" "fetch_buf s = xs"
  shows "core_run sr fetch ring0 (es @ replicate (length xs) Internal) (s\<lparr>fetch_buf := [], cm_mem := view xs (cm_mem s)\<rparr>)"
  using assms
proof (induction xs arbitrary: es s)
  case Nil
  then show ?case by (cases s) simp
next
  case (Cons x xs)
  show ?case
  proof (cases x)
    case (Put st)
    have "drains (fetch_buf s) st xs" unfolding drains_def using Cons.prems(2) Put by (intro exI [of _ "[]"] exI [of _ xs]) simp
    from Cons.IH [OF core_run.step [OF Cons.prems(1) core_step.fetch_drains [OF this]]] show ?thesis using Put by simp
  next
    case Sync
    then have "fetch_buf s = Sync # xs" using Cons.prems(2) by simp
    from Cons.IH [OF core_run.step [OF Cons.prems(1) core_step.fetch_synced [OF this]]] show ?thesis using Sync by simp
  qed
qed

lemma acts_internal [simp]: "fetched (replicate n Internal) = []" "checked (replicate n Internal) = []"
  by (induction n) simp_all

text \<open>A call that goes on undisturbed once it has read the head.\<close>

lemma fetch_alone:
  assumes "core_run sr fetch ring0 es s" "fetch_pc s = Some xs" "fetch_buf s = []"
  obtains es' where "core_run sr fetch ring0 es' (s\<lparr>fetch_pc := None, cm_mem := view xs (cm_mem s)\<rparr>)"
    "fetched es' = fetched es" "checked es' = checked es"
proof -
  have "core_run sr fetch ring0 ((es @ replicate (Suc (length xs)) Internal) @ replicate (length xs) Internal)
      (s\<lparr>fetch_pc := None, cm_mem := view xs (cm_mem s)\<rparr>)"
    using drain_all [OF issue_all [OF assms(1,2)] refl] assms(3) by (cases s) simp
  then show thesis by (rule that) simp_all
qed

text \<open>A check that goes on undisturbed to the comparison.\<close>

lemma check_alone:
  assumes "core_run sr fetch ring0 es s" "verify_pc s = V_idle" "verify_buf s = []"
    and "sp_tail (cm_mem s) \<noteq> sp_head (cm_mem s)"
  obtains es' where "core_run sr fetch ring0 es'
      (s\<lparr>verify_pc := V_check (sp_tail (cm_mem s)) (spec_ring (cm_mem s) (unat (sp_tail (cm_mem s))))\<rparr>)"
    "fetched es' = fetched es" "checked es' = checked es"
proof -
  let ?t = "sp_tail (cm_mem s)"
  let ?r = "spec_ring (cm_mem s) (unat ?t)"
  have step: "core_run sr fetch ring0 (es @ [Internal]) (s\<lparr>verify_pc := v'\<rparr>)"
    if "core_run sr fetch ring0 es (s\<lparr>verify_pc := v\<rparr>)" "core_step sr fetch Internal (s\<lparr>verify_pc := v\<rparr>) (s\<lparr>verify_pc := v'\<rparr>)" for es v v'
    using core_run.step [OF that] .
  have "core_run sr fetch ring0 (es @ [Internal]) (s\<lparr>verify_pc := V_loop\<rparr>)"
    using core_run.step [OF assms(1) core_step.verify_begins [OF assms(2)]] .
  moreover have "core_step sr fetch Internal (s\<lparr>verify_pc := V_loop\<rparr>) (s\<lparr>verify_pc := V_vaddr ?t\<rparr>)"
    using core_step.verify_tests [of "s\<lparr>verify_pc := V_loop\<rparr>" "cm_mem s" sr fetch] assms(3,4) by simp
  moreover have "core_step sr fetch Internal (s\<lparr>verify_pc := V_vaddr ?t\<rparr>) (s\<lparr>verify_pc := V_hi ?t (sr_vaddr ?r)\<rparr>)"
    using core_step.verify_vaddr [of "s\<lparr>verify_pc := V_vaddr ?t\<rparr>" ?t "cm_mem s" sr fetch] assms(3) by simp
  moreover have "core_step sr fetch Internal (s\<lparr>verify_pc := V_hi ?t (sr_vaddr ?r)\<rparr>)
      (s\<lparr>verify_pc := V_lo ?t (sr_vaddr ?r) (v_hi (sr_predicted ?r))\<rparr>)"
    using core_step.verify_hi [of "s\<lparr>verify_pc := V_hi ?t (sr_vaddr ?r)\<rparr>" ?t "sr_vaddr ?r" "cm_mem s" sr fetch] assms(3) by simp
  moreover have "core_step sr fetch Internal (s\<lparr>verify_pc := V_lo ?t (sr_vaddr ?r) (v_hi (sr_predicted ?r))\<rparr>) (s\<lparr>verify_pc := V_sync ?t ?r\<rparr>)"
    using core_step.verify_lo [of "s\<lparr>verify_pc := V_lo ?t (sr_vaddr ?r) (v_hi (sr_predicted ?r))\<rparr>" ?t "sr_vaddr ?r"
        "v_hi (sr_predicted ?r)" "cm_mem s" sr fetch] assms(3) by simp
  moreover have "core_step sr fetch Internal (s\<lparr>verify_pc := V_sync ?t ?r\<rparr>) (s\<lparr>verify_pc := V_check ?t ?r\<rparr>)"
    using core_step.verify_synced [of "s\<lparr>verify_pc := V_sync ?t ?r\<rparr>" ?t ?r sr fetch] assms(3) by (simp add: full_sync_def)
  ultimately have "core_run sr fetch ring0 (((((es @ [Internal]) @ [Internal]) @ [Internal]) @ [Internal]) @ [Internal] @ [Internal])
      (s\<lparr>verify_pc := V_check ?t ?r\<rparr>)"
    using step by (metis append_assoc)
  then show thesis by (rule that) simp_all
qed

text \<open>A call begun before the check fails ends after the rollback.\<close>

lemma rollback_race:
  assumes "r1 = prediction sr u1 a1" "r2 = prediction sr u2 a2" "\<not> holds_now fetch r1"
  shows "\<exists>es s. core_run sr fetch ring0 es s \<and> fetched es = [r1, r2] \<and> checked es = [r1] \<and> ipis s = trigger_ipi_rollback 0 \<and>
    fetch_pc s = None \<and> fetch_buf s = [] \<and> verify_pc s = V_idle \<and> verify_buf s = [] \<and> pending (cm_mem s) = [r1, r2]"
proof -
  let ?s0 = "\<lparr>cm_mem = PredictiveEngine ring0, fetch_pc = None, fetch_buf = [], verify_pc = V_idle, verify_buf = [], ipis = []\<rparr>"
  have "core_run sr fetch ring0 [Fetched r1] (?s0\<lparr>fetch_pc := Some (fetch_stores r1 0)\<rparr>)"
    using core_run.step [OF core_run.start core_step.fetch_begins [of ?s0 r1 sr u1 a1]] assms(1) by (simp add: PredictiveEngine_def)
  from fetch_alone [OF this] obtain e1 where e1: "core_run sr fetch ring0 e1 (?s0\<lparr>cm_mem := view (fetch_stores r1 0) (PredictiveEngine ring0)\<rparr>)"
    "fetched e1 = [r1]" "checked e1 = []" by auto
  let ?m1 = "view (fetch_stores r1 0) (PredictiveEngine ring0)"
  have m1: "sp_head ?m1 = 1" "sp_tail ?m1 = 0" "spec_ring ?m1 0 = r1" "\<And>i. i \<noteq> 0 \<Longrightarrow> spec_ring ?m1 i = ring0 i"
    by (simp_all add: fetch_stores_def entry_stores_def PredictiveEngine_def)
  let ?s1 = "?s0\<lparr>cm_mem := ?m1\<rparr>"
  obtain e2 where e2: "core_run sr fetch ring0 e2 (?s1\<lparr>verify_pc := V_check 0 r1\<rparr>)" "fetched e2 = [r1]" "checked e2 = []"
    using check_alone [OF e1(1)] m1 e1(2,3) by auto
  let ?s2 = "?s1\<lparr>verify_pc := V_check 0 r1, fetch_pc := Some (fetch_stores r2 1)\<rparr>"
  have "core_run sr fetch ring0 (e2 @ [Fetched r2]) ?s2"
    using core_run.step [OF e2(1) core_step.fetch_begins [of "?s1\<lparr>verify_pc := V_check 0 r1\<rparr>" r2 sr u2 a2]] assms(2) m1 by simp
  then have "core_run sr fetch ring0 ((e2 @ [Fetched r2]) @ [Checked r1]) (verify_outcome fetch 0 r1 ?s2)"
    by (rule core_run.step) (rule core_step.verify_checks, simp)
  moreover have "verify_outcome fetch 0 r1 ?s2 =
      ?s2\<lparr>ipis := trigger_ipi_rollback 0, verify_buf := [Put (To_head 0)], verify_pc := V_idle\<rparr>"
    using assms(3) by (auto simp: verify_outcome_def holds_now_def issue_def)
  ultimately have "core_run sr fetch ring0 (((e2 @ [Fetched r2]) @ [Checked r1]) @ [Internal])
      (?s2\<lparr>ipis := trigger_ipi_rollback 0, verify_buf := [], verify_pc := V_idle, cm_mem := ?m1\<lparr>sp_head := 0\<rparr>\<rparr>)" (is "core_run _ _ _ ?e3 ?s3")
    using core_run.step [OF _ core_step.verify_drains [of _ "To_head 0" "[]"]] by (fastforce simp: drains_def)
  from fetch_alone [OF this] obtain e4 where e4:
    "core_run sr fetch ring0 e4 (?s3\<lparr>fetch_pc := None, cm_mem := view (fetch_stores r2 1) (?m1\<lparr>sp_head := 0\<rparr>)\<rparr>)" "fetched e4 = fetched ?e3" "checked e4 = checked ?e3"
    by auto
  have "pending (view (fetch_stores r2 1) (?m1\<lparr>sp_head := 0\<rparr>)) = [r1, r2]"
    using m1 by (simp add: pending_def pending_count_def fetch_stores_def entry_stores_def PredictiveEngine_def upt_rec)
  then show ?thesis using e2(2,3) e4 by (intro exI [of _ e4] exI) auto
qed

lemma never_full_few: "length (fetched es) \<le> 255 \<Longrightarrow> never_full es"
proof -
  have "length (fetched (take n es)) \<le> length (fetched es)" for n
    by (metis acts_simps(2) append_take_drop_id le_add1 length_append)
  then show "length (fetched es) \<le> 255 \<Longrightarrow> never_full es" unfolding never_full_def by (meson le_trans trans_le_add2)
qed

definition wrong_guess :: spec_record where
  "wrong_guess = prediction 5 0 9"

lemma wrong_guess_fails: "\<not> holds_now (\<lambda>_. val128 0 0) wrong_guess"
  by code_simp

section \<open>Properties\<close>

text \<open>C13: the verifier sees what was published, in order. However the two cores interleave and their store buffers
  drain, as long as never more than 255 predictions wait, every record \<open>verify_consensus\<close> compares, up to and
  including the first that fails, is exactly the next record a call of \<open>speculative_fetch\<close> made: no half-written
  record, none twice and none left out.\<close>
theorem verifier_sees_published:
  assumes "core_run sr fetch ring0 es s" "never_full es" "\<forall>r \<in> set (butlast (checked es)). holds_now fetch r"
  shows "checked es = take (length (checked es)) (fetched es)"
  using assms
proof induction
  case start
  show ?case by simp
next
  case (step es s e s')
  note full = never_full_snoc [OF step.prems(1)]
  show ?case
  proof (cases e)
    case (Checked r)
    then obtain t where t: "verify_pc s = V_check t r" using step.hyps(2) by (auto elim: checked_stepE)
    have "\<forall>r \<in> set (checked es). holds_now fetch r" using step.prems(2) Checked by simp
    note ok = run_ok [OF step.hyps(1) full(1) this]
    then show ?thesis using check_ok(1) [OF conjunct1 [OF ok] t] Checked by (simp add: take_Suc_conv_app_nth)
  next
    case (Fetched r)
    then show ?thesis using take_more [OF step.IH [OF full(1)]] step.prems(2) by simp
  next
    case Internal
    then show ?thesis using step.IH [OF full(1)] step.prems(2) by simp
  qed
qed

lemma verifier_sees_published_witness:
  "\<exists>es s. core_run 5 (\<lambda>_. val128 0 0) (\<lambda>_. wrong_guess) es s \<and> length (checked es) = 1 \<and>
    checked es = take 1 (fetched es) \<and> length (fetched es) = 2"
proof -
  obtain es s where r: "core_run 5 (\<lambda>_. val128 0 0) (\<lambda>_. wrong_guess) es s" "fetched es = [wrong_guess, wrong_guess]"
    "checked es = [wrong_guess]"
    using rollback_race [OF wrong_guess_def wrong_guess_def wrong_guess_fails] by blast
  from verifier_sees_published [OF this(1) never_full_few] r show ?thesis by auto
qed

text \<open>C30: the head has two writers. When a check fails while a call has read the head but not yet stored it, the call
  stores its own successor over the rollback: the failed prediction is pending again, and the call after it with it.
  Alone, \<open>verify_consensus\<close> leaves nothing pending (\<open>verify_consensus_total\<close>).\<close>
theorem rollback_can_be_lost:
  assumes "r1 = prediction sr u1 a1" "r2 = prediction sr u2 a2" "\<not> holds_now fetch r1"
  shows "\<exists>es s. core_run sr fetch ring0 es s \<and> checked es = [r1] \<and> ipis s = trigger_ipi_rollback 0 \<and>
    fetch_pc s = None \<and> fetch_buf s = [] \<and> verify_pc s = V_idle \<and> verify_buf s = [] \<and> pending (cm_mem s) = [r1, r2]"
  using rollback_race [OF assms] by blast

lemma rollback_can_be_lost_witness:
  "\<exists>es s. core_run 5 (\<lambda>_. val128 0 0) (\<lambda>_. wrong_guess) es s \<and> checked es = [wrong_guess] \<and>
    pending (cm_mem s) = [wrong_guess, wrong_guess]"
  using rollback_can_be_lost [OF wrong_guess_def wrong_guess_def wrong_guess_fails] by blast

end
