(* ===== verification/AhciLayout.thy ===== *)
theory AhciLayout
  imports Ahci
begin

text \<open>
  The structures of \<open>src/hal/ahci.hpp\<close> as they are declared, with the layout the x86-64 System V ABI gives them:
  members at multiples of their alignment, bit fields packed from the low bit of a storage unit of their
  type. Theory \<open>Ahci\<close> writes these structures byte by byte; here its stores are shown to be the member assignments
  of the source.
\<close>

unbundle bit_operations_syntax

section \<open>Declarations and their layout\<close>

text \<open>A member with alignment and size, or a bit field with the size of its type and its width.\<close>

datatype member = Plain nat nat | Bits nat nat

type_synonym struct = "(string \<times> member) list"

definition align_up :: "nat \<Rightarrow> nat \<Rightarrow> nat" where
  "align_up p a = (p + a - 1) div a * a"

fun place_member :: "member \<Rightarrow> nat \<Rightarrow> nat" where
  "place_member (Plain a s) p = align_up p (8 * a)"
| "place_member (Bits u w) p = (if p div (8 * u) = (p + w - 1) div (8 * u) then p else align_up p (8 * u))"

fun member_width :: "member \<Rightarrow> nat" where
  "member_width (Plain a s) = 8 * s"
| "member_width (Bits u w) = w"

fun member_align :: "member \<Rightarrow> nat" where
  "member_align (Plain a s) = a"
| "member_align (Bits u w) = u"

text \<open>First bit and width of every member.\<close>

fun layout_from :: "nat \<Rightarrow> struct \<Rightarrow> (string \<times> nat \<times> nat) list" where
  "layout_from p [] = []"
| "layout_from p ((name, m) # ms) =
    (name, place_member m p, member_width m) # layout_from (place_member m p + member_width m) ms"

definition layout :: "struct \<Rightarrow> (string \<times> nat \<times> nat) list" where
  "layout ms = layout_from 0 ms"

definition struct_align :: "struct \<Rightarrow> nat" where
  "struct_align ms = foldr (\<lambda>(_, m) a. max (member_align m) a) ms 1"

definition size_of :: "struct \<Rightarrow> nat" where
  "size_of ms = (case rev (layout ms) of [] \<Rightarrow> 0 | (_, p, w) # _ \<Rightarrow> align_up (p + w) (8 * struct_align ms) div 8)"

definition offset_of :: "struct \<Rightarrow> string \<Rightarrow> nat" where
  "offset_of ms name = (case map_of (layout ms) name of None \<Rightarrow> 0 | Some (p, w) \<Rightarrow> p div 8)"

definition HBAPRDTEntry :: struct where
  "HBAPRDTEntry = [(''dba'', Plain 4 4), (''dbau'', Plain 4 4), (''rsv0'', Plain 4 4), (''dbc'', Bits 4 31), (''i'', Bits 4 1)]"

definition HBACommandTable :: struct where
  "HBACommandTable = [(''cfis'', Plain 1 64), (''acmd'', Plain 1 16), (''rsv'', Plain 1 48),
     (''prdt_entry'', Plain (struct_align HBAPRDTEntry) (1 * size_of HBAPRDTEntry))]"

definition HBACommandHeader :: struct where
  "HBACommandHeader = [(''cfl'', Bits 1 5), (''a'', Bits 1 1), (''w'', Bits 1 1), (''p'', Bits 1 1), (''r'', Bits 1 1),
     (''b'', Bits 1 1), (''c'', Bits 1 1), (''rsv0'', Bits 1 1), (''pmp'', Bits 1 4), (''prdtl'', Plain 2 2),
     (''prdbc'', Plain 4 4), (''ctba'', Plain 4 4), (''ctbau'', Plain 4 4), (''rsv1'', Plain 4 16)]"

definition AHCIHBA :: struct where
  "AHCIHBA = map (\<lambda>name. (name, Plain 4 4)) [''cap'', ''ghc'', ''is'', ''pi'', ''vs'', ''ccc_ctl'', ''ccc_pts'', ''em_loc'',
     ''em_ctl'', ''cap2'', ''bohc'']"

definition HBAPort :: struct where
  "HBAPort = map (\<lambda>name. (name, Plain 4 4)) [''clb'', ''clbu'', ''fb'', ''fbu'', ''is'', ''ie'', ''cmd'', ''rsv0'', ''tfd'', ''sig'',
     ''ssts'', ''sctl'', ''serr'', ''sact'', ''ci'', ''sntf'', ''fbs''] @ [(''rsv1'', Plain 4 44), (''vendor'', Plain 4 16)]"

section \<open>Members in memory\<close>

fun int_of_bytes :: "u8 list \<Rightarrow> int" where
  "int_of_bytes [] = 0"
| "int_of_bytes (b # bs) = uint b OR push_bit 8 (int_of_bytes bs)"

definition bytes_of_int :: "nat \<Rightarrow> int \<Rightarrow> u8 list" where
  "bytes_of_int n x = map (\<lambda>i. word_of_int (drop_bit (8 * i) x)) [0..<n]"

definition put_bits :: "nat \<Rightarrow> nat \<Rightarrow> int \<Rightarrow> int \<Rightarrow> int" where
  "put_bits p w v x = (x AND NOT (push_bit p (mask w))) OR push_bit p (take_bit w v)"

text \<open>An object of \<open>n\<close> bytes at \<open>base\<close> with \<open>w\<close> bits from bit \<open>p\<close> on replaced.\<close>

definition store_bits :: "nat \<Rightarrow> nat \<Rightarrow> nat \<Rightarrow> nat \<Rightarrow> int \<Rightarrow> mem \<Rightarrow> mem" where
  "store_bits n base p w v m = mem_write m base (bytes_of_int n (put_bits p w v (int_of_bytes (mem_read m base n))))"

definition assign :: "struct \<Rightarrow> nat \<Rightarrow> string \<times> int \<Rightarrow> mem \<Rightarrow> mem" where
  "assign ms base = (\<lambda>(name, v) m. case map_of (layout ms) name of None \<Rightarrow> m | Some (p, w) \<Rightarrow> store_bits (size_of ms) base p w v m)"

definition member_value :: "struct \<Rightarrow> nat \<Rightarrow> string \<Rightarrow> mem \<Rightarrow> int" where
  "member_value ms base name m =
    (case map_of (layout ms) name of None \<Rightarrow> 0 | Some (p, w) \<Rightarrow> take_bit w (drop_bit p (int_of_bytes (mem_read m base (size_of ms)))))"

text \<open>The assignments of \<open>issue_command\<close> to the first command header and to the region descriptor.\<close>

definition assign_header :: "ahci_driver \<Rightarrow> bool \<Rightarrow> mem \<Rightarrow> mem" where
  "assign_header d wr = fold (assign HBACommandHeader (unat (cmd_list d)))
    [(''cfl'', 5), (''w'', if wr then 1 else 0), (''prdtl'', 1), (''ctba'', uint (ucast (cmd_table d) :: u32)), (''ctbau'', 0)]"

definition assign_prdt :: "ahci_driver \<Rightarrow> u32 \<Rightarrow> u64 \<Rightarrow> mem \<Rightarrow> mem" where
  "assign_prdt d count buffer = fold (assign HBAPRDTEntry (unat (cmd_table d) + offset_of HBACommandTable ''prdt_entry''))
    [(''dba'', uint (ucast buffer :: u32)), (''dbau'', 0), (''dbc'', uint (push_bit 9 count - 1)), (''i'', 1)]"

section \<open>Bits and bytes\<close>

lemma bit_int_of_bytes: "bit (int_of_bytes bs) k \<longleftrightarrow> k div 8 < length bs \<and> bit (bs ! (k div 8)) (k mod 8)"
proof (induction bs arbitrary: k)
  case Nil
  then show ?case by simp
next
  case (Cons b bs)
  show ?case
  proof (cases "k < 8")
    case True
    then show ?thesis by (simp add: bit_simps)
  next
    case False
    then have "k div 8 = Suc ((k - 8) div 8)" "k mod 8 = (k - 8) mod 8" by (simp_all add: le_div_geq le_mod_geq)
    moreover have "\<not> bit b k" using False bit_imp_le_length [of b k] by auto
    ultimately show ?thesis using False Cons.IH [of "k - 8"] by (simp add: bit_simps)
  qed
qed

lemma bit_bytes_of_int: "i < n \<Longrightarrow> bit (bytes_of_int n x ! i) k \<longleftrightarrow> k < 8 \<and> bit x (8 * i + k)"
  by (simp add: bytes_of_int_def bit_simps)

lemma length_bytes_of_int [simp]: "length (bytes_of_int n x) = n"
  by (simp add: bytes_of_int_def)

lemma bit_put_bits: "bit (put_bits p w v x) k \<longleftrightarrow> (if p \<le> k \<and> k < p + w then bit v (k - p) else bit x k)"
  by (auto simp: put_bits_def bit_simps)

text \<open>Every byte afterwards, bit by bit.\<close>

lemma bit_store_bits:
  assumes "p + w \<le> 8 * n"
  shows "bit (store_bits n base p w v m i) k \<longleftrightarrow>
    (if base \<le> i \<and> k < 8 \<and> p \<le> 8 * (i - base) + k \<and> 8 * (i - base) + k < p + w
     then bit v (8 * (i - base) + k - p) else bit (m i) k)"
proof (cases "base \<le> i \<and> i < base + n")
  case True
  then have "bit (store_bits n base p w v m i) k \<longleftrightarrow>
      k < 8 \<and> bit (put_bits p w v (int_of_bytes (mem_read m base n))) (8 * (i - base) + k)"
    using bit_bytes_of_int [of "i - base" n] by (auto simp: store_bits_def mem_write_def)
  moreover have "bit (int_of_bytes (mem_read m base n)) (8 * (i - base) + k) \<longleftrightarrow> bit (m i) k" if "k < 8"
    using True that by (auto simp: bit_int_of_bytes)
  moreover have "\<not> bit (m i) k" if "\<not> k < 8" using that bit_imp_le_length [of "m i" k] by auto
  ultimately show ?thesis using True by (auto simp: bit_put_bits)
next
  case False
  then have "store_bits n base p w v m i = m i" by (auto simp: store_bits_def mem_write_def)
  moreover have "\<not> (base \<le> i \<and> 8 * (i - base) + k < p + w)" using False assms by auto
  ultimately show ?thesis by auto
qed

lemma u8_eqI: "(\<And>k. k < 8 \<Longrightarrow> bit x k \<longleftrightarrow> bit y k) \<Longrightarrow> x = (y :: u8)"
  by (rule bit_word_eqI) simp

text \<open>A member lies in its storage unit: only the unit is read and written.\<close>

lemma store_bits_unit:
  assumes "r + w \<le> 8 * j" "k + j \<le> n"
  shows "store_bits n base (8 * k + r) w v m = store_bits j (base + k) r w v m"
proof (rule ext, rule u8_eqI)
  fix i b :: nat
  assume b: "b < 8"
  have fit: "8 * k + r + w \<le> 8 * n" using assms by simp
  have "base \<le> i \<and> 8 * k + r \<le> 8 * (i - base) + b \<and> 8 * (i - base) + b < 8 * k + r + w \<longleftrightarrow>
      base + k \<le> i \<and> r \<le> 8 * (i - (base + k)) + b \<and> 8 * (i - (base + k)) + b < r + w" using b by auto
  then show "bit (store_bits n base (8 * k + r) w v m i) b \<longleftrightarrow> bit (store_bits j (base + k) r w v m i) b"
    using b by (auto simp: bit_store_bits [OF fit] bit_store_bits [OF assms(1)] diff_mult_distrib2 add.assoc)
qed

lemma bit_to_le: "i < n \<Longrightarrow> bit (to_le n w ! i) k \<longleftrightarrow> k < 8 \<and> bit w (8 * i + k)"
proof (induction n arbitrary: i w)
  case (Suc n)
  then show ?case by (cases i) (auto simp: bit_simps add.assoc dest: bit_imp_le_length)
qed simp

text \<open>A whole word.\<close>

lemma store_bits_word:
  fixes x :: "'a::len word"
  assumes "LENGTH('a) = 8 * j"
  shows "store_bits j base 0 (8 * j) (uint x) m = mem_write m base (to_le j x)"
proof (rule ext, rule u8_eqI)
  fix i b :: nat
  assume b: "b < 8"
  have fit: "0 + 8 * j \<le> 8 * j" by simp
  have "base \<le> i \<and> i < base + j \<longleftrightarrow> base \<le> i \<and> 8 * (i - base) + b < 8 * j" using b by auto
  then show "bit (store_bits j base 0 (8 * j) (uint x) m i) b \<longleftrightarrow> bit (mem_write m base (to_le j x) i) b"
    using b assms bit_to_le [of "i - base" j x b] by (auto simp: bit_store_bits [OF fit] mem_write_def bit_uint_iff)
qed

text \<open>A bit field of one byte, and of one word.\<close>

lemma store_bits_byte:
  assumes "r + w \<le> 8"
  shows "store_bits 1 base r w v m = m(base := (m base AND NOT (push_bit r (mask w))) OR push_bit r (word_of_int v AND mask w))"
proof (rule ext, rule u8_eqI)
  fix i b :: nat
  assume b: "b < 8"
  have fit: "r + w \<le> 8 * 1" using assms by simp
  show "bit (store_bits 1 base r w v m i) b \<longleftrightarrow>
      bit ((m(base := (m base AND NOT (push_bit r (mask w))) OR push_bit r (word_of_int v AND mask w))) i) b"
    unfolding bit_store_bits [OF fit] using b assms by (auto simp: bit_simps)
qed

lemma store_bits_dword:
  assumes "r + w \<le> 32"
  shows "store_bits 4 base r w v m = mem_write m base (to_le 4
    (((of_le (mem_read m base 4) :: u32) AND NOT (push_bit r (mask w))) OR push_bit r (word_of_int v AND mask w)))"
proof (rule ext, rule u8_eqI)
  fix i b :: nat
  assume b: "b < 8"
  have fit: "r + w \<le> 8 * 4" using assms by simp
  let ?x = "((of_le (mem_read m base 4) :: u32) AND NOT (push_bit r (mask w))) OR push_bit r (word_of_int v AND mask w)"
  have x: "bit ?x k \<longleftrightarrow> (if r \<le> k \<and> k < r + w then bit v (k - r) else bit (of_le (mem_read m base 4) :: u32) k)" if "k < 32" for k
    using that assms by (auto simp: bit_simps)
  show "bit (store_bits 4 base r w v m i) b \<longleftrightarrow> bit (mem_write m base (to_le 4 ?x) i) b"
  proof (cases "base \<le> i \<and> i < base + 4")
    case True
    define k where "k = 8 * (i - base) + b"
    have k: "k < 32" "i - base < 4" using True b by (auto simp: k_def)
    have "to_le 4 (of_le (mem_read m base 4) :: u32) ! (i - base) = mem_read m base 4 ! (i - base)"
      by (subst to_le_of_le) simp_all
    moreover have "mem_read m base 4 ! (i - base) = m i" using True by auto
    ultimately have old: "bit (of_le (mem_read m base 4) :: u32) k \<longleftrightarrow> bit (m i) b"
      using bit_to_le [OF k(2), of "of_le (mem_read m base 4) :: u32" b] True b by (simp add: k_def)
    have "mem_write m base (to_le 4 ?x) i = to_le 4 ?x ! (i - base)" using True by (simp add: mem_write_def)
    then have "bit (mem_write m base (to_le 4 ?x) i) b \<longleftrightarrow> bit ?x k" using bit_to_le [OF k(2), of ?x b] b by (simp add: k_def)
    then show ?thesis unfolding bit_store_bits [OF fit] x [OF k(1)] old k_def [symmetric] using True b by simp
  next
    case False
    then show ?thesis using b assms by (auto simp: bit_store_bits [OF fit] mem_write_def)
  qed
qed

section \<open>The layouts\<close>

lemmas layout_defs = layout_def size_of_def offset_of_def struct_align_def align_up_def Let_def

lemma layout_header:
  "size_of HBACommandHeader = 32" "map_of (layout HBACommandHeader) ''cfl'' = Some (8 * 0 + 0, 5)"
  "map_of (layout HBACommandHeader) ''w'' = Some (8 * 0 + 6, 1)" "map_of (layout HBACommandHeader) ''prdtl'' = Some (8 * 2 + 0, 8 * 2)"
  "map_of (layout HBACommandHeader) ''ctba'' = Some (8 * 8 + 0, 8 * 4)" "map_of (layout HBACommandHeader) ''ctbau'' = Some (8 * 12 + 0, 8 * 4)"
  by (simp_all add: HBACommandHeader_def layout_defs)

lemma layout_prdt:
  "size_of HBAPRDTEntry = 16" "map_of (layout HBAPRDTEntry) ''dba'' = Some (8 * 0 + 0, 8 * 4)"
  "map_of (layout HBAPRDTEntry) ''dbau'' = Some (8 * 4 + 0, 8 * 4)" "map_of (layout HBAPRDTEntry) ''dbc'' = Some (8 * 12 + 0, 31)"
  "map_of (layout HBAPRDTEntry) ''i'' = Some (8 * 12 + 31, 1)"
  by (simp_all add: HBAPRDTEntry_def layout_defs)

lemma layout_sizes:
  "size_of HBACommandTable = 144" "offset_of HBACommandTable ''cfis'' = 0" "offset_of HBACommandTable ''prdt_entry'' = 128"
  "size_of HBAPort = 0x80" "size_of AHCIHBA = 0x2C"
  by (simp_all add: HBACommandTable_def HBAPRDTEntry_def HBAPort_def AHCIHBA_def layout_defs)

lemma store_bits_zero: "store_bits 4 base 0 32 0 m = mem_write m base (to_le 4 (0 :: u32))"
  using store_bits_word [where x = "0 :: u32" and j = 4] by simp

lemma field_masks:
  "push_bit 0 (mask 5) = (0x1F :: u8)" "word_of_int 5 AND mask 5 = (5 :: u8)" "push_bit 6 (mask 1) = (0x40 :: u8)"
  "push_bit 6 (word_of_int 1 AND mask 1) = (0x40 :: u8)" "push_bit 6 (word_of_int 0 AND mask 1) = (0 :: u8)"
  "push_bit 0 (mask 31) = (0x7FFFFFFF :: u32)" "push_bit 31 (word_of_int 1 AND mask 1) = (0x80000000 :: u32)"
  by code_simp+

lemma header_members:
  "store_bits 32 cl (8 * 0 + 0) 5 5 m = m(cl := (m cl AND NOT 0x1F) OR 5)"
  "store_bits 32 cl (8 * 0 + 6) 1 (if wr then 1 else 0) m = m(cl := (m cl AND NOT 0x40) OR (if wr then 0x40 else 0))"
  "store_bits 32 cl (8 * 2 + 0) (8 * 2) 1 m = mem_write m (cl + 2) (to_le 2 (1 :: u16))"
  "store_bits 32 cl (8 * 8 + 0) (8 * 4) (uint (x :: u32)) m = mem_write m (cl + 8) (to_le 4 x)"
  "store_bits 32 cl (8 * 12 + 0) (8 * 4) 0 m = mem_write m (cl + 12) (to_le 4 (0 :: u32))"
proof -
  note unit = store_bits_unit [where n = 32 and base = cl]
  show "store_bits 32 cl (8 * 0 + 0) 5 5 m = m(cl := (m cl AND NOT 0x1F) OR 5)"
    using unit [of 0 5 1 0 5 m] store_bits_byte [of 0 5 cl 5 m] field_masks(1,2) by simp
  show "store_bits 32 cl (8 * 0 + 6) 1 (if wr then 1 else 0) m = m(cl := (m cl AND NOT 0x40) OR (if wr then 0x40 else 0))"
    using unit [of 6 1 1 0 _ m] store_bits_byte [of 6 1 cl _ m] field_masks(3-5) by (cases wr) simp_all
  show "store_bits 32 cl (8 * 2 + 0) (8 * 2) 1 m = mem_write m (cl + 2) (to_le 2 (1 :: u16))"
    using unit [of 0 16 2 2 1 m] store_bits_word [where x = "1 :: u16" and j = 2] by simp
  show "store_bits 32 cl (8 * 8 + 0) (8 * 4) (uint x) m = mem_write m (cl + 8) (to_le 4 x)"
    using unit [of 0 32 4 8 "uint x" m] store_bits_word [where x = x and j = 4] by simp
  show "store_bits 32 cl (8 * 12 + 0) (8 * 4) 0 m = mem_write m (cl + 12) (to_le 4 (0 :: u32))"
    using unit [of 0 32 4 12 0 m] store_bits_zero by simp
qed

lemma header_assigned: "build_header d wr m = assign_header d wr m"
  unfolding assign_header_def fold.simps o_apply id_apply assign_def prod.case layout_header option.case header_members
  by (simp add: build_header_def Let_def)

lemma prdt_members:
  "store_bits 16 pr (8 * 0 + 0) (8 * 4) (uint (x :: u32)) m = mem_write m pr (to_le 4 x)"
  "store_bits 16 pr (8 * 4 + 0) (8 * 4) 0 m = mem_write m (pr + 4) (to_le 4 (0 :: u32))"
  "store_bits 16 pr (8 * 12 + 0) 31 (uint (x :: u32)) m =
     mem_write m (pr + 12) (to_le 4 (((of_le (mem_read m (pr + 12) 4) :: u32) AND NOT 0x7FFFFFFF) OR (x AND 0x7FFFFFFF)))"
  "store_bits 16 pr (8 * 12 + 31) 1 1 m =
     mem_write m (pr + 12) (to_le 4 ((of_le (mem_read m (pr + 12) 4) :: u32) OR 0x80000000))"
proof -
  note unit = store_bits_unit [where n = 16 and base = pr]
  show "store_bits 16 pr (8 * 0 + 0) (8 * 4) (uint x) m = mem_write m pr (to_le 4 x)"
    using unit [of 0 32 4 0 "uint x" m] store_bits_word [where x = x and j = 4] by simp
  show "store_bits 16 pr (8 * 4 + 0) (8 * 4) 0 m = mem_write m (pr + 4) (to_le 4 (0 :: u32))"
    using unit [of 0 32 4 4 0 m] store_bits_zero by simp
  have "push_bit 0 (word_of_int (uint x) AND mask 31) = x AND (0x7FFFFFFF :: u32)" using field_masks(6) by simp
  then show "store_bits 16 pr (8 * 12 + 0) 31 (uint x) m =
     mem_write m (pr + 12) (to_le 4 (((of_le (mem_read m (pr + 12) 4) :: u32) AND NOT 0x7FFFFFFF) OR (x AND 0x7FFFFFFF)))"
    using unit [of 0 31 4 12 "uint x" m] store_bits_dword [of 0 31 "pr + 12" "uint x" m] field_masks(6) by simp
  have "(w AND NOT 0x80000000) OR 0x80000000 = w OR (0x80000000 :: u32)" for w by (rule bit_word_eqI) (auto simp: bit_simps)
  moreover have "push_bit 31 (mask 1) = (0x80000000 :: u32)" by code_simp
  ultimately show "store_bits 16 pr (8 * 12 + 31) 1 1 m =
     mem_write m (pr + 12) (to_le 4 ((of_le (mem_read m (pr + 12) 4) :: u32) OR 0x80000000))"
    using unit [of 31 1 4 12 1 m] store_bits_dword [of 31 1 "pr + 12" 1 m] field_masks(7) by simp
qed

lemma prdt_assigned: "build_prdt d count buffer m = assign_prdt d count buffer m"
  unfolding assign_prdt_def fold.simps o_apply id_apply assign_def prod.case layout_prdt layout_sizes option.case prdt_members
  by (simp add: build_prdt_def Let_def add.assoc)

section \<open>Properties\<close>

text \<open>The driver's stores are the member assignments of the declared structures. The bytes it changes in the
  first command header and in the region descriptor are those of the members and bit fields \<open>issue_command\<close> assigns, under
  the layout of the declarations; the table it clears is \<open>sizeof(HBACommandTable)\<close> long, the 1024 bytes of the
  command list hold 32 headers, and ports are \<open>sizeof(HBAPort)\<close> apart.\<close>
theorem stores_match_declarations:
  "build_header d wr m = assign_header d wr m \<and> build_prdt d count buffer m = assign_prdt d count buffer m \<and>
    unat TABLE_BYTES = size_of HBACommandTable \<and> 1024 = 32 * size_of HBACommandHeader \<and>
    get_port d (n + 1) = get_port d n + word_of_nat (size_of HBAPort)"
proof -
  have "unat TABLE_BYTES = size_of HBACommandTable" by (simp add: layout_sizes TABLE_BYTES_def)
  moreover have "get_port d (n + 1) = get_port d n + word_of_nat (size_of HBAPort)"
    by (simp add: get_port_def layout_sizes distrib_right)
  ultimately show ?thesis using layout_header(1) by (simp add: header_assigned prdt_assigned)
qed

text \<open>And the specification's addresses of the registers the driver uses are those of its declarations.\<close>
theorem register_offsets:
  "map (offset_of AHCIHBA) [''ghc'', ''pi''] = [0x04, 0x0C] \<and>
    map (offset_of HBAPort) [''clb'', ''clbu'', ''fb'', ''fbu'', ''is'', ''cmd'', ''tfd'', ''ssts'', ''ci''] =
      [0x00, 0x04, 0x08, 0x0C, 0x10, 0x18, 0x20, 0x28, 0x38]"
  by (simp add: AHCIHBA_def HBAPort_def layout_defs)

end
